(* ===== verification/Go_Prelude.thy ===== *)
theory Go_Prelude
  imports
    Main
    "HOL-Library.Word"
    "HOL-Library.AList"
    "HOL-Library.List_Lexorder"
    "HOL-Library.Char_ord"
    "HOL-Library.Code_Target_Nat"
begin

text \<open>
  The part of Go and of its standard library that the sources under src/internal use, and
  the lemmas all components share.

  \<^item> A Go \<open>string\<close> or \<open>[]byte\<close> is a \<^typ>\<open>string\<close>: a list of bytes (\<^typ>\<open>char\<close> is an
    8-bit value), ordered bytewise by the lexicographic order of \<open>List_Lexorder\<close>.
  \<^item> An \<open>int64\<close> (and \<open>int\<close>, which is 64 bits wide on every platform the build targets) is an
    \<^typ>\<open>int\<close> whose arithmetic is wrapped by \<open>wrap64\<close> wherever the source can overflow.
    Unsigned values on which the source works bitwise are words.
  \<^item> A Go \<open>map\<close> is an association list with distinct keys (\<open>gomap_ok\<close>). The order of the list
    is the order in which a \<open>range\<close> loop visits the map; Go leaves that order open, and so do
    the theorems, which hold for every order.
  \<^item> A \<open>strconv\<close> parse is an option, \<open>None\<close> for a non-nil error.
\<close>

named_theorems gomap_simps \<comment> \<open>lookup, insertion and deletion in Go maps\<close>
named_theorems codec_simps \<comment> \<open>what a decoder returns on the output of its encoder\<close>

subsection \<open>Machine integers\<close>

definition wrap64 :: "int \<Rightarrow> int" where
  "wrap64 x = (x + 2 ^ 63) mod 2 ^ 64 - 2 ^ 63"

definition in_int64 :: "int \<Rightarrow> bool" where
  "in_int64 x \<longleftrightarrow> - (2 ^ 63) \<le> x \<and> x < 2 ^ 63"

lemma in_int64_wrap64 [simp]: "in_int64 (wrap64 x)"
proof -
  have "0 \<le> (x + 2 ^ 63) mod 2 ^ 64" and "(x + 2 ^ 63) mod 2 ^ 64 < (2 ^ 64 :: int)"
    by (rule pos_mod_sign, simp) (rule pos_mod_bound, simp)
  then show ?thesis by (simp add: in_int64_def wrap64_def)
qed

lemma wrap64_id [simp]: "in_int64 x \<Longrightarrow> wrap64 x = x"
  by (simp add: in_int64_def wrap64_def)

lemma wrap64_cong: "wrap64 x mod 2 ^ 64 = x mod 2 ^ 64"
  unfolding wrap64_def by (metis add_diff_cancel_right' mod_diff_left_eq)

subsection \<open>Go maps\<close>

type_synonym ('k, 'v) gomap = "('k \<times> 'v) list"

definition gomap_ok :: "('k, 'v) gomap \<Rightarrow> bool" where
  "gomap_ok m \<longleftrightarrow> distinct (map fst m)"

definition gget :: "('k, 'v) gomap \<Rightarrow> 'k \<Rightarrow> 'v option" where
  "gget m k = map_of m k"

definition gput :: "'k \<Rightarrow> 'v \<Rightarrow> ('k, 'v) gomap \<Rightarrow> ('k, 'v) gomap" where
  "gput k v m = AList.update k v m"

definition gdel :: "'k \<Rightarrow> ('k, 'v) gomap \<Rightarrow> ('k, 'v) gomap" where
  "gdel k m = filter (\<lambda>e. fst e \<noteq> k) m"

definition gkeys :: "('k, 'v) gomap \<Rightarrow> 'k list" where
  "gkeys m = map fst m"

text \<open>
  The contract of a map: what a lookup returns after each update, that the number of entries
  is the number of keys, and that every update keeps the representation well formed. The
  components below use maps through this interface.
\<close>

locale go_map =
  fixes empty :: "'m"
    and lookup :: "'m \<Rightarrow> 'k \<Rightarrow> 'v option"
    and insert_at :: "'k \<Rightarrow> 'v \<Rightarrow> 'm \<Rightarrow> 'm"
    and delete_at :: "'k \<Rightarrow> 'm \<Rightarrow> 'm"
    and count :: "'m \<Rightarrow> nat"
    and wf :: "'m \<Rightarrow> bool"
  assumes lookup_empty: "lookup empty = (\<lambda>_. None)"
    and lookup_insert: "wf m \<Longrightarrow> lookup (insert_at k v m) = (lookup m)(k \<mapsto> v)"
    and lookup_delete: "wf m \<Longrightarrow> lookup (delete_at k m) = (lookup m)(k := None)"
    and finite_lookup: "wf m \<Longrightarrow> finite (dom (lookup m))"
    and count_dom: "wf m \<Longrightarrow> count m = card (dom (lookup m))"
    and wf_empty: "wf empty"
    and wf_insert: "wf m \<Longrightarrow> wf (insert_at k v m)"
    and wf_delete: "wf m \<Longrightarrow> wf (delete_at k m)"
begin

lemma count_insert:
  "wf m \<Longrightarrow> count (insert_at k v m) = (if lookup m k = None then Suc (count m) else count m)"
  by (auto simp: count_dom wf_insert lookup_insert finite_lookup insert_absorb domIff)

lemma count_delete:
  "wf m \<Longrightarrow> count (delete_at k m) = (if lookup m k = None then count m else count m - 1)"
  by (auto simp: count_dom wf_delete lookup_delete finite_lookup domIff card_Diff_singleton_if)

lemma count_delete_Suc:
  assumes "wf m" and "lookup m k \<noteq> None"
  shows "Suc (count (delete_at k m)) = count m"
proof -
  have "k \<in> dom (lookup m)" using assms(2) by auto
  then have "0 < card (dom (lookup m))" using finite_lookup [OF assms(1)] by (auto simp: card_gt_0_iff)
  then show ?thesis using assms by (simp add: count_delete count_dom)
qed

lemma count_empty: "count empty = 0"
  by (simp add: count_dom wf_empty lookup_empty)

text \<open>A fold of deletions removes exactly the listed keys.\<close>

lemma lookup_delete_all:
  "wf m \<Longrightarrow> lookup (fold delete_at ks m) = (\<lambda>k. if k \<in> set ks then None else lookup m k)"
  by (induction ks arbitrary: m) (auto simp: lookup_delete wf_delete fun_eq_iff)

lemma wf_delete_all: "wf m \<Longrightarrow> wf (fold delete_at ks m)"
  by (induction ks arbitrary: m) (auto simp: wf_delete)

end

lemma gget_gput [gomap_simps]: "gget (gput k v m) = (gget m)(k \<mapsto> v)"
  by (simp add: gget_def gput_def update_conv' fun_eq_iff)

lemma gget_gdel [gomap_simps]: "gget (gdel k m) = (gget m)(k := None)"
  by (induction m) (auto simp: gget_def gdel_def fun_eq_iff)

lemma gomap_ok_gput [gomap_simps]: "gomap_ok m \<Longrightarrow> gomap_ok (gput k v m)"
  by (simp add: gomap_ok_def gput_def distinct_update)

lemma gomap_ok_gdel [gomap_simps]: "gomap_ok m \<Longrightarrow> gomap_ok (gdel k m)"
  by (simp add: gomap_ok_def gdel_def distinct_map_filter)

lemma gomap_ok_Nil [simp]: "gomap_ok []"
  by (simp add: gomap_ok_def)

lemma gget_Nil [simp]: "gget [] k = None"
  by (simp add: gget_def)

lemma dom_gget: "dom (gget m) = set (gkeys m)"
  using dom_map_of_conv_image_fst [of m] by (simp add: gget_def [abs_def] gkeys_def)

lemma gget_Some_iff: "gomap_ok m \<Longrightarrow> gget m k = Some v \<longleftrightarrow> (k, v) \<in> set m"
  by (simp add: gomap_ok_def gget_def)

interpretation gm: go_map "[] :: ('k, 'v) gomap" gget gput gdel length gomap_ok
proof (unfold_locales, goal_cases)
  case (5 m)
  then have "card (set (gkeys m)) = length m"
    unfolding gomap_ok_def gkeys_def by (metis distinct_card length_map)
  then show ?case by (simp add: dom_gget)
qed (auto simp: gomap_simps dom_gget)

subsection \<open>Bytes and decimal numbers\<close>

abbreviation byte :: "char \<Rightarrow> nat" where
  "byte c \<equiv> of_char c"

definition CRLF :: string where
  "CRLF = [CHR 0x0D, CHR 0x0A]"

definition is_digit :: "char \<Rightarrow> bool" where
  "is_digit c \<longleftrightarrow> 48 \<le> byte c \<and> byte c \<le> 57"

definition digit_val :: "char \<Rightarrow> nat" where
  "digit_val c = byte c - 48"

definition digit_char :: "nat \<Rightarrow> char" where
  "digit_char d = char_of (48 + d)"

lemma digit_char_props [simp]:
  assumes "d < 10"
  shows "is_digit (digit_char d)" and "digit_val (digit_char d) = d"
  using assms by (simp_all add: is_digit_def digit_val_def digit_char_def)

lemma digit_char_inj: "d < 10 \<Longrightarrow> e < 10 \<Longrightarrow> digit_char d = digit_char e \<longleftrightarrow> d = e"
  by (metis digit_char_props(2))

text \<open>\<open>strconv.FormatUint\<close> and \<open>strconv.FormatInt\<close> in base 10, and \<open>strconv.Itoa\<close>.\<close>

fun FormatUint :: "nat \<Rightarrow> string" where
  "FormatUint n =
     (if n < 10 then [digit_char n] else FormatUint (n div 10) @ [digit_char (n mod 10)])"

declare FormatUint.simps [simp del]

definition FormatInt :: "int \<Rightarrow> string" where
  "FormatInt i = (if i < 0 then CHR ''-'' # FormatUint (nat (- i)) else FormatUint (nat i))"

definition Itoa :: "nat \<Rightarrow> string" where
  "Itoa n = FormatInt (int n)"

text \<open>The digits of a number, read left to right; \<open>None\<close> at a byte that is not a digit.\<close>

fun digits_val :: "nat \<Rightarrow> string \<Rightarrow> nat option" where
  "digits_val acc [] = Some acc"
| "digits_val acc (c # cs) =
     (if is_digit c then digits_val (acc * 10 + digit_val c) cs else None)"

text \<open>
  \<open>strconv.ParseUint(s, 10, 64)\<close>: at least one digit, nothing but digits, at most
  \<open>2 ^ 64 - 1\<close>.
\<close>

definition ParseUint :: "string \<Rightarrow> nat option" where
  "ParseUint s =
     (if s = [] then None
      else case digits_val 0 s of
             None \<Rightarrow> None
           | Some n \<Rightarrow> if n < 2 ^ 64 then Some n else None)"

text \<open>
  \<open>strconv.ParseInt(s, 10, 64)\<close>, and \<open>strconv.Atoi\<close> where \<open>int\<close> is 64 bits wide: an optional
  sign, then a number that fits.
\<close>

definition ParseInt :: "string \<Rightarrow> int option" where
  "ParseInt s =
     (case s of
        [] \<Rightarrow> None
      | c # cs \<Rightarrow>
          (let neg = (c = CHR ''-''); ds = (if c = CHR ''+'' \<or> c = CHR ''-'' then cs else s)
           in case ParseUint ds of
                None \<Rightarrow> None
              | Some n \<Rightarrow>
                  if neg then (if n \<le> 2 ^ 63 then Some (- int n) else None)
                  else (if n < 2 ^ 63 then Some (int n) else None)))"

abbreviation (input) Atoi :: "string \<Rightarrow> int option" where
  "Atoi \<equiv> ParseInt"

lemma digits_val_append:
  "digits_val acc (xs @ ys) =
     (case digits_val acc xs of None \<Rightarrow> None | Some a \<Rightarrow> digits_val a ys)"
  by (induction xs arbitrary: acc) auto

lemma FormatUint_nonempty [simp]: "FormatUint n \<noteq> []"
  by (subst FormatUint.simps) simp

lemma FormatUint_digits: "c \<in> set (FormatUint n) \<Longrightarrow> is_digit c"
proof (induction n rule: FormatUint.induct)
  case (1 n)
  show ?case
  proof (cases "n < 10")
    case True
    with "1.prems" show ?thesis by (simp add: FormatUint.simps [of n])
  next
    case False
    with "1.prems" have "c \<in> set (FormatUint (n div 10)) \<or> c = digit_char (n mod 10)"
      by (auto simp add: FormatUint.simps [of n])
    then show ?thesis using "1.IH" [OF False] by auto
  qed
qed

lemma digits_val_FormatUint: "digits_val 0 (FormatUint n) = Some n"
proof (induction n rule: FormatUint.induct)
  case (1 n)
  show ?case
  proof (cases "n < 10")
    case True
    then show ?thesis by (simp add: FormatUint.simps [of n])
  next
    case False
    with "1.IH" show ?thesis
      by (simp add: FormatUint.simps [of n] digits_val_append)
  qed
qed

lemma ParseUint_FormatUint [codec_simps]: "n < 2 ^ 64 \<Longrightarrow> ParseUint (FormatUint n) = Some n"
  by (simp add: ParseUint_def digits_val_FormatUint)

lemma is_digit_not_sign: "is_digit c \<Longrightarrow> c \<noteq> CHR ''-'' \<and> c \<noteq> CHR ''+''"
  by (auto simp: is_digit_def)

lemma FormatUint_hd: "FormatUint n = c # cs \<Longrightarrow> is_digit c"
  using FormatUint_digits [of c n] by simp

lemma ParseInt_FormatUint [codec_simps]:
  assumes "n < 2 ^ 63"
  shows "ParseInt (FormatUint n) = Some (int n)"
proof -
  obtain c cs where *: "FormatUint n = c # cs"
    using FormatUint_nonempty [of n] by (cases "FormatUint n") auto
  with is_digit_not_sign [OF FormatUint_hd [OF *]] assms ParseUint_FormatUint [of n]
  show ?thesis by (simp add: ParseInt_def)
qed

lemma ParseInt_FormatInt [codec_simps]:
  assumes "in_int64 i"
  shows "ParseInt (FormatInt i) = Some i"
proof (cases "i < 0")
  case True
  with assms have "nat (- i) \<le> 2 ^ 63" by (simp add: in_int64_def)
  with True ParseUint_FormatUint [of "nat (- i)"] show ?thesis
    by (simp add: FormatInt_def ParseInt_def)
next
  case False
  with assms ParseInt_FormatUint [of "nat i"] show ?thesis
    by (simp add: FormatInt_def in_int64_def)
qed

lemma ParseInt_Itoa [codec_simps]: "n < 2 ^ 63 \<Longrightarrow> ParseInt (Itoa n) = Some (int n)"
  by (simp add: Itoa_def ParseInt_FormatInt in_int64_def)

lemma ParseInt_in_int64: "ParseInt s = Some i \<Longrightarrow> in_int64 i"
  by (auto simp: ParseInt_def in_int64_def Let_def split: list.splits option.splits if_splits)

lemma FormatInt_bytes: "c \<in> set (FormatInt i) \<Longrightarrow> is_digit c \<or> c = CHR ''-''"
  by (auto simp: FormatInt_def dest: FormatUint_digits split: if_splits)

lemma FormatInt_no_newline: "CHR 0x0A \<notin> set (FormatInt i)" "CHR 0x0D \<notin> set (FormatInt i)"
  by (auto dest!: FormatInt_bytes simp: is_digit_def)

lemma FormatInt_nonempty [simp]: "FormatInt i \<noteq> []"
  by (simp add: FormatInt_def)

lemma length_FormatUint: "n < 10 ^ Suc k \<Longrightarrow> length (FormatUint n) \<le> Suc k"
proof (induction k arbitrary: n)
  case 0
  then show ?case by (simp add: FormatUint.simps [of n])
next
  case (Suc k)
  have "n div 10 < 10 ^ Suc k" using Suc.prems by (simp add: less_mult_imp_div_less mult.commute)
  from Suc.IH [OF this] show ?case by (simp add: FormatUint.simps [of n])
qed

lemma length_Itoa: "n < 2 ^ 63 \<Longrightarrow> length (Itoa n) \<le> 19"
  using length_FormatUint [of n 18] by (simp add: Itoa_def FormatInt_def)

lemma length_FormatInt:
  assumes "in_int64 i"
  shows "length (FormatInt i) \<le> 20"
proof -
  have "nat (- i) < 10 ^ Suc 18" and "nat i < 10 ^ Suc 18"
    using assms by (auto simp add: in_int64_def)
  then have "length (FormatUint (nat (- i))) \<le> 19" and "length (FormatUint (nat i)) \<le> 19"
    using length_FormatUint [of _ 18] by simp_all
  then show ?thesis by (simp add: FormatInt_def)
qed

lemma FormatInt_inj: "in_int64 i \<Longrightarrow> in_int64 j \<Longrightarrow> FormatInt i = FormatInt j \<longleftrightarrow> i = j"
  by (metis ParseInt_FormatInt option.inject)

subsection \<open>Strings\<close>

text \<open>
  \<open>strings.ToUpper\<close>. ASCII letters are mapped bytewise. Of the other runes only U+0131 and
  U+017F have an upper case in ASCII (\<open>I\<close> and \<open>S\<close>); every other non-ASCII byte is kept, which
  no comparison of the source with an ASCII word can observe.
\<close>

fun ToUpper :: "string \<Rightarrow> string" where
  "ToUpper [] = []"
| "ToUpper [c] = [if 97 \<le> byte c \<and> byte c \<le> 122 then char_of (byte c - 32) else c]"
| "ToUpper (c # d # cs) =
     (if byte c = 0xC4 \<and> byte d = 0xB1 then CHR ''I'' # ToUpper cs
      else if byte c = 0xC5 \<and> byte d = 0xBF then CHR ''S'' # ToUpper cs
      else (if 97 \<le> byte c \<and> byte c \<le> 122 then char_of (byte c - 32) else c) # ToUpper (d # cs))"

text \<open>\<open>strings.IndexByte\<close> and \<open>bytes.IndexByte\<close>; \<open>None\<close> is the result -1.\<close>

fun IndexByte :: "string \<Rightarrow> char \<Rightarrow> nat option" where
  "IndexByte [] b = None"
| "IndexByte (c # cs) b = (if c = b then Some 0 else map_option Suc (IndexByte cs b))"

fun HasPrefix :: "string \<Rightarrow> string \<Rightarrow> bool" where
  "HasPrefix s [] = True"
| "HasPrefix [] (p # ps) = False"
| "HasPrefix (c # cs) (p # ps) = (c = p \<and> HasPrefix cs ps)"

definition HasSuffix :: "string \<Rightarrow> string \<Rightarrow> bool" where
  "HasSuffix s suf = HasPrefix (rev s) (rev suf)"

definition TrimPrefix :: "string \<Rightarrow> string \<Rightarrow> string" where
  "TrimPrefix s p = (if HasPrefix s p then drop (length p) s else s)"

definition TrimSuffix :: "string \<Rightarrow> string \<Rightarrow> string" where
  "TrimSuffix s suf = (if HasSuffix s suf then take (length s - length suf) s else s)"

text \<open>\<open>strings.Split\<close> with a one-byte separator.\<close>

fun Split :: "string \<Rightarrow> char \<Rightarrow> string list" where
  "Split [] sep = [[]]"
| "Split (c # cs) sep =
     (if c = sep then [] # Split cs sep
      else case Split cs sep of [] \<Rightarrow> [[c]] | p # ps \<Rightarrow> (c # p) # ps)"

fun Join :: "string list \<Rightarrow> string \<Rightarrow> string" where
  "Join [] sep = []"
| "Join [s] sep = s"
| "Join (s # ss) sep = s @ sep @ Join ss sep"

text \<open>White space and letters are those of ASCII, for \<open>Fields\<close>, \<open>TrimSpace\<close> and \<open>ToLower\<close>.\<close>

definition is_space :: "char \<Rightarrow> bool" where
  "is_space c \<longleftrightarrow> c \<in> set [CHR '' '', CHR 0x09, CHR 0x0A, CHR 0x0B, CHR 0x0C, CHR 0x0D]"

fun fields_loop :: "string \<Rightarrow> string \<Rightarrow> string list" where
  "fields_loop w [] = (if w = [] then [] else [w])"
| "fields_loop w (c # s) =
     (if is_space c then (if w = [] then [] else [w]) @ fields_loop [] s else fields_loop (w @ [c]) s)"

definition Fields :: "string \<Rightarrow> string list" where
  "Fields s = fields_loop [] s"

definition TrimSpace :: "string \<Rightarrow> string" where
  "TrimSpace s = rev (dropWhile is_space (rev (dropWhile is_space s)))"

fun ToLower :: "string \<Rightarrow> string" where
  "ToLower [] = []"
| "ToLower (c # s) =
     (if 65 \<le> byte c \<and> byte c \<le> 90 then char_of (byte c + 32) else c) # ToLower s"

lemma fields_loop_word: "\<forall>c \<in> set w. \<not> is_space c \<Longrightarrow> fields_loop v (w @ s) = fields_loop (v @ w) s"
  by (induction w arbitrary: v) auto

lemma Fields_Join:
  assumes "\<forall>w \<in> set ws. w \<noteq> [] \<and> (\<forall>c \<in> set w. \<not> is_space c)"
  shows "Fields (Join ws '' '') = ws"
  using assms unfolding Fields_def
proof (induction ws)
  case (Cons s ws)
  show ?case
  proof (cases ws)
    case Nil
    then show ?thesis using Cons.prems fields_loop_word [of s "[]" "[]"] by simp
  next
    case (Cons t ss)
    then show ?thesis
      using Cons.IH Cons.prems fields_loop_word [of s "[]" "'' '' @ Join (t # ss) '' ''"] by (auto simp: is_space_def)
  qed
qed simp

lemma IndexByte_None_iff: "IndexByte s b = None \<longleftrightarrow> b \<notin> set s"
  by (induction s) auto

lemma IndexByte_append:
  "b \<notin> set xs \<Longrightarrow> IndexByte (xs @ b # ys) b = Some (length xs)"
  by (induction xs) auto

lemma IndexByte_SomeD:
  "IndexByte s b = Some i \<Longrightarrow> i < length s \<and> s ! i = b \<and> b \<notin> set (take i s)"
proof (induction s arbitrary: i)
  case (Cons c cs)
  then show ?case by (cases i) (auto split: if_splits)
qed simp

lemma HasPrefix_iff: "HasPrefix s p \<longleftrightarrow> (\<exists>t. s = p @ t)"
  by (induction s p rule: HasPrefix.induct) auto

lemma HasSuffix_iff: "HasSuffix s suf \<longleftrightarrow> (\<exists>t. s = t @ suf)"
proof -
  have "rev s = rev suf @ t \<longleftrightarrow> s = rev t @ suf" for t
    by (metis rev_append rev_rev_ident)
  then show ?thesis
    unfolding HasSuffix_def HasPrefix_iff by (metis rev_rev_ident)
qed

lemma Split_no_sep: "sep \<notin> set s \<Longrightarrow> Split s sep = [s]"
  by (induction s) auto

lemma Split_sep: "sep \<notin> set xs \<Longrightarrow> Split (xs @ sep # ys) sep = xs # Split ys sep"
  by (induction xs) auto

subsection \<open>Encodings\<close>

text \<open>
  A decoder consumes a prefix of its input and returns the value and the rest, or an error.
  \<open>decode_n\<close> runs it a given number of times, as the counted loops of the readers do.
\<close>

fun decode_n ::
  "(string \<Rightarrow> 'e + 'a \<times> string) \<Rightarrow> nat \<Rightarrow> string \<Rightarrow> 'e + 'a list \<times> string" where
  "decode_n dec 0 s = Inr ([], s)"
| "decode_n dec (Suc n) s =
     (case dec s of
        Inl e \<Rightarrow> Inl e
      | Inr (x, rest) \<Rightarrow>
          (case decode_n dec n rest of
             Inl e \<Rightarrow> Inl e
           | Inr (xs, rest') \<Rightarrow> Inr (x # xs, rest')))"

text \<open>
  The contract between an encoder and its decoder: on every admissible value the decoder
  returns that value and leaves exactly the bytes that follow its encoding.
\<close>

locale codec =
  fixes enc :: "'a \<Rightarrow> string"
    and dec :: "string \<Rightarrow> 'e + 'a \<times> string"
    and ok :: "'a \<Rightarrow> bool"
  assumes dec_enc: "ok x \<Longrightarrow> dec (enc x @ rest) = Inr (x, rest)"
begin

lemma decode_n_concat:
  "list_all ok xs \<Longrightarrow> decode_n dec (length xs) (concat (map enc xs) @ rest) = Inr (xs, rest)"
  by (induction xs) (auto simp: dec_enc)

lemma prefix_free:
  assumes "ok x" and "ok y" and "enc x @ r = enc y @ r'"
  shows "x = y \<and> r = r'"
proof -
  have "Inr (x, r) = dec (enc y @ r')"
    using dec_enc [OF assms(1), of r] unfolding assms(3) by (rule sym)
  also have "\<dots> = Inr (y, r')" by (rule dec_enc [OF assms(2)])
  finally show ?thesis by simp
qed

lemma enc_inj: "ok x \<Longrightarrow> ok y \<Longrightarrow> enc x = enc y \<Longrightarrow> x = y"
  using prefix_free [of x y "[]" "[]"] by blast

lemma concat_enc_inj:
  "list_all ok xs \<Longrightarrow> list_all ok ys \<Longrightarrow> length xs = length ys \<Longrightarrow>
     concat (map enc xs) = concat (map enc ys) \<Longrightarrow> xs = ys"
  using decode_n_concat [of xs "[]"] decode_n_concat [of ys "[]"]
  by (metis old.prod.inject sum.inject(2))

end

end
