(* ===== verification/Resp.thy ===== *)
theory Resp
  imports Go_Prelude
begin

text \<open>
  The RESP wire protocol of src/internal/resp: the value type (types.go), the buffered reader
  (parser.go) and the writer (writer.go).

  A reader is modelled by the bytes it has not consumed yet, the end of the list being the end
  of the stream; each read returns the result and the rest. A writer is modelled by the bytes
  it appends. \<open>ReadValue\<close> recurses into arrays, so \<open>ReadValue_fuel\<close> carries a bound on the nesting
  depth; \<open>ReadValue\<close> starts it with one more than the number of bytes left, which
  \<open>ReadValue_total\<close> shows is always enough, since every nested value consumes a byte.
\<close>

subsection \<open>Values\<close>

text \<open>\<open>Bulk\<close> is an option because the source tells a nil slice from an empty one.\<close>

datatype Value =
  Value (vType: char) (vStr: string) (vNum: int) (vBulk: "string option")
    (vArray: "Value list") (vBool: bool) (vNull: bool)

definition SimpleString :: "string \<Rightarrow> Value" where
  "SimpleString s = Value CHR ''+'' s 0 None [] False False"

definition Error :: "string \<Rightarrow> Value" where
  "Error msg = Value CHR ''-'' msg 0 None [] False False"

definition Integer :: "int \<Rightarrow> Value" where
  "Integer n = Value CHR '':'' [] n None [] False False"

definition BulkString :: "string \<Rightarrow> Value" where
  "BulkString s = Value CHR ''$'' [] 0 (Some s) [] False False"

definition BulkBytes :: "string option \<Rightarrow> Value" where
  "BulkBytes b = Value CHR ''$'' [] 0 b [] False False"

definition Null :: Value where
  "Null = Value CHR ''$'' [] 0 None [] False True"

definition NullArray :: Value where
  "NullArray = Value CHR ''*'' [] 0 None [] False True"

definition Array :: "Value list \<Rightarrow> Value" where
  "Array items = Value CHR ''*'' [] 0 None items False False"

definition Boolean :: "bool \<Rightarrow> Value" where
  "Boolean b = Value CHR ''#'' [] 0 None [] b False"

lemmas Value_defs =
  SimpleString_def Error_def Integer_def BulkString_def Null_def NullArray_def Array_def
  Boolean_def

definition bulk_bytes :: "Value \<Rightarrow> string" where
  "bulk_bytes v = (case vBulk v of None \<Rightarrow> [] | Some b \<Rightarrow> b)"

definition Value_String :: "Value \<Rightarrow> string" where
  "Value_String v =
     (if vType v = CHR ''+'' \<or> vType v = CHR ''-'' then vStr v
      else if vType v = CHR '':'' then FormatInt (vNum v)
      else if vType v = CHR ''$'' then (if vNull v then ''(nil)'' else bulk_bytes v)
      else if vType v = CHR ''*'' then
        (if vNull v then ''(nil)'' else ''['' @ Itoa (length (vArray v)) @ '' items]'')
      else [])"

subsection \<open>Reader\<close>

datatype rerr =
    EOF | ErrUnexpectedEOF | ErrBufferFull
  | ErrInvalidSyntax | ErrBulkTooLarge | ErrMultibulkTooLarge
  | ErrExpectedArray char
  | OutOfFuel

abbreviation LF :: char where "LF \<equiv> CHR 0x0A"
abbreviation CR :: char where "CR \<equiv> CHR 0x0D"

text \<open>The reader's buffer, \<open>bufio.NewReaderSize(r, 64*1024)\<close>.\<close>

definition buf_size :: nat where
  "buf_size = 65536"

definition MaxBulkLength :: int where
  "MaxBulkLength = 536870912"

definition MaxArrayLength :: int where
  "MaxArrayLength = 1048576"

text \<open>
  \<open>bufio.Reader.ReadSlice('\n')\<close>: the bytes up to and including the first newline, provided
  it lies within one buffer.
\<close>

definition ReadSlice :: "string \<Rightarrow> rerr + string \<times> string" where
  "ReadSlice s =
     (case IndexByte (take buf_size s) LF of
        Some i \<Rightarrow> Inr (take (Suc i) s, drop (Suc i) s)
      | None \<Rightarrow> if buf_size \<le> length s then Inl ErrBufferFull else Inl EOF)"

text \<open>\<open>io.ReadFull\<close> into a buffer of \<open>k\<close> bytes.\<close>

definition ReadFull :: "nat \<Rightarrow> string \<Rightarrow> rerr + string \<times> string" where
  "ReadFull k s =
     (if k \<le> length s then Inr (take k s, drop k s)
      else if s = [] then Inl EOF else Inl ErrUnexpectedEOF)"

definition readLine :: "string \<Rightarrow> rerr + string \<times> string" where
  "readLine s =
     (case ReadSlice s of
        Inl e \<Rightarrow> Inl e
      | Inr (line, rest) \<Rightarrow>
          (let n = length line in
           if n < 2 \<or> line ! (n - 2) \<noteq> CR then
             (if 1 \<le> n \<and> line ! (n - 1) = LF then Inr (take (n - 1) line, rest)
              else Inl ErrInvalidSyntax)
           else Inr (take (n - 2) line, rest)))"

definition readBulk :: "string \<Rightarrow> rerr + Value \<times> string" where
  "readBulk s =
     (case readLine s of
        Inl e \<Rightarrow> Inl e
      | Inr (line, rest) \<Rightarrow>
          (case ParseInt line of
             None \<Rightarrow> Inl ErrInvalidSyntax
           | Some len \<Rightarrow>
               if len = -1 then Inr (Null, rest)
               else if len < -1 \<or> len > MaxBulkLength then Inl ErrBulkTooLarge
               else
                 (case ReadFull (nat len + 2) rest of
                    Inl e \<Rightarrow> Inl e
                  | Inr (buf, rest') \<Rightarrow>
                      if buf ! nat len \<noteq> CR \<or> buf ! (nat len + 1) \<noteq> LF then Inl ErrInvalidSyntax
                      else Inr (BulkString (take (nat len) buf), rest'))))"

text \<open>\<open>parseCommandLine\<close>: the loop over the bytes of an inline command.\<close>

fun parseCommandLine_loop ::
  "string \<Rightarrow> string list \<Rightarrow> string \<Rightarrow> bool \<Rightarrow> char \<Rightarrow> string list" where
  "parseCommandLine_loop [] args current inQuotes quoteChar =
     (if current \<noteq> [] then args @ [current] else args)"
| "parseCommandLine_loop (c # cs) args current inQuotes quoteChar =
     (if inQuotes then
        (if c = quoteChar then parseCommandLine_loop cs args current False quoteChar
         else if c = CHR 0x5C \<and> cs \<noteq> [] then
           parseCommandLine_loop (tl cs) args (current @ [hd cs]) True quoteChar
         else parseCommandLine_loop cs args (current @ [c]) True quoteChar)
      else if c = CHR 0x22 \<or> c = CHR 0x27 then parseCommandLine_loop cs args current True c
      else if c = CHR '' '' \<or> c = CHR 0x09 then
        (if current \<noteq> [] then parseCommandLine_loop cs (args @ [current]) [] False quoteChar
         else parseCommandLine_loop cs args current False quoteChar)
      else parseCommandLine_loop cs args (current @ [c]) False quoteChar)"

definition parseCommandLine :: "string \<Rightarrow> string list" where
  "parseCommandLine cmd = parseCommandLine_loop cmd [] [] False (CHR 0x00)"

definition readInline :: "char \<Rightarrow> string \<Rightarrow> rerr + Value \<times> string" where
  "readInline firstByte s =
     (case readLine s of
        Inl e \<Rightarrow> Inl e
      | Inr (line, rest) \<Rightarrow>
          Inr (Array (map BulkString (parseCommandLine (firstByte # line))), rest))"

fun ReadValue_fuel :: "nat \<Rightarrow> string \<Rightarrow> rerr + Value \<times> string"
  and readArray :: "nat \<Rightarrow> string \<Rightarrow> rerr + Value \<times> string"
  and readItems :: "nat \<Rightarrow> nat \<Rightarrow> string \<Rightarrow> rerr + Value list \<times> string" where
  "ReadValue_fuel 0 s = Inl OutOfFuel"
| "ReadValue_fuel (Suc f) [] = Inl EOF"
| "ReadValue_fuel (Suc f) (b # s) =
     (if b = CHR ''+'' then
        (case readLine s of Inl e \<Rightarrow> Inl e | Inr (line, rest) \<Rightarrow> Inr (SimpleString line, rest))
      else if b = CHR ''-'' then
        (case readLine s of Inl e \<Rightarrow> Inl e | Inr (line, rest) \<Rightarrow> Inr (Error line, rest))
      else if b = CHR '':'' then
        (case readLine s of
           Inl e \<Rightarrow> Inl e
         | Inr (line, rest) \<Rightarrow>
             (case ParseInt line of
                None \<Rightarrow> Inl ErrInvalidSyntax
              | Some n \<Rightarrow> Inr (Integer n, rest)))
      else if b = CHR ''$'' then readBulk s
      else if b = CHR ''*'' then readArray f s
      else if b = CHR ''_'' then
        (case readLine s of Inl e \<Rightarrow> Inl e | Inr (line, rest) \<Rightarrow> Inr (Null, rest))
      else if b = CHR ''#'' then
        (case readLine s of
           Inl e \<Rightarrow> Inl e
         | Inr (line, rest) \<Rightarrow> Inr (Boolean (line \<noteq> [] \<and> hd line = CHR ''t''), rest))
      else readInline b s)"
| "readArray f s =
     (case readLine s of
        Inl e \<Rightarrow> Inl e
      | Inr (line, rest) \<Rightarrow>
          (case ParseInt line of
             None \<Rightarrow> Inl ErrInvalidSyntax
           | Some len \<Rightarrow>
               if len = -1 then Inr (NullArray, rest)
               else if len < -1 then Inl ErrInvalidSyntax
               else if len > MaxArrayLength then Inl ErrMultibulkTooLarge
               else
                 (case readItems f (nat len) rest of
                    Inl e \<Rightarrow> Inl e
                  | Inr (items, rest') \<Rightarrow> Inr (Array items, rest'))))"
| "readItems f 0 s = Inr ([], s)"
| "readItems f (Suc n) s =
     (case ReadValue_fuel f s of
        Inl e \<Rightarrow> Inl e
      | Inr (v, rest) \<Rightarrow>
          (case readItems f n rest of
             Inl e \<Rightarrow> Inl e
           | Inr (vs, rest') \<Rightarrow> Inr (v # vs, rest')))"

definition ReadValue :: "string \<Rightarrow> rerr + Value \<times> string" where
  "ReadValue s = ReadValue_fuel (Suc (length s)) s"

definition command_arg :: "Value \<Rightarrow> string" where
  "command_arg item =
     (if vType item = CHR ''$'' then bulk_bytes item
      else if vType item = CHR ''+'' then vStr item
      else if vType item = CHR '':'' then FormatInt (vNum item)
      else Value_String item)"

definition ReadCommand :: "string \<Rightarrow> rerr + string list \<times> string" where
  "ReadCommand s =
     (case ReadValue s of
        Inl e \<Rightarrow> Inl e
      | Inr (val, rest) \<Rightarrow>
          if vType val \<noteq> CHR ''*'' then
            (if vType val = CHR ''$'' then Inr ([bulk_bytes val], rest)
             else Inl (ErrExpectedArray (vType val)))
          else Inr (map command_arg (vArray val), rest))"

subsection \<open>Writer\<close>

definition WriteSimpleString :: "string \<Rightarrow> string" where
  "WriteSimpleString s =
     (if s = ''OK'' then ''+OK'' @ CRLF
      else if s = ''PONG'' then ''+PONG'' @ CRLF
      else CHR ''+'' # s @ CRLF)"

definition WriteError :: "string \<Rightarrow> string" where
  "WriteError msg = CHR ''-'' # msg @ CRLF"

definition WriteInteger :: "int \<Rightarrow> string" where
  "WriteInteger n =
     (if n = 0 then '':0'' @ CRLF
      else if n = 1 then '':1'' @ CRLF
      else CHR '':'' # FormatInt n @ CRLF)"

definition WriteBulkString :: "string \<Rightarrow> string" where
  "WriteBulkString s = CHR ''$'' # Itoa (length s) @ CRLF @ s @ CRLF"

definition WriteNull :: string where
  "WriteNull = ''$-1'' @ CRLF"

definition WriteNullArray :: string where
  "WriteNullArray = ''*-1'' @ CRLF"

definition WriteBulkBytes :: "string option \<Rightarrow> string" where
  "WriteBulkBytes b = (case b of None \<Rightarrow> WriteNull | Some s \<Rightarrow> WriteBulkString s)"

definition WriteArrayHeader :: "nat \<Rightarrow> string" where
  "WriteArrayHeader n = CHR ''*'' # Itoa n @ CRLF"

definition WriteStringArray :: "string list option \<Rightarrow> string" where
  "WriteStringArray items =
     (case items of
        None \<Rightarrow> WriteNullArray
      | Some xs \<Rightarrow> WriteArrayHeader (length xs) @ concat (map WriteBulkString xs))"

fun WriteValue :: "Value \<Rightarrow> string" where
  "WriteValue (Value t str num bulk arr b nul) =
     (if t = CHR ''+'' then WriteSimpleString str
      else if t = CHR ''-'' then WriteError str
      else if t = CHR '':'' then WriteInteger num
      else if t = CHR ''$'' then (if nul then WriteNull else WriteBulkBytes bulk)
      else if t = CHR ''*'' then
        (if nul then WriteNullArray
         else WriteArrayHeader (length arr) @ concat (map WriteValue arr))
      else WriteBulkString (Value_String (Value t str num bulk arr b nul)))"

fun SerializeValue :: "Value \<Rightarrow> string" where
  "SerializeValue (Value t str num bulk arr b nul) =
     (if t = CHR ''+'' then CHR ''+'' # str @ CRLF
      else if t = CHR ''-'' then CHR ''-'' # str @ CRLF
      else if t = CHR '':'' then CHR '':'' # FormatInt num @ CRLF
      else if t = CHR ''$'' then
        (if nul then ''$-1'' @ CRLF
         else (let bytes = (case bulk of None \<Rightarrow> [] | Some x \<Rightarrow> x)
               in CHR ''$'' # Itoa (length bytes) @ CRLF @ bytes @ CRLF))
      else if t = CHR ''*'' then
        (if nul then ''*-1'' @ CRLF
         else CHR ''*'' # Itoa (length arr) @ CRLF @ concat (map SerializeValue arr))
      else [])"

definition SerializeCommand :: "string list \<Rightarrow> string" where
  "SerializeCommand args =
     CHR ''*'' # Itoa (length args) @ CRLF @
     concat (map (\<lambda>arg. CHR ''$'' # Itoa (length arg) @ CRLF @ arg @ CRLF) args)"

subsection \<open>Reading consumes input, and the fuel is enough\<close>

lemma ReadSlice_length: "ReadSlice s = Inr (line, rest) \<Longrightarrow> length rest < length s"
  by (auto simp: ReadSlice_def split: option.splits if_splits dest!: IndexByte_SomeD)

lemma readLine_length: "readLine s = Inr (line, rest) \<Longrightarrow> length rest < length s"
  by (auto simp: readLine_def Let_def split: sum.splits if_splits dest: ReadSlice_length)

lemma ReadFull_length: "ReadFull k s = Inr (buf, rest) \<Longrightarrow> length rest \<le> length s"
  by (auto simp: ReadFull_def split: if_splits)

lemma readBulk_length: "readBulk s = Inr (v, rest) \<Longrightarrow> length rest < length s"
  by (fastforce simp: readBulk_def split: sum.splits option.splits if_splits
        dest: readLine_length ReadFull_length)

lemma readInline_length: "readInline b s = Inr (v, rest) \<Longrightarrow> length rest < length s"
  by (auto simp: readInline_def split: sum.splits dest: readLine_length)

lemma ReadValue_fuel_length:
  "ReadValue_fuel f s = Inr (v, rest) \<Longrightarrow> length rest < length s"
  "readArray f s = Inr (v, rest) \<Longrightarrow> length rest < length s"
  "readItems f n s = Inr (vs, rest) \<Longrightarrow> length rest \<le> length s"
proof (induction f s and f s and f n s arbitrary: v rest and v rest and vs rest
    rule: ReadValue_fuel_readArray_readItems.induct)
  case (3 f b s)
  then show ?case
    by (auto split: sum.splits option.splits if_splits
        dest: readLine_length readBulk_length readInline_length less_SucI)
next
  case (4 f s)
  then show ?case
    by (fastforce split: sum.splits option.splits if_splits dest: readLine_length)
next
  case (6 f n s)
  then show ?case
    by (fastforce split: sum.splits)
qed auto

lemma no_OutOfFuel:
  "ReadSlice s \<noteq> Inl OutOfFuel" "ReadFull k s \<noteq> Inl OutOfFuel" "readLine s \<noteq> Inl OutOfFuel"
  "readBulk s \<noteq> Inl OutOfFuel" "readInline b s \<noteq> Inl OutOfFuel"
proof -
  show 1: "ReadSlice s \<noteq> Inl OutOfFuel" for s
    by (auto simp: ReadSlice_def split: option.splits)
  show 2: "ReadFull k s \<noteq> Inl OutOfFuel" for k s
    by (auto simp: ReadFull_def)
  show 3: "readLine s \<noteq> Inl OutOfFuel" for s
    using 1 by (auto simp: readLine_def Let_def split: sum.splits)
  show "readBulk s \<noteq> Inl OutOfFuel"
    using 2 3 by (auto simp: readBulk_def split: sum.splits option.splits)
  show "readInline b s \<noteq> Inl OutOfFuel"
    using 3 by (auto simp: readInline_def split: sum.splits)
qed

lemma ReadValue_fuel_enough:
  "length s < f \<Longrightarrow> ReadValue_fuel f s \<noteq> Inl OutOfFuel"
  "length s < f \<Longrightarrow> readArray f s \<noteq> Inl OutOfFuel"
  "length s < f \<Longrightarrow> readItems f n s \<noteq> Inl OutOfFuel"
proof (induction f s and f s and f n s rule: ReadValue_fuel_readArray_readItems.induct)
  case (3 f b s)
  then show ?case
    by (auto simp del: readArray.simps split: sum.splits option.splits simp: no_OutOfFuel)
next
  case (4 f s)
  have L: "length rest < f" if "readLine s = Inr (line, rest)" for line rest
    using 4(2) readLine_length [OF that] by simp
  from 4(1) show ?case
    by (auto simp: no_OutOfFuel L split: sum.splits option.splits)
next
  case (6 f n s)
  have L: "length rest < f" if "ReadValue_fuel f s = Inr (v, rest)" for v rest
    using 6(3) ReadValue_fuel_length(1) [OF that] by simp
  from 6 show ?case
    by (auto simp: L split: sum.splits) (metis)
qed auto

text \<open>
  Property C19: reading a value always returns. The depth bound that \<open>ReadValue\<close> starts with is
  never exhausted, and a successful read leaves strictly fewer bytes than it was given.
\<close>

theorem ReadValue_total:
  "ReadValue s \<noteq> Inl OutOfFuel \<and>
   (case ReadValue s of Inl _ \<Rightarrow> True | Inr (_, rest) \<Rightarrow> length rest < length s)"
  using ReadValue_fuel_enough(1) [of s "Suc (length s)"]
  by (auto simp: ReadValue_def split: sum.splits dest: ReadValue_fuel_length)

subsection \<open>Round trip\<close>

definition line_ok :: "string \<Rightarrow> bool" where
  "line_ok s \<longleftrightarrow> LF \<notin> set s \<and> length s + 2 \<le> buf_size"

text \<open>
  The values the writer can carry: each field the type does not use is zero, a line holds no
  newline and fits the reader's buffer, and lengths are within the reader's limits. The reader also knows
  booleans, but \<open>SerializeValue\<close> has no case for them and writes nothing, so they are left out.
\<close>

fun resp_ok :: "Value \<Rightarrow> bool" where
  "resp_ok (Value t str num bulk arr b nul) =
     (\<not> b \<and>
      (if t = CHR ''+'' \<or> t = CHR ''-'' then
         line_ok str \<and> num = 0 \<and> bulk = None \<and> arr = [] \<and> \<not> nul
       else if t = CHR '':'' then str = [] \<and> in_int64 num \<and> bulk = None \<and> arr = [] \<and> \<not> nul
       else if t = CHR ''$'' then
         str = [] \<and> num = 0 \<and> arr = [] \<and>
         (case bulk of None \<Rightarrow> nul | Some x \<Rightarrow> \<not> nul \<and> int (length x) \<le> MaxBulkLength)
       else if t = CHR ''*'' then
         str = [] \<and> num = 0 \<and> bulk = None \<and> (nul \<longrightarrow> arr = []) \<and>
         int (length arr) \<le> MaxArrayLength \<and> list_all resp_ok arr
       else False))"

lemma readLine_CRLF [codec_simps]:
  assumes "LF \<notin> set s" and "length s + 2 \<le> buf_size"
  shows "readLine (s @ CRLF @ rest) = Inr (s, rest)"
proof -
  have "take buf_size (s @ CRLF @ rest)
        = (s @ [CR]) @ LF # take (buf_size - (length s + 2)) rest"
    using assms(2) by (simp add: CRLF_def take_Cons' not_le)
  moreover have "LF \<notin> set (s @ [CR])" using assms(1) by simp
  ultimately have "IndexByte (take buf_size (s @ CRLF @ rest)) LF = Some (length s + 1)"
    using IndexByte_append [of LF "s @ [CR]"] by simp
  then show ?thesis
    by (simp add: readLine_def ReadSlice_def CRLF_def nth_append)
qed

lemma readLine_FormatInt [codec_simps]:
  "in_int64 i \<Longrightarrow> readLine (FormatInt i @ CRLF @ rest) = Inr (FormatInt i, rest)"
  using length_FormatInt [of i]
  by (simp add: readLine_CRLF FormatInt_no_newline buf_size_def)

lemma readLine_Itoa [codec_simps]:
  "n < 2 ^ 63 \<Longrightarrow> readLine (Itoa n @ CRLF @ rest) = Inr (Itoa n, rest)"
  by (simp add: Itoa_def readLine_FormatInt in_int64_def)

lemma readBulk_serialized [codec_simps]:
  assumes "int (length x) \<le> MaxBulkLength"
  shows "readBulk (Itoa (length x) @ CRLF @ x @ CRLF @ rest) = Inr (BulkString x, rest)"
proof -
  have n: "length x < 2 ^ 63" using assms by (simp add: MaxBulkLength_def)
  have r: "ReadFull (Suc (Suc (length x))) (x @ CRLF @ rest) = Inr (x @ CRLF, rest)"
    by (simp add: ReadFull_def CRLF_def)
  have e: "(x @ CRLF) ! length x = CR" "(x @ CRLF) ! Suc (length x) = LF"
    by (simp_all add: CRLF_def nth_append)
  from n assms show ?thesis
    by (simp add: readBulk_def readLine_Itoa ParseInt_Itoa r e)
qed

lemma null_line [codec_simps]:
  "readLine (CHR ''-'' # CHR ''1'' # CRLF @ rest) = Inr (''-1'', rest)"
  "ParseInt ''-1'' = Some (-1)"
  using readLine_CRLF [of "''-1''" rest] by (simp add: buf_size_def) code_simp

lemma readItems_decode_n: "readItems f n s = decode_n (ReadValue_fuel f) n s"
  by (induction n arbitrary: s) (auto split: sum.splits)

lemma decode_n_pointwise:
  assumes "\<And>v rest. v \<in> set vs \<Longrightarrow> dec (enc v @ rest) = Inr (v, rest)"
  shows "decode_n dec (length vs) (concat (map enc vs) @ rest) = Inr (vs, rest)"
  using assms by (induction vs) auto

lemma length_concat_ge: "v \<in> set vs \<Longrightarrow> length (f v) \<le> length (concat (map f vs))"
  by (induction vs) auto

lemma ReadValue_fuel_serialized:
  "resp_ok v \<Longrightarrow> length (SerializeValue v) \<le> f \<Longrightarrow>
   ReadValue_fuel f (SerializeValue v @ rest) = Inr (v, rest)"
proof (induction v arbitrary: f rest)
  case (Value t str num bulk arr b nul)
  show ?case
  proof (cases "t = CHR ''*'' \<and> \<not> nul")
    case True
    then have len: "length arr < 2 ^ 63" and ok: "int (length arr) \<le> MaxArrayLength"
      and all: "list_all resp_ok arr"
      using Value.prems(1) by (auto simp: MaxArrayLength_def)
    from True Value.prems(2) obtain g where f: "f = Suc g"
      and g: "length (concat (map SerializeValue arr)) \<le> g"
      by (cases f) auto
    have items: "decode_n (ReadValue_fuel g) (length arr) (concat (map SerializeValue arr) @ rest)
        = Inr (arr, rest)"
    proof (rule decode_n_pointwise)
      fix v rest assume v: "v \<in> set arr"
      then have "length (SerializeValue v) \<le> g"
        using g length_concat_ge [of v arr SerializeValue] by simp
      with v all show "ReadValue_fuel g (SerializeValue v @ rest) = Inr (v, rest)"
        by (intro Value.IH) (auto simp: list_all_iff)
    qed
    from True len ok Value.prems(1) show ?thesis
      unfolding f
      by (simp add: codec_simps readItems_decode_n items Array_def)
  next
    case False
    from Value.prems obtain g where f: "f = Suc g"
      by (cases f) (auto split: if_splits option.splits simp: Let_def)
    from False Value.prems(1) show ?thesis
      unfolding f
      by (auto simp: codec_simps Value_defs line_ok_def split: if_splits option.splits)
        (auto simp: readBulk_def codec_simps Value_defs)
  qed
qed

text \<open>The reader and the serializer meet the \<open>codec\<close> contract, for values and for commands.\<close>

interpretation value_codec: codec SerializeValue ReadValue resp_ok
  by unfold_locales (simp add: ReadValue_def ReadValue_fuel_serialized)

definition command_ok :: "string list \<Rightarrow> bool" where
  "command_ok args \<longleftrightarrow>
     int (length args) \<le> MaxArrayLength \<and>
     list_all (\<lambda>a. int (length a) \<le> MaxBulkLength) args"

lemma SerializeCommand_Array:
  "SerializeCommand args = SerializeValue (Array (map BulkString args))"
  by (simp add: SerializeCommand_def Array_def BulkString_def comp_def)

lemma resp_ok_command: "command_ok args \<Longrightarrow> resp_ok (Array (map BulkString args))"
  by (auto simp: command_ok_def Array_def BulkString_def list_all_iff)

interpretation command_codec: codec SerializeCommand ReadCommand command_ok
proof
  fix args rest
  assume ok: "command_ok args"
  show "ReadCommand (SerializeCommand args @ rest) = Inr (args, rest)"
    using value_codec.dec_enc [OF resp_ok_command [OF ok], of rest]
    by (simp add: ReadCommand_def SerializeCommand_Array)
      (simp add: Array_def BulkString_def command_arg_def bulk_bytes_def comp_def)
qed

text \<open>
  Property C4: \<open>ReadValue\<close> inverts \<open>SerializeValue\<close>. For every string, error, integer, bulk string
  and array within the reader's limits, of any nesting depth and whatever bytes its bulk strings hold, the reader returns that value and
  leaves exactly the bytes that follow it.
\<close>

theorem ReadValue_SerializeValue:
  assumes "resp_ok v"
  shows "ReadValue (SerializeValue v @ rest) = Inr (v, rest)"
  using assms by (rule value_codec.dec_enc)

theorem ReadValue_SerializeValue_witness:
  "resp_ok (Array [BulkString ''a'', Integer (-7), Null, Array []]) \<and>
   ReadValue (SerializeValue (Array [BulkString ''a'', Integer (-7), Null, Array []]) @ ''+x'')
     = Inr (Array [BulkString ''a'', Integer (-7), Null, Array []], ''+x'')"
proof -
  have "resp_ok (Array [BulkString ''a'', Integer (-7), Null, Array []])" by code_simp
  from this ReadValue_SerializeValue [OF this] show ?thesis by simp
qed

text \<open>
  A stream of commands written by \<open>SerializeCommand\<close> is read back by
  \<open>ReadCommand\<close> command by command, in order and without losing or adding bytes. This is what
  the append-only file and the replication stream rely on.
\<close>

theorem ReadCommand_stream:
  assumes "list_all command_ok cmds"
  shows "decode_n ReadCommand (length cmds) (concat (map SerializeCommand cmds) @ rest)
           = Inr (cmds, rest)"
  using assms by (rule command_codec.decode_n_concat)

theorem ReadCommand_stream_witness:
  "list_all command_ok [[''SET'', ''k'', [LF, CR]], [''GET'', []]] \<and>
   decode_n ReadCommand 2
     (concat (map SerializeCommand [[''SET'', ''k'', [LF, CR]], [''GET'', []]]) @ [])
     = Inr ([[''SET'', ''k'', [LF, CR]], [''GET'', []]], [])"
proof -
  have "list_all command_ok [[''SET'', ''k'', [LF, CR]], [''GET'', []]]" by code_simp
  from this ReadCommand_stream [OF this, of "[]"] show ?thesis
    by (simp add: numeral_2_eq_2)
qed

text \<open>
  A command with more than \<open>MaxArrayLength\<close> arguments can be serialized but not
  read back: the reader rejects it before its first argument. The serializer, unlike the
  reader, has no limit.
\<close>

theorem ReadCommand_too_many:
  assumes "MaxArrayLength < int (length args)" and "length args < 2 ^ 63"
  shows "ReadCommand (SerializeCommand args @ rest) = Inl ErrMultibulkTooLarge"
proof -
  have "length args \<noteq> 0" using assms(1) by (auto simp: MaxArrayLength_def)
  with assms show ?thesis
    by (simp add: ReadCommand_def ReadValue_def SerializeCommand_def codec_simps)
qed

theorem ReadCommand_too_many_witness:
  "MaxArrayLength < int (length (replicate 1048577 ''x'')) \<and>
   length (replicate 1048577 ''x'') < 2 ^ 63 \<and>
   ReadCommand (SerializeCommand (replicate 1048577 ''x'') @ []) = Inl ErrMultibulkTooLarge"
proof -
  have a: "MaxArrayLength < int (length (replicate 1048577 ''x''))"
    and b: "length (replicate 1048577 ''x'') < 2 ^ 63"
    unfolding length_replicate MaxArrayLength_def by simp_all
  from a b ReadCommand_too_many [OF a b, of "[]"] show ?thesis by blast
qed

subsection \<open>The writers agree\<close>

text \<open>A value both writers know: one of the five RESP2 types, with its payload present.\<close>

fun writable :: "Value \<Rightarrow> bool" where
  "writable (Value t str num bulk arr b nul) =
     (if t = CHR ''+'' \<or> t = CHR ''-'' \<or> t = CHR '':'' then True
      else if t = CHR ''$'' then nul \<or> bulk \<noteq> None
      else if t = CHR ''*'' then nul \<or> list_all writable arr
      else False)"

lemma small_numerals: "FormatInt 0 = ''0''" "FormatInt 1 = ''1''"
  by code_simp+

text \<open>
  The connection writer \<open>WriteValue\<close>, with its preformatted replies for \<open>OK\<close>,
  \<open>PONG\<close>, 0 and 1, emits exactly the bytes of the reference serializer \<open>SerializeValue\<close>.
\<close>

theorem WriteValue_SerializeValue:
  assumes "writable v"
  shows "WriteValue v = SerializeValue v"
  using assms
proof (induction v)
  case (Value t str num bulk arr b nul)
  then have "nul \<or> t \<noteq> CHR ''*'' \<or> concat (map WriteValue arr) = concat (map SerializeValue arr)"
    by (auto simp: list_all_iff intro!: arg_cong [of _ _ concat])
  with Value.prems show ?case
    by (auto simp: WriteSimpleString_def WriteError_def WriteInteger_def WriteBulkString_def
        WriteNull_def WriteNullArray_def WriteBulkBytes_def WriteArrayHeader_def small_numerals
        split: if_splits)
qed

theorem WriteValue_SerializeValue_witness:
  "writable (Array [SimpleString ''OK'', Integer 1, BulkString []]) \<and>
   WriteValue (Array [SimpleString ''OK'', Integer 1, BulkString []])
     = SerializeValue (Array [SimpleString ''OK'', Integer 1, BulkString []])"
proof -
  have "writable (Array [SimpleString ''OK'', Integer 1, BulkString []])" by code_simp
  from this WriteValue_SerializeValue [OF this] show ?thesis by simp
qed

lemma WriteStringArray_SerializeCommand: "WriteStringArray (Some args) = SerializeCommand args"
  by (simp add: WriteStringArray_def SerializeCommand_def WriteArrayHeader_def
      WriteBulkString_def [abs_def])

subsection \<open>Inline commands\<close>

lemma parseCommandLine_loop_nonempty:
  "[] \<notin> set args \<Longrightarrow> [] \<notin> set (parseCommandLine_loop s args current inQuotes quoteChar)"
proof (induction s arbitrary: args current inQuotes quoteChar rule: length_induct)
  case (1 s)
  show ?case
  proof (cases s)
    case (Cons c cs)
    have "length (tl cs) < length s" and "length cs < length s" using Cons by auto
    then have "[] \<notin> set a \<Longrightarrow> [] \<notin> set (parseCommandLine_loop cs a k q r)"
      and "[] \<notin> set a \<Longrightarrow> [] \<notin> set (parseCommandLine_loop (tl cs) a k q r)" for a k q r
      using "1.IH" by blast+
    then show ?thesis using "1.prems" Cons by simp
  qed (use "1.prems" in simp)
qed

text \<open>
  An inline command never yields an empty argument: a pair of quotes with nothing
  between them, which should denote the empty string, is dropped.
\<close>

theorem parseCommandLine_no_empty: "[] \<notin> set (parseCommandLine s)"
  by (simp add: parseCommandLine_def parseCommandLine_loop_nonempty)

end
