(* ===== verification/Ring_Buffer.thy ===== *)
theory Ring_Buffer
  imports Go_Prelude
begin

text \<open>
  The circular byte buffer of src/internal/reactor/ring_buffer.go, which holds the bytes a
  connection has received and not yet parsed. The record keeps the source's four fields and each
  method is one function on it; slices are written out with \<open>slice\<close> and the builtin \<open>copy\<close> with
  \<open>copy_at\<close>. The contract of the buffer is the locale \<open>byte_queue\<close>: under the invariant
  \<open>rb_wf\<close> it is a first-in-first-out queue of bytes with the contents \<open>Bytes\<close>.
\<close>

record RingBuffer =
  rb_buf :: string
  rb_size :: nat
  rb_r :: nat
  rb_w :: nat

definition slice :: "nat \<Rightarrow> nat \<Rightarrow> 'a list \<Rightarrow> 'a list" where
  "slice lo hi xs = take (hi - lo) (drop lo xs)"

text \<open>\<open>copy(dst[off:], src)\<close>: as many elements as both slices hold.\<close>

definition copy_at :: "'a list \<Rightarrow> nat \<Rightarrow> 'a list \<Rightarrow> 'a list" where
  "copy_at dst off src = take off dst @ take (length dst - off) src @ drop (off + length src) dst"

subsection \<open>The methods\<close>

definition NewRingBuffer :: "int \<Rightarrow> RingBuffer" where
  "NewRingBuffer capacity =
     (let capacity = (if capacity \<le> 0 then 64 * 1024 else nat capacity)
      in \<lparr>rb_buf = replicate capacity CHR 0x00, rb_size = capacity, rb_r = 0, rb_w = 0\<rparr>)"

definition Len :: "RingBuffer \<Rightarrow> nat" where
  "Len b = (if rb_r b \<le> rb_w b then rb_w b - rb_r b else rb_size b - rb_r b + rb_w b)"

definition Cap :: "RingBuffer \<Rightarrow> nat" where
  "Cap b = rb_size b"

definition Free :: "RingBuffer \<Rightarrow> nat" where
  "Free b = rb_size b - 1 - Len b"

definition IsEmpty :: "RingBuffer \<Rightarrow> bool" where
  "IsEmpty b \<longleftrightarrow> rb_r b = rb_w b"

definition IsFull :: "RingBuffer \<Rightarrow> bool" where
  "IsFull b \<longleftrightarrow> Free b = 0"

definition Reset :: "RingBuffer \<Rightarrow> RingBuffer" where
  "Reset b = b\<lparr>rb_r := 0, rb_w := 0\<rparr>"

definition grow :: "nat \<Rightarrow> RingBuffer \<Rightarrow> RingBuffer" where
  "grow minCap b =
     (let newCap = (if rb_size b * 2 < minCap then minCap * 2 else rb_size b * 2);
          newBuf = replicate newCap CHR 0x00;
          avail = Len b;
          newBuf =
            (if avail > 0 then
               (if rb_w b > rb_r b then copy_at newBuf 0 (slice (rb_r b) (rb_w b) (rb_buf b))
                else
                  let c1 = rb_size b - rb_r b
                  in copy_at (copy_at newBuf 0 (take c1 (drop (rb_r b) (rb_buf b)))) c1 (take (rb_w b) (rb_buf b)))
             else newBuf)
      in b\<lparr>rb_buf := newBuf, rb_size := newCap, rb_r := 0, rb_w := avail\<rparr>)"

definition Write :: "string \<Rightarrow> RingBuffer \<Rightarrow> nat \<times> RingBuffer" where
  "Write p b =
     (let n = length p in
      if n = 0 then (0, b)
      else
        let b = (if n > Free b then grow (Len b + n + 1) b else b) in
        if rb_w b \<ge> rb_r b then
          let c1 = rb_size b - rb_w b in
          if n \<le> c1 then
            (n, b\<lparr>rb_buf := copy_at (rb_buf b) (rb_w b) p,
                  rb_w := (if rb_w b + n = rb_size b then 0 else rb_w b + n)\<rparr>)
          else
            let c2 = n - c1
            in (n, b\<lparr>rb_buf := copy_at (copy_at (rb_buf b) (rb_w b) (take c1 p)) 0 (take c2 (drop c1 p)),
                     rb_w := c2\<rparr>)
        else (n, b\<lparr>rb_buf := copy_at (rb_buf b) (rb_w b) p, rb_w := rb_w b + n\<rparr>))"

text \<open>\<open>Read\<close> into a slice of length \<open>n\<close>; \<open>None\<close> is \<open>io.EOF\<close>.\<close>

definition Read :: "nat \<Rightarrow> RingBuffer \<Rightarrow> string option \<times> RingBuffer" where
  "Read n b =
     (if IsEmpty b then (None, b)
      else
        let avail = Len b; n = (if n > avail then avail else n) in
        if rb_w b > rb_r b then
          (Some (slice (rb_r b) (rb_r b + n) (rb_buf b)), b\<lparr>rb_r := rb_r b + n\<rparr>)
        else
          let c1 = rb_size b - rb_r b in
          if n \<le> c1 then
            (Some (slice (rb_r b) (rb_r b + n) (rb_buf b)),
             b\<lparr>rb_r := (if rb_r b + n = rb_size b then 0 else rb_r b + n)\<rparr>)
          else
            let c2 = n - c1
            in (Some (drop (rb_r b) (rb_buf b) @ take c2 (rb_buf b)), b\<lparr>rb_r := c2\<rparr>))"

definition Peek :: "RingBuffer \<Rightarrow> string" where
  "Peek b =
     (if IsEmpty b then []
      else if rb_w b > rb_r b then slice (rb_r b) (rb_w b) (rb_buf b)
      else slice (rb_r b) (rb_size b) (rb_buf b))"

definition Bytes :: "RingBuffer \<Rightarrow> string" where
  "Bytes b =
     (let avail = Len b in
      if avail = 0 then []
      else if rb_w b > rb_r b then slice (rb_r b) (rb_w b) (rb_buf b)
      else drop (rb_r b) (rb_buf b) @ take (rb_w b) (rb_buf b))"

definition AdvanceRead :: "int \<Rightarrow> RingBuffer \<Rightarrow> RingBuffer" where
  "AdvanceRead n b =
     (if n \<le> 0 then b
      else
        let avail = Len b; n = (if n > int avail then avail else nat n)
        in b\<lparr>rb_r := (rb_r b + n) mod rb_size b\<rparr>)"

definition AdvanceWrite :: "int \<Rightarrow> RingBuffer \<Rightarrow> RingBuffer" where
  "AdvanceWrite n b = (if n \<le> 0 then b else b\<lparr>rb_w := (rb_w b + nat n) mod rb_size b\<rparr>)"

text \<open>\<open>WriteSlice\<close> returns a window into the buffer: its bounds, and a write through it.\<close>

definition WriteSlice :: "RingBuffer \<Rightarrow> nat \<times> nat" where
  "WriteSlice b =
     (if rb_w b \<ge> rb_r b then (if rb_r b = 0 then (rb_w b, rb_size b - 1) else (rb_w b, rb_size b))
      else (rb_w b, rb_r b - 1))"

definition fill_WriteSlice :: "string \<Rightarrow> RingBuffer \<Rightarrow> RingBuffer" where
  "fill_WriteSlice p b = b\<lparr>rb_buf := copy_at (rb_buf b) (fst (WriteSlice b)) p\<rparr>"

subsection \<open>The invariant, and that every method keeps it\<close>

definition rb_wf :: "RingBuffer \<Rightarrow> bool" where
  "rb_wf b \<longleftrightarrow> length (rb_buf b) = rb_size b \<and> rb_r b < rb_size b \<and> rb_w b < rb_size b"

lemma length_copy_at [simp]:
  "off + length src \<le> length dst \<Longrightarrow> length (copy_at dst off src) = length dst"
  by (simp add: copy_at_def)

lemma rb_wf_NewRingBuffer [simp]: "rb_wf (NewRingBuffer capacity)"
  by (simp add: rb_wf_def NewRingBuffer_def Let_def)

lemma rb_wf_Reset [simp]: "rb_wf b \<Longrightarrow> rb_wf (Reset b)"
  by (auto simp: rb_wf_def Reset_def)

lemma Len_bound: "rb_wf b \<Longrightarrow> Len b < rb_size b"
  by (auto simp: rb_wf_def Len_def)

lemma length_Bytes [simp]: "rb_wf b \<Longrightarrow> length (Bytes b) = Len b"
  by (auto simp: rb_wf_def Len_def Bytes_def slice_def drop_take)

lemma grow_simps:
  assumes "rb_wf b"
  shows "rb_size (grow m b) = (if rb_size b * 2 < m then m * 2 else rb_size b * 2)"
    and "rb_r (grow m b) = 0" and "rb_w (grow m b) = Len b" and "Len (grow m b) = Len b"
  using assms by (simp_all add: grow_def Let_def Len_def)

lemma Bytes_straight: "rb_r b \<le> rb_w b \<Longrightarrow> Bytes b = drop (rb_r b) (take (rb_w b) (rb_buf b))"
  by (auto simp: Bytes_def Len_def slice_def drop_take)

lemma Bytes_wrapped:
  "rb_w b < rb_r b \<Longrightarrow> rb_r b < rb_size b \<Longrightarrow> Bytes b = drop (rb_r b) (rb_buf b) @ take (rb_w b) (rb_buf b)"
  by (simp add: Bytes_def Len_def)

lemma copy_at_front: "length src \<le> n \<Longrightarrow> copy_at (replicate n c) 0 src = src @ replicate (n - length src) c"
  by (simp add: copy_at_def)

lemma copy_at_next:
  "length src \<le> n \<Longrightarrow> copy_at (pre @ replicate n c) (length pre) src = pre @ src @ replicate (n - length src) c"
  by (simp add: copy_at_def)

lemma buf_grow:
  assumes wf: "rb_wf b"
  shows "rb_buf (grow m b) = Bytes b @ replicate (rb_size (grow m b) - Len b) CHR 0x00"
proof -
  define n where "n = rb_size (grow m b)"
  have n: "Len b \<le> n" "n = (if rb_size b * 2 < m then m * 2 else rb_size b * 2)"
    using Len_bound [OF wf] by (auto simp: n_def grow_simps [OF wf])
  consider "rb_r b = rb_w b" | "rb_r b < rb_w b" | "rb_w b < rb_r b"
    by linarith
  then show ?thesis
  proof cases
    case 1
    then have "Bytes b = []" "Len b = 0" by (simp_all add: Bytes_def Len_def)
    then show ?thesis by (simp add: grow_def Let_def)
  next
    case 2
    then have "rb_buf (grow m b) = copy_at (replicate n CHR 0x00) 0 (Bytes b)"
      by (simp add: grow_def Let_def n Bytes_def Len_def)
    with n show ?thesis by (simp add: copy_at_front length_Bytes [OF wf] flip: n_def)
  next
    case 3
    define x where "x = drop (rb_r b) (rb_buf b)"
    define y where "y = take (rb_w b) (rb_buf b)"
    have xy: "length x = rb_size b - rb_r b" "Bytes b = x @ y" "length x + length y = Len b"
      using 3 wf by (auto simp: x_def y_def rb_wf_def Len_def Bytes_wrapped)
    have "rb_buf (grow m b) = copy_at (copy_at (replicate n CHR 0x00) 0 x) (length x) y"
      using 3 xy(1) wf by (simp add: grow_def Let_def n x_def y_def rb_wf_def Len_def)
    also have "\<dots> = x @ y @ replicate (n - length x - length y) CHR 0x00"
      using n(1) xy(3) by (simp add: copy_at_front copy_at_next)
    finally show ?thesis using xy by (simp flip: n_def)
  qed
qed

lemma rb_wf_grow [simp]:
  assumes "rb_wf b" shows "rb_wf (grow m b)"
  unfolding rb_wf_def
  using assms Len_bound [OF assms] by (auto simp: grow_simps buf_grow)

lemma Bytes_grow [simp]:
  assumes "rb_wf b" shows "Bytes (grow m b) = Bytes b"
  using assms length_Bytes [OF assms]
  by (auto simp: Bytes_def [of "grow m b"] grow_simps buf_grow slice_def simp del: length_Bytes)


lemma IsEmpty_Bytes: "rb_wf b \<Longrightarrow> IsEmpty b \<longleftrightarrow> Bytes b = []"
proof -
  assume wf: "rb_wf b"
  then have "IsEmpty b \<longleftrightarrow> length (Bytes b) = 0"
    by (auto simp: IsEmpty_def Len_def rb_wf_def)
  then show ?thesis by simp
qed

lemma drop_past: "length x = c \<Longrightarrow> c \<le> n \<Longrightarrow> drop n (x @ drop c z) = drop n z"
  by simp

lemma take_exact: "length x = c \<Longrightarrow> take c (x @ z) = x"
  by simp

lemma Write_fits:
  assumes wf: "rb_wf b" and n: "length p \<le> Free b"
  shows "rb_wf (snd (Write p b)) \<and> Bytes (snd (Write p b)) = Bytes b @ p"
proof (cases "p = []")
  case True
  then show ?thesis using wf by (simp add: Write_def)
next
  case False
  show ?thesis
  proof (cases "rb_r b \<le> rb_w b")
    case True
    show ?thesis
    proof (cases "length p \<le> rb_size b - rb_w b")
      case fits: True
      have len: "length (rb_buf b) = rb_size b" and c: "rb_w b < rb_size b" "rb_r b < rb_size b"
        and z: "rb_w b + length p = rb_size b \<Longrightarrow> 0 < rb_r b"
        using wf n True by (auto simp: rb_wf_def Free_def Len_def)
      have W: "snd (Write p b) = b\<lparr>rb_buf := take (rb_w b) (rb_buf b) @ p @ drop (rb_w b + length p) (rb_buf b),
          rb_w := (if rb_w b + length p = rb_size b then 0 else rb_w b + length p)\<rparr>"
        using True fits n len False by (simp add: Write_def copy_at_def Let_def)
      have B: "Bytes b = drop (rb_r b) (take (rb_w b) (rb_buf b))"
        using True by (rule Bytes_straight)
      have "Bytes (snd (Write p b)) = Bytes b @ p"
      proof (cases "rb_w b + length p = rb_size b")
        case True
        then show ?thesis
          unfolding W B using \<open>rb_r b \<le> rb_w b\<close> z len c by (simp add: Bytes_wrapped)
      next
        case ends: False
        then show ?thesis
          unfolding W B using True fits len c \<open>p \<noteq> []\<close>
          by (simp add: Bytes_straight)
      qed
      then show ?thesis
        using c fits len unfolding W by (auto simp: rb_wf_def)
    next
      case wraps: False
      define c1 where "c1 = rb_size b - rb_w b"
      define c2 where "c2 = length p - c1"
      have c: "c1 \<le> length p" "c1 + c2 = length p" "c2 < rb_r b" "rb_w b + c1 = length (rb_buf b)"
        "rb_r b < rb_size b" "rb_r b \<le> rb_w b" "c2 < rb_size b" "rb_w b < rb_size b"
        using wf n True wraps False by (auto simp: c1_def c2_def rb_wf_def Free_def Len_def)
      have len: "length (rb_buf b) = rb_size b" using wf by (simp add: rb_wf_def)
      have B: "Bytes b = drop (rb_r b) (take (rb_w b) (rb_buf b))"
        using True by (rule Bytes_straight)
      have W: "snd (Write p b) = b\<lparr>rb_buf := drop c1 p @ drop c2 (take (rb_w b) (rb_buf b) @ take c1 p),
          rb_w := c2\<rparr>"
        using True wraps False n c len unfolding Write_def c1_def [symmetric] Let_def c2_def [symmetric]
        by (simp add: copy_at_def c1_def [symmetric] c2_def)
      have "drop (rb_r b) (drop c1 p @ drop c2 (take (rb_w b) (rb_buf b) @ take c1 p)) =
          Bytes b @ take c1 p"
        unfolding B using c by (subst drop_past) auto
      moreover have "take c2 (drop c1 p @ drop c2 (take (rb_w b) (rb_buf b) @ take c1 p)) = drop c1 p"
        using c by (subst take_exact) auto
      ultimately have "Bytes (snd (Write p b)) = Bytes b @ take c1 p @ drop c1 p"
        using c unfolding W by (simp add: Bytes_wrapped)
      then show ?thesis
        using c len unfolding W by (simp add: rb_wf_def)
    qed
  next
    case wrapped: False
    have len: "length (rb_buf b) = rb_size b" and c: "rb_w b + length p < rb_r b" "rb_r b < rb_size b"
      using wf n False wrapped by (auto simp: rb_wf_def Free_def Len_def)
    have W: "snd (Write p b) = b\<lparr>rb_buf := take (rb_w b) (rb_buf b) @ p @ drop (rb_w b + length p) (rb_buf b),
        rb_w := rb_w b + length p\<rparr>"
      using wrapped n c len by (simp add: Write_def copy_at_def Let_def)
    have "Bytes b = drop (rb_r b) (rb_buf b) @ take (rb_w b) (rb_buf b)"
      using wrapped c by (simp add: Bytes_wrapped)
    moreover have "Bytes (snd (Write p b)) = drop (rb_r b) (rb_buf b) @ take (rb_w b) (rb_buf b) @ p"
      using c len unfolding W by (simp add: Bytes_wrapped)
    ultimately show ?thesis
      using c len unfolding W by (simp add: rb_wf_def)
  qed
qed

lemma Free_grow: "rb_wf b \<Longrightarrow> n \<le> Free (grow (Len b + n + 1) b)"
  using Len_bound [of b] by (auto simp: Free_def grow_simps)

lemma Write_grow:
  "length p > Free b \<Longrightarrow> rb_wf b \<Longrightarrow>
    Write p b = Write p (grow (Len b + length p + 1) b)"
  using Free_grow [of b "length p"] by (auto simp: Write_def Let_def)

lemma Write_spec:
  assumes "rb_wf b"
  shows "rb_wf (snd (Write p b)) \<and> Bytes (snd (Write p b)) = Bytes b @ p"
proof (cases "length p \<le> Free b")
  case False
  then show ?thesis
    using assms Write_fits [OF rb_wf_grow [OF assms] Free_grow [OF assms]] Write_grow [of b p] by simp
qed (simp add: assms Write_fits)

lemma fst_Write: "fst (Write p b) = length p"
  by (simp add: Write_def Let_def)

lemma mod_window: "(a::nat) < 2 * s \<Longrightarrow> a mod s = (if a < s then a else a - s)"
  by (simp add: mod_if)

lemma AdvanceRead_spec:
  assumes "rb_wf b"
  shows "rb_wf (AdvanceRead n b) \<and> Bytes (AdvanceRead n b) = drop (nat n) (Bytes b)"
proof (cases "n \<le> 0")
  case True
  then show ?thesis using assms by (simp add: AdvanceRead_def)
next
  case False
  define k where "k = min (nat n) (Len b)"
  have adv: "AdvanceRead n b = b\<lparr>rb_r := (rb_r b + k) mod rb_size b\<rparr>"
    using False by (auto simp: AdvanceRead_def Let_def k_def min_def)
  have kb: "k \<le> Len b" by (simp add: k_def)
  have drop: "drop (nat n) (Bytes b) = drop k (Bytes b)"
    using assms by (auto simp: k_def min_def)
  have m: "(rb_r b + k) mod rb_size b = (if rb_r b + k < rb_size b then rb_r b + k else rb_r b + k - rb_size b)"
    using assms kb Len_bound [OF assms] by (intro mod_window) (auto simp: rb_wf_def)
  show ?thesis
    unfolding adv drop m using assms kb
    by (auto simp: rb_wf_def Len_def Bytes_def slice_def drop_take add.commute [of k "rb_r b"])
qed

lemma Read_bytes:
  assumes "rb_wf b"
  shows "fst (Read n b) = (if Bytes b = [] then None else Some (take n (Bytes b)))"
proof (cases "rb_r b < rb_w b")
  case True
  then show ?thesis
    using assms
    by (auto simp: Read_def Let_def rb_wf_def IsEmpty_def Len_def Bytes_def slice_def min_def)
next
  case False
  then show ?thesis
    using assms
    by (auto simp: Read_def Let_def rb_wf_def IsEmpty_def Len_def Bytes_def slice_def)
qed

lemma Read_AdvanceRead:
  assumes "rb_wf b" shows "snd (Read n b) = AdvanceRead (int n) b"
proof -
  define k where "k = (if n > Len b then Len b else n)"
  have k: "k \<le> Len b" by (simp add: k_def)
  have "(rb_r b + k) mod rb_size b = (if rb_r b + k < rb_size b then rb_r b + k else rb_r b + k - rb_size b)"
    using assms k Len_bound [OF assms] by (intro mod_window) (auto simp: rb_wf_def)
  moreover have "AdvanceRead (int n) b = b\<lparr>rb_r := (rb_r b + k) mod rb_size b\<rparr>"
    using assms by (auto simp: AdvanceRead_def Let_def k_def rb_wf_def)
  moreover have "snd (Read n b) = b\<lparr>rb_r := (if rb_r b + k < rb_size b then rb_r b + k else rb_r b + k - rb_size b)\<rparr>"
    using assms k unfolding Read_def Let_def k_def [symmetric]
    by (auto simp: rb_wf_def IsEmpty_def Len_def split: if_splits)
  ultimately show ?thesis by simp
qed

lemma Read_spec:
  assumes "rb_wf b"
  shows "rb_wf (snd (Read n b)) \<and>
    fst (Read n b) = (if Bytes b = [] then None else Some (take n (Bytes b))) \<and>
    Bytes (snd (Read n b)) = drop n (Bytes b)"
  using assms AdvanceRead_spec [OF assms, of "int n"] by (simp add: Read_bytes Read_AdvanceRead)

lemma AdvanceWrite_fill:
  assumes wf: "rb_wf b" and p: "length p \<le> snd (WriteSlice b) - fst (WriteSlice b)"
  shows "AdvanceWrite (int (length p)) (fill_WriteSlice p b) =
    b\<lparr>rb_buf := take (rb_w b) (rb_buf b) @ p @ drop (rb_w b + length p) (rb_buf b),
      rb_w := (if rb_w b + length p = rb_size b then 0 else rb_w b + length p)\<rparr>"
    and "rb_w b + length p \<le> rb_size b"
    and "rb_r b \<le> rb_w b \<or> rb_w b + length p < rb_r b"
    and "rb_w b + length p = rb_size b \<Longrightarrow> 0 < rb_r b"
proof -
  show le: "rb_w b + length p \<le> rb_size b"
    and "rb_r b \<le> rb_w b \<or> rb_w b + length p < rb_r b"
    and "rb_w b + length p = rb_size b \<Longrightarrow> 0 < rb_r b"
    using wf p by (auto simp: WriteSlice_def rb_wf_def split: if_splits)
  have "(rb_w b + length p) mod rb_size b =
      (if rb_w b + length p = rb_size b then 0 else rb_w b + length p)"
    using le by auto
  moreover have "fill_WriteSlice p b =
      b\<lparr>rb_buf := take (rb_w b) (rb_buf b) @ p @ drop (rb_w b + length p) (rb_buf b)\<rparr>"
    using wf le by (simp add: fill_WriteSlice_def WriteSlice_def copy_at_def rb_wf_def)
  ultimately show "AdvanceWrite (int (length p)) (fill_WriteSlice p b) =
    b\<lparr>rb_buf := take (rb_w b) (rb_buf b) @ p @ drop (rb_w b + length p) (rb_buf b),
      rb_w := (if rb_w b + length p = rb_size b then 0 else rb_w b + length p)\<rparr>"
    using wf by (auto simp: AdvanceWrite_def rb_wf_def)
qed

lemma WriteSlice_spec:
  assumes wf: "rb_wf b" and p: "length p \<le> snd (WriteSlice b) - fst (WriteSlice b)"
  shows "rb_wf (AdvanceWrite (int (length p)) (fill_WriteSlice p b)) \<and>
    Bytes (AdvanceWrite (int (length p)) (fill_WriteSlice p b)) = Bytes b @ p"
proof -
  note W = AdvanceWrite_fill [OF assms]
  have len: "length (rb_buf b) = rb_size b" and c: "rb_r b < rb_size b" "rb_w b < rb_size b"
    using wf by (simp_all add: rb_wf_def)
  have "rb_wf (AdvanceWrite (int (length p)) (fill_WriteSlice p b))"
    unfolding W(1) using len c W(2) by (auto simp: rb_wf_def)
  moreover have "Bytes (AdvanceWrite (int (length p)) (fill_WriteSlice p b)) = Bytes b @ p"
  proof (cases "rb_r b \<le> rb_w b")
    case True
    show ?thesis
    proof (cases "rb_w b + length p = rb_size b")
      case ends: True
      then show ?thesis unfolding W(1) using len c True W(4)
        by (simp add: Bytes_straight [OF True] Bytes_wrapped)
    next
      case False
      then show ?thesis unfolding W(1) using len c True W(2)
        by (simp add: Bytes_straight)
    qed
  next
    case False
    then show ?thesis unfolding W(1) using len c W(2,3) by (simp add: Bytes_wrapped)
  qed
  ultimately show ?thesis by simp
qed

lemma Peek_prefix: "rb_wf b \<Longrightarrow> \<exists>rest. Bytes b = Peek b @ rest"
  by (auto simp: Peek_def Bytes_def IsEmpty_def slice_def rb_wf_def Len_def)

lemma Peek_empty: "rb_wf b \<Longrightarrow> Peek b = [] \<longleftrightarrow> Bytes b = []"
  unfolding IsEmpty_Bytes [symmetric] by (auto simp: Peek_def IsEmpty_def slice_def rb_wf_def)

subsection \<open>The contract: a first-in-first-out byte queue\<close>

text \<open>
  A byte queue runs operations that take bytes in and give bytes out. The only law is that one
  operation neither loses, invents nor reorders a byte; every run then has the same property.
\<close>

locale byte_queue =
  fixes wf :: "'q \<Rightarrow> bool"
    and contents :: "'q \<Rightarrow> string"
    and step :: "'op \<Rightarrow> 'q \<Rightarrow> string \<times> 'q"
    and input :: "'op \<Rightarrow> 'q \<Rightarrow> string"
  assumes step_wf: "wf q \<Longrightarrow> wf (snd (step a q))"
    and step_fifo: "wf q \<Longrightarrow> fst (step a q) @ contents (snd (step a q)) = contents q @ input a q"
begin

fun run :: "'op list \<Rightarrow> 'q \<Rightarrow> string \<times> string \<times> 'q" where
  "run [] q = ([], [], q)"
| "run (a # as) q =
     (case run as (snd (step a q)) of
        (ins, outs, q') \<Rightarrow> (input a q @ ins, fst (step a q) @ outs, q'))"

lemma run_wf: "wf q \<Longrightarrow> wf (snd (snd (run as q)))"
proof (induction as arbitrary: q)
  case (Cons a as)
  then show ?case
    using Cons.IH [OF step_wf [OF Cons.prems, of a]] by (cases "run as (snd (step a q))") simp
qed simp

lemma run_fifo:
  "wf q \<Longrightarrow> run as q = (ins, outs, q') \<Longrightarrow> outs @ contents q' = contents q @ ins"
proof (induction as arbitrary: q ins outs)
  case (Cons a as)
  obtain ins1 outs1 where 1: "run as (snd (step a q)) = (ins1, outs1, q')"
    and 2: "ins = input a q @ ins1" "outs = fst (step a q) @ outs1"
    using Cons.prems(2) by (auto split: prod.splits)
  have "outs1 @ contents q' = contents (snd (step a q)) @ ins1"
    using Cons.IH 1 Cons.prems(1) step_wf by blast
  then show ?case using step_fifo [OF Cons.prems(1), of a] 2 by simp
qed simp

end

text \<open>
  The ways the code uses the buffer: \<open>Write\<close>; a socket read into \<open>WriteSlice\<close> followed by
  \<open>AdvanceWrite\<close>; \<open>Read\<close>; taking up to \<open>n\<close> of the bytes \<open>Peek\<close> shows and \<open>AdvanceRead\<close>; and the
  \<open>Reset\<close> of an empty buffer.
\<close>

datatype rb_op = OpWrite string | OpRecv string | OpRead nat | OpSend nat | OpReset

fun rb_step :: "rb_op \<Rightarrow> RingBuffer \<Rightarrow> string \<times> RingBuffer" where
  "rb_step (OpWrite p) b = ([], snd (Write p b))"
| "rb_step (OpRecv p) b =
     (let p = take (snd (WriteSlice b) - fst (WriteSlice b)) p
      in ([], AdvanceWrite (int (length p)) (fill_WriteSlice p b)))"
| "rb_step (OpRead n) b =
     (case Read n b of (None, b') \<Rightarrow> ([], b') | (Some p, b') \<Rightarrow> (p, b'))"
| "rb_step (OpSend n) b =
     (let p = take n (Peek b) in (p, AdvanceRead (int (length p)) b))"
| "rb_step OpReset b = ([], if IsEmpty b then Reset b else b)"

fun rb_input :: "rb_op \<Rightarrow> RingBuffer \<Rightarrow> string" where
  "rb_input (OpWrite p) b = p"
| "rb_input (OpRecv p) b = take (snd (WriteSlice b) - fst (WriteSlice b)) p"
| "rb_input _ b = []"

lemma rb_step_spec:
  assumes "rb_wf b"
  shows "rb_wf (snd (rb_step a b)) \<and> fst (rb_step a b) @ Bytes (snd (rb_step a b)) = Bytes b @ rb_input a b"
proof (cases a)
  case (OpRead n)
  then show ?thesis using Read_spec [OF assms, of n] by (cases "Read n b") (auto split: option.splits)
next
  case (OpSend n)
  obtain rest where "Bytes b = Peek b @ rest" using Peek_prefix [OF assms] by blast
  then show ?thesis
    using OpSend AdvanceRead_spec [OF assms, of "int (length (take n (Peek b)))"]
    by (simp add: Let_def min_def)
next
  case (OpRecv p)
  then show ?thesis
    using WriteSlice_spec [OF assms, of "take (snd (WriteSlice b) - fst (WriteSlice b)) p"]
    by (simp add: Let_def)
next
  case OpReset
  have "IsEmpty b \<Longrightarrow> Bytes (Reset b) = Bytes b"
    using assms by (simp add: IsEmpty_def Reset_def Bytes_def Len_def)
  then show ?thesis using OpReset assms by simp
qed (use Write_spec [OF assms] in simp)

interpretation rbq: byte_queue rb_wf Bytes rb_step rb_input
  by unfold_locales (use rb_step_spec in blast)+

fun rb_run :: "rb_op list \<Rightarrow> RingBuffer \<Rightarrow> string \<times> string \<times> RingBuffer" where
  "rb_run [] b = ([], [], b)"
| "rb_run (a # as) b =
     (case rb_run as (snd (rb_step a b)) of
        (ins, outs, b') \<Rightarrow> (rb_input a b @ ins, fst (rb_step a b) @ outs, b'))"

lemma rb_run_eq: "rb_run as b = rbq.run as b"
  by (induction as arbitrary: b) simp_all

text \<open>
  Property C6: starting from a new buffer of any capacity, whatever sequence of writes, socket
  reads, reads, sends and resets is run (with the growth and the wrap-around they cause), the
  bytes taken out followed by the bytes still buffered are exactly the bytes put in, in order.
\<close>

theorem RingBuffer_fifo:
  "case rb_run ops (NewRingBuffer capacity) of (ins, outs, b) \<Rightarrow> rb_wf b \<and> outs @ Bytes b = ins"
proof -
  obtain ins outs b where run: "rb_run ops (NewRingBuffer capacity) = (ins, outs, b)"
    by (metis prod_cases3)
  have "Bytes (NewRingBuffer capacity) = []"
    by (simp add: NewRingBuffer_def Let_def Bytes_def Len_def)
  then show ?thesis
    using rbq.run_fifo [of "NewRingBuffer capacity" ops] rbq.run_wf [of "NewRingBuffer capacity" ops] run
    by (simp add: rb_run_eq)
qed

text \<open>
  \<open>Write\<close> always accepts all of \<open>p\<close>, keeps the buffer well formed and appends exactly \<open>p\<close>
  to its contents, growing when \<open>p\<close> does not fit; a buffer that had room is not reallocated.
\<close>

theorem Write_appends:
  assumes "rb_wf b"
  shows "fst (Write p b) = length p \<and> rb_wf (snd (Write p b)) \<and> Bytes (snd (Write p b)) = Bytes b @ p
    \<and> Cap (snd (Write p b)) = (if length p \<le> Free b then Cap b
        else max (2 * Cap b) (if 2 * Cap b < Len b + length p + 1 then 2 * (Len b + length p + 1) else 0))"
proof -
  have "length p \<le> Free b \<Longrightarrow> Cap (snd (Write p b)) = Cap b" for b :: RingBuffer
    by (simp add: Write_def Let_def Cap_def)
  then show ?thesis
    using Write_spec [OF assms] fst_Write Write_grow [of b p] Free_grow [OF assms, of "length p"] assms
    by (auto simp: Cap_def grow_simps)
qed

theorem Write_appends_witness:
  "rb_wf (NewRingBuffer 4) \<and> fst (Write ''hello'' (NewRingBuffer 4)) = 5"
  using Write_appends [of "NewRingBuffer 4" "''hello''"] by simp

end
