(* ===== verification/Reactor_Parser.thy ===== *)
theory Reactor_Parser
  imports Resp
begin

unbundle bit_operations_syntax

text \<open>
  The reactor's own protocol code: the zero-allocation command parser
  (src/internal/reactor/parser.go), the reply serializer (serializer.go) and the packed command
  words (cmd_fast.go).

  The parser works on the bytes received so far and answers with one of three outcomes: a
  command and the number of bytes it takes, "incomplete" (a nil slice and 0), or an error. Its
  decimal loops have no overflow check, so lengths are computed modulo \<open>2 ^ 64\<close> as in the source,
  and the run-time panics this can cause are values of the error type.
\<close>

subsection \<open>The parser\<close>

datatype perr = ErrProtocol | PanicMakeslice | PanicIndex

text \<open>\<open>make([]string, 0, n)\<close> panics when the slice would exceed the address space, \<open>2 ^ 48\<close> bytes.\<close>

definition makeslice_max :: int where
  "makeslice_max = 2 ^ 44"

type_synonym parsed = "perr + string list option \<times> nat"

abbreviation Incomplete :: parsed where
  "Incomplete \<equiv> Inr (None, 0)"

text \<open>The inlined decimal loop, \<open>n = n*10 + int(c-'0')\<close> at the width of \<open>int\<close>.\<close>

fun parse_digits :: "int \<Rightarrow> string \<Rightarrow> int option" where
  "parse_digits n [] = Some n"
| "parse_digits n (c # cs) =
     (if is_digit c then parse_digits (wrap64 (n * 10 + int (digit_val c))) cs else None)"

text \<open>\<open>dst[:0]\<close>: the nil slice stays nil.\<close>

definition empty_of :: "string list option \<Rightarrow> string list option" where
  "empty_of dst = map_option (\<lambda>_. []) dst"

text \<open>
  One pass of the argument loop, at offset \<open>consumed\<close>, in two parts: the length line, then the
  payload. \<open>None\<close> is an incomplete command, otherwise the value and the offset after it.
\<close>

definition parse_len :: "string \<Rightarrow> nat \<Rightarrow> perr + (int \<times> nat) option" where
  "parse_len data consumed =
     (if length data \<le> consumed then Inr None
      else if data ! consumed \<noteq> CHR ''$'' then Inl ErrProtocol
      else
        case IndexByte (drop consumed data) LF of
          None \<Rightarrow> Inr None
        | Some nextIdx \<Rightarrow>
            (let endLen = consumed + nextIdx in
             if endLen < consumed + 2 \<or> data ! (endLen - 1) \<noteq> CR then Inl ErrProtocol
             else
               let start = consumed + 1;
                   isNegative = (start < endLen - 1 \<and> data ! start = CHR ''-'');
                   start = (if isNegative then start + 1 else start)
               in case parse_digits 0 (take (endLen - 1 - start) (drop start data)) of
                    None \<Rightarrow> Inl ErrProtocol
                  | Some n \<Rightarrow> Inr (Some (if isNegative then wrap64 (- n) else n, endLen + 1))))"

definition parse_payload :: "string \<Rightarrow> int \<Rightarrow> nat \<Rightarrow> perr + (string \<times> nat) option" where
  "parse_payload data bulkLen consumed =
     (if bulkLen = -1 then Inr (Some ([], consumed))
      else if bulkLen < 0 then Inl ErrProtocol
      else if int (length data - consumed) < wrap64 (bulkLen + 2) then Inr None
      else
        let i = wrap64 (int consumed + bulkLen) in
        if i < 0 \<or> int (length data) \<le> i then Inl PanicIndex
        else if data ! nat i \<noteq> CR \<or> data ! (nat i + 1) \<noteq> LF then Inl ErrProtocol
        else Inr (Some (take (nat bulkLen) (drop consumed data), consumed + nat bulkLen + 2)))"

definition parse_arg :: "string \<Rightarrow> nat \<Rightarrow> perr + (string \<times> nat) option" where
  "parse_arg data consumed =
     (case parse_len data consumed of
        Inl e \<Rightarrow> Inl e
      | Inr None \<Rightarrow> Inr None
      | Inr (Some (bulkLen, consumed')) \<Rightarrow> parse_payload data bulkLen consumed')"

fun parse_args :: "nat \<Rightarrow> string \<Rightarrow> nat \<Rightarrow> string list \<Rightarrow> parsed" where
  "parse_args 0 data consumed args = Inr (Some args, consumed)"
| "parse_args (Suc i) data consumed args =
     (case parse_arg data consumed of
        Inl e \<Rightarrow> Inl e
      | Inr None \<Rightarrow> Incomplete
      | Inr (Some (arg, consumed')) \<Rightarrow> parse_args i data consumed' (args @ [arg]))"

definition parseRESPArrayInto :: "string \<Rightarrow> string list option \<Rightarrow> parsed" where
  "parseRESPArrayInto data dst =
     (case IndexByte data LF of
        None \<Rightarrow> Incomplete
      | Some idx \<Rightarrow>
          if idx < 2 \<or> data ! (idx - 1) \<noteq> CR then Inl ErrProtocol
          else
            case parse_digits 0 (take (idx - 2) (drop 1 data)) of
              None \<Rightarrow> Inl ErrProtocol
            | Some count \<Rightarrow>
                if count = 0 then Inr (empty_of dst, idx + 1)
                else if count < 0 then Inr (empty_of dst, idx + 1)
                else if count > makeslice_max then Inl PanicMakeslice
                else parse_args (nat count) data (idx + 1) [])"

text \<open>
  \<open>bytes.Fields\<close>: \<open>space_len s\<close> is the length of the white-space rune at the start of \<open>s\<close>, 0 if
  there is none. Looking at every byte gives the runes of \<open>unicode.IsSpace\<close>, since no byte that
  can start one occurs inside another rune.
\<close>

definition space_len :: "string \<Rightarrow> nat" where
  "space_len s =
     (case map byte s of
        [] \<Rightarrow> 0
      | a # t \<Rightarrow>
          if a \<in> {9, 10, 11, 12, 13, 32} then 1
          else
            case t of
              [] \<Rightarrow> 0
            | b # u \<Rightarrow>
                if a = 0xC2 \<and> (b = 0x85 \<or> b = 0xA0) then 2
                else
                  case u of
                    [] \<Rightarrow> 0
                  | c # _ \<Rightarrow>
                      if a = 0xE1 \<and> b = 0x9A \<and> c = 0x80 then 3
                      else if a = 0xE2 \<and> b = 0x80 \<and>
                        (0x80 \<le> c \<and> c \<le> 0x8A \<or> c = 0xA8 \<or> c = 0xA9 \<or> c = 0xAF) then 3
                      else if a = 0xE2 \<and> b = 0x81 \<and> c = 0x9F then 3
                      else if a = 0xE3 \<and> b = 0x80 \<and> c = 0x80 then 3
                      else 0)"

fun Fields_from :: "string \<Rightarrow> string \<Rightarrow> string list" where
  "Fields_from cur [] = (if cur = [] then [] else [cur])"
| "Fields_from cur (c # cs) =
     (let k = space_len (c # cs) in
      if k > 0 then (if cur = [] then [] else [cur]) @ Fields_from [] (drop (k - 1) cs)
      else Fields_from (cur @ [c]) cs)"

definition Fields :: "string \<Rightarrow> string list" where
  "Fields s = Fields_from [] s"

definition parseInlineCommandInto :: "string \<Rightarrow> string list option \<Rightarrow> parsed" where
  "parseInlineCommandInto data dst =
     (case IndexByte data LF of
        None \<Rightarrow> Incomplete
      | Some idx \<Rightarrow>
          (let lineEnd = (if idx > 0 \<and> data ! (idx - 1) = CR then idx - 1 else idx);
               fields = Fields (take lineEnd data)
           in if fields = [] then Inr (empty_of dst, idx + 1)
              else Inr (Some fields, idx + 1)))"

definition ParseCommandInto :: "string \<Rightarrow> string list option \<Rightarrow> parsed" where
  "ParseCommandInto data dst =
     (if data = [] then Incomplete
      else if data ! 0 = CHR ''*'' then parseRESPArrayInto data dst
      else parseInlineCommandInto data dst)"

definition ParseCommand :: "string \<Rightarrow> parsed" where
  "ParseCommand data = ParseCommandInto data None"

subsection \<open>The serializer\<close>

text \<open>The length prefix, with the one- and two-digit cases written out as in the source.\<close>

definition append_length :: "string \<Rightarrow> nat \<Rightarrow> string" where
  "append_length dst n =
     (if n < 10 then dst @ [char_of (48 + n)] @ CRLF
      else if n < 100 then dst @ [char_of (48 + n div 10), char_of (48 + n mod 10)] @ CRLF
      else dst @ Itoa n @ CRLF)"

definition AppendBulkString :: "string \<Rightarrow> string \<Rightarrow> string" where
  "AppendBulkString dst s = append_length (dst @ ''$'') (length s) @ s @ CRLF"

fun AppendValue :: "string \<Rightarrow> Value \<Rightarrow> string" where
  "AppendValue dst (Value t str num bulk arr b nul) =
     (if nul then (if t = CHR ''*'' then dst @ ''*-1'' @ CRLF else dst @ ''$-1'' @ CRLF)
      else if t = CHR ''+'' then
        (if str = ''OK'' then dst @ ''+OK'' @ CRLF
         else if str = ''PONG'' then dst @ ''+PONG'' @ CRLF
         else dst @ ''+'' @ str @ CRLF)
      else if t = CHR ''-'' then dst @ ''-'' @ str @ CRLF
      else if t = CHR '':'' then
        (if 0 \<le> num \<and> num < 10 then dst @ '':'' @ [char_of (48 + nat num)] @ CRLF
         else dst @ '':'' @ FormatInt num @ CRLF)
      else if t = CHR ''$'' then
        (case bulk of
           Some (x # xs) \<Rightarrow> append_length (dst @ ''$'') (length (x # xs)) @ (x # xs) @ CRLF
         | _ \<Rightarrow> AppendBulkString dst str)
      else if t = CHR ''*'' then
        fold (\<lambda>v d. AppendValue d v) arr (dst @ ''*'' @ Itoa (length arr) @ CRLF)
      else if str \<noteq> [] then dst @ ''+'' @ str @ CRLF
      else dst @ ''+OK'' @ CRLF)"

subsection \<open>Packed command words\<close>

definition cmd_byte :: "char \<Rightarrow> 32 word" where
  "cmd_byte c = of_nat (byte c)"

definition AsCmd3 :: "string \<Rightarrow> 32 word" where
  "AsCmd3 s =
     (if length s \<noteq> 3 then 0
      else (cmd_byte (s ! 0) OR 0x20) OR push_bit 8 (cmd_byte (s ! 1) OR 0x20)
           OR push_bit 16 (cmd_byte (s ! 2) OR 0x20))"

definition AsCmd4 :: "string \<Rightarrow> 32 word" where
  "AsCmd4 s =
     (if length s \<noteq> 4 then 0
      else (cmd_byte (s ! 0) OR 0x20) OR push_bit 8 (cmd_byte (s ! 1) OR 0x20)
           OR push_bit 16 (cmd_byte (s ! 2) OR 0x20) OR push_bit 24 (cmd_byte (s ! 3) OR 0x20))"

text \<open>The constants \<open>CmdGet\<close>, \<open>CmdSet\<close>, ... are the lower-case letters packed the same way.\<close>

definition Cmd3 :: "string \<Rightarrow> 32 word" where
  "Cmd3 s = cmd_byte (s ! 0) OR push_bit 8 (cmd_byte (s ! 1)) OR push_bit 16 (cmd_byte (s ! 2))"

definition Cmd4 :: "string \<Rightarrow> 32 word" where
  "Cmd4 s = cmd_byte (s ! 0) OR push_bit 8 (cmd_byte (s ! 1)) OR push_bit 16 (cmd_byte (s ! 2))
     OR push_bit 24 (cmd_byte (s ! 3))"

definition CmdGet :: "32 word" where "CmdGet = Cmd3 ''get''"
definition CmdSet :: "32 word" where "CmdSet = Cmd3 ''set''"
definition CmdDel :: "32 word" where "CmdDel = Cmd3 ''del''"
definition CmdPing :: "32 word" where "CmdPing = Cmd4 ''ping''"
definition CmdQuit :: "32 word" where "CmdQuit = Cmd4 ''quit''"
definition CmdIncr :: "32 word" where "CmdIncr = Cmd4 ''incr''"
definition CmdDecr :: "32 word" where "CmdDecr = Cmd4 ''decr''"

subsection \<open>More input never changes an answer\<close>

lemma IndexByte_append_Some: "IndexByte xs b = Some i \<Longrightarrow> IndexByte (xs @ ys) b = Some i"
  by (induction xs arbitrary: i) auto

lemma take_drop_within:
  "k + n \<le> length xs \<Longrightarrow> take n (drop k (xs @ ys)) = take n (drop k xs)"
  by simp

lemma parse_len_stable:
  assumes "parse_len data consumed \<noteq> Inr None"
  shows "parse_len (data @ more) consumed = parse_len data consumed"
proof -
  have len: "consumed < length data" using assms by (auto simp: parse_len_def split: if_splits)
  show ?thesis
  proof (cases "data ! consumed = CHR ''$''")
    case False
    then show ?thesis using len by (simp add: parse_len_def nth_append)
  next
    case True
    obtain k where k: "IndexByte (drop consumed data) LF = Some k"
      using assms len True by (auto simp: parse_len_def split: option.splits)
    then have kl: "k < length data - consumed" using IndexByte_SomeD [OF k] by simp
    have k': "IndexByte (drop consumed (data @ more)) LF = Some k"
      using IndexByte_append_Some [OF k, of more] len by simp
    show ?thesis
    proof (cases "k < 2")
      case False
      then have "(data @ more) ! (consumed + k - 1) = data ! (consumed + k - 1)"
        and "(data @ more) ! (consumed + 1) = data ! (consumed + 1)"
        using kl by (auto simp: nth_append)
      moreover have "take (consumed + k - 1 - st) (drop st (data @ more))
          = take (consumed + k - 1 - st) (drop st data)" if "st \<le> consumed + 2" for st
        using kl that by simp
      ultimately show ?thesis
        unfolding parse_len_def k k' using len kl True False by (simp add: nth_append Let_def)
    next
      case short: True
      then show ?thesis unfolding parse_len_def k k' using len True by (simp add: nth_append)
    qed
  qed
qed

lemma wrap64_over: "2 ^ 63 \<le> i \<Longrightarrow> i < 2 ^ 64 + 2 ^ 63 \<Longrightarrow> wrap64 i = i - 2 ^ 64"
  unfolding wrap64_def by (subst mod_pos_geq) (simp_all add: mod_pos_pos_trivial)

lemma parse_digits_in_int64: "in_int64 n \<Longrightarrow> parse_digits n ds = Some m \<Longrightarrow> in_int64 m"
  by (induction n ds rule: parse_digits.induct) (auto simp: in_int64_wrap64 split: if_splits)

lemma parse_len_SomeD:
  assumes "parse_len data consumed = Inr (Some (bulkLen, consumed'))"
  shows "in_int64 bulkLen \<and> consumed + 2 < consumed' \<and> consumed' \<le> length data"
proof -
  have *: "parse_digits 0 ds = Some n \<Longrightarrow> in_int64 n" for ds n
    using parse_digits_in_int64 [of 0 ds n] by (simp add: in_int64_def)
  show ?thesis
    using assms
    by (auto simp: parse_len_def Let_def in_int64_wrap64 * split: if_splits option.splits dest!: IndexByte_SomeD)
qed

text \<open>
  The bounds check adds 2 to the length before comparing, so the two largest lengths slip through
  it and the index after it is out of range; every smaller length is checked correctly.
\<close>

lemma parse_payload_eq:
  assumes "in_int64 bulkLen" and "3 \<le> consumed" and "consumed \<le> length data" and "length data < 2 ^ 62"
  shows "parse_payload data bulkLen consumed =
     (if bulkLen = -1 then Inr (Some ([], consumed))
      else if bulkLen < 0 then Inl ErrProtocol
      else if 2 ^ 63 - 2 \<le> bulkLen then Inl PanicIndex
      else if length data < consumed + nat bulkLen + 2 then Inr None
      else if data ! (consumed + nat bulkLen) \<noteq> CR \<or> data ! (consumed + nat bulkLen + 1) \<noteq> LF
      then Inl ErrProtocol
      else Inr (Some (take (nat bulkLen) (drop consumed data), consumed + nat bulkLen + 2)))"
proof (cases "bulkLen < 2 ^ 63 - 2")
  case False
  then have "wrap64 (bulkLen + 2) = bulkLen + 2 - 2 ^ 64"
    and "wrap64 (int consumed + bulkLen) = int consumed + bulkLen - 2 ^ 64"
    using assms by (intro wrap64_over; simp add: in_int64_def)+
  then have "wrap64 (bulkLen + 2) < 0" "wrap64 (int consumed + bulkLen) < 0"
    using assms by (simp_all add: in_int64_def)
  then show ?thesis using False by (simp add: parse_payload_def Let_def)
next
  case True
  show ?thesis
  proof (cases "bulkLen < 0")
    case False
    have w: "wrap64 (bulkLen + 2) = bulkLen + 2"
      using True False by (simp add: wrap64_id in_int64_def)
    have i: "wrap64 (int consumed + bulkLen) = int consumed + bulkLen"
      if "\<not> int (length data - consumed) < bulkLen + 2"
      using that assms False by (intro wrap64_id) (auto simp: in_int64_def)
    show ?thesis
      using True False assms(3) i
      by (auto simp: parse_payload_def Let_def w nat_add_distrib)
  qed (simp add: parse_payload_def)
qed

lemma parse_payload_stable:
  assumes "in_int64 bulkLen" and "3 \<le> consumed" and "consumed \<le> length data"
    and "length (data @ more) < 2 ^ 62" and "parse_payload data bulkLen consumed \<noteq> Inr None"
  shows "parse_payload (data @ more) bulkLen consumed = parse_payload data bulkLen consumed"
proof -
  have 1: "length data < 2 ^ 62" and 2: "consumed \<le> length (data @ more)" using assms by simp_all
  have "\<not> (0 \<le> bulkLen \<and> bulkLen < 2 ^ 63 - 2 \<and> length data < consumed + nat bulkLen + 2)"
    using assms(5) unfolding parse_payload_eq [OF assms(1-3) 1] by (auto split: if_splits)
  then show ?thesis
    unfolding parse_payload_eq [OF assms(1-3) 1] parse_payload_eq [OF assms(1,2) 2 assms(4)]
    by (auto simp: nth_append)
qed

lemma parse_arg_stable:
  assumes "parse_arg data consumed \<noteq> Inr None" and "length (data @ more) < 2 ^ 62"
  shows "parse_arg (data @ more) consumed = parse_arg data consumed"
proof -
  have len: "parse_len data consumed \<noteq> Inr None" using assms(1) by (auto simp: parse_arg_def)
  show ?thesis
  proof (cases "parse_len data consumed")
    case (Inl e)
    then show ?thesis using parse_len_stable [OF len] by (simp add: parse_arg_def)
  next
    case (Inr x)
    then obtain bulkLen c where p: "parse_len data consumed = Inr (Some (bulkLen, c))"
      using len by (cases x) auto
    from parse_len_SomeD [OF p] have "in_int64 bulkLen" "3 \<le> c" "c \<le> length data" by auto
    then show ?thesis
      using parse_payload_stable [of bulkLen c data more] assms parse_len_stable [OF len] p
      by (simp add: parse_arg_def)
  qed
qed

lemma parse_args_stable:
  "parse_args i data consumed args \<noteq> Incomplete \<Longrightarrow> length (data @ more) < 2 ^ 62 \<Longrightarrow>
   parse_args i (data @ more) consumed args = parse_args i data consumed args"
proof (induction i arbitrary: consumed args)
  case (Suc i)
  have "parse_arg data consumed \<noteq> Inr None" using Suc.prems(1) by auto
  from parse_arg_stable [OF this Suc.prems(2)] Suc show ?case
    by (auto split: sum.splits option.splits)
qed simp

lemma ParseCommandInto_extend:
  assumes "ParseCommandInto data dst \<noteq> Incomplete" and "length (data @ more) < 2 ^ 62"
  shows "ParseCommandInto (data @ more) dst = ParseCommandInto data dst"
proof -
  have ne: "data \<noteq> []" using assms(1) by (auto simp: ParseCommandInto_def)
  then have hd: "(data @ more) ! 0 = data ! 0" by (simp add: nth_append)
  obtain k where k: "IndexByte data LF = Some k"
    using assms(1) by (auto simp: ParseCommandInto_def parseRESPArrayInto_def
        parseInlineCommandInto_def split: if_splits option.splits)
  note k' = IndexByte_append_Some [OF k, of more]
  have kl: "k < length data" using IndexByte_SomeD [OF k] by simp
  then have nth: "(data @ more) ! (k - 1) = data ! (k - 1)" by (auto simp: nth_append)
  have digits: "take (k - 2) (drop 1 (data @ more)) = take (k - 2) (drop 1 data)"
    using kl by (simp add: drop_Cons' split: list.split)
  show ?thesis
  proof (cases "data ! 0 = CHR ''*''")
    case True
    have "parseRESPArrayInto data dst \<noteq> Incomplete"
      using assms(1) True ne by (simp add: ParseCommandInto_def)
    then have "parseRESPArrayInto (data @ more) dst = parseRESPArrayInto data dst"
      unfolding parseRESPArrayInto_def k k' option.case nth digits
      using parse_args_stable [OF _ assms(2)] by (auto split: option.splits if_splits)
    then show ?thesis using True ne hd by (simp add: ParseCommandInto_def)
  next
    case False
    have "parseInlineCommandInto (data @ more) dst = parseInlineCommandInto data dst"
      unfolding parseInlineCommandInto_def k k' option.case nth using kl by (simp add: Let_def)
    then show ?thesis using False ne hd by (simp add: ParseCommandInto_def)
  qed
qed

subsection \<open>Consumption\<close>

lemma parse_arg_bounds:
  assumes "parse_arg data consumed = Inr (Some (arg, consumed'))" and "length data < 2 ^ 62"
  shows "consumed < consumed' \<and> consumed' \<le> length data"
proof -
  obtain bulkLen c where p: "parse_len data consumed = Inr (Some (bulkLen, c))"
    and q: "parse_payload data bulkLen c = Inr (Some (arg, consumed'))"
    using assms(1) by (auto simp: parse_arg_def split: sum.splits option.splits)
  note c = parse_len_SomeD [OF p]
  then have "c \<le> consumed' \<and> consumed' \<le> length data"
    using q parse_payload_eq [of bulkLen c data] assms(2) by (auto split: if_splits)
  with c show ?thesis by simp
qed

lemma parse_args_bounds:
  "parse_args i data consumed args = Inr (Some res, n) \<Longrightarrow> consumed \<le> length data \<Longrightarrow>
   length data < 2 ^ 62 \<Longrightarrow> consumed \<le> n \<and> n \<le> length data \<and> length res = length args + i"
proof (induction i arbitrary: consumed args)
  case (Suc i)
  then obtain arg c where a: "parse_arg data consumed = Inr (Some (arg, c))"
    and r: "parse_args i data c (args @ [arg]) = Inr (Some res, n)"
    by (auto split: sum.splits option.splits)
  from Suc.IH [OF r] parse_arg_bounds [OF a] Suc.prems show ?case by simp
qed simp

lemma parse_args_None: "parse_args i data consumed args = Inr (None, n) \<Longrightarrow> n = 0"
  by (induction i arbitrary: consumed args) (auto split: sum.splits option.splits)

lemma ParseCommandInto_consumed:
  assumes "ParseCommandInto data dst = Inr (res, n)" and "length data < 2 ^ 62"
  shows "n \<le> length data" and "res \<noteq> None \<Longrightarrow> 0 < n"
proof -
  have *: "n \<le> length data \<and> (res \<noteq> None \<longrightarrow> 0 < n)"
  proof (cases "IndexByte data LF")
    case None
    then show ?thesis
      using assms(1)
      by (auto simp: ParseCommandInto_def parseRESPArrayInto_def parseInlineCommandInto_def split: if_splits)
  next
    case (Some k)
    then have k: "Suc k \<le> length data" using IndexByte_SomeD [OF Some] by simp
    have args: "n \<le> length data \<and> (res \<noteq> None \<longrightarrow> 0 < n)"
      if "parse_args i data (Suc k) [] = Inr (res, n)" for i
    proof (cases res)
      case None
      then show ?thesis using parse_args_None that by blast
    next
      case (Some r)
      then show ?thesis using parse_args_bounds [of i data "Suc k" "[]" r n] that k assms(2) by simp
    qed
    show ?thesis
      using assms(1) Some k args
      by (auto simp: ParseCommandInto_def parseRESPArrayInto_def parseInlineCommandInto_def Let_def
          split: if_splits option.splits)
  qed
  from * show "n \<le> length data" and "res \<noteq> None \<Longrightarrow> 0 < n" by simp_all
qed

text \<open>
  Property C5: the parser's answer on the bytes received so far is final. Once it returns a
  command or an error, the bytes that arrive later do not change it, and a command takes at
  least one byte and no more than there are.
\<close>

theorem ParseCommandInto_stable:
  assumes "length (data @ more) < 2 ^ 62"
  shows "(\<forall>e. ParseCommandInto data dst = Inl e \<longrightarrow> ParseCommandInto (data @ more) dst = Inl e) \<and>
    (\<forall>args n. ParseCommandInto data dst = Inr (Some args, n) \<longrightarrow>
       0 < n \<and> n \<le> length data \<and> ParseCommandInto (data @ more) dst = Inr (Some args, n))"
proof -
  have "length data < 2 ^ 62" using assms by simp
  then show ?thesis
    using ParseCommandInto_extend [OF _ assms, of dst] ParseCommandInto_consumed by fastforce
qed

theorem ParseCommandInto_stable_witness:
  "ParseCommandInto ''PING a''  (Some []) = Incomplete \<and>
   ParseCommandInto (''PING a'' @ CRLF) (Some []) = Inr (Some [''PING'', ''a''], 8) \<and>
   ParseCommandInto ((''PING a'' @ CRLF) @ ''*1'') (Some []) = Inr (Some [''PING'', ''a''], 8)"
proof -
  have a: "ParseCommandInto ''PING a''  (Some []) = Incomplete" by code_simp
  have b: "ParseCommandInto (''PING a'' @ CRLF) (Some []) = Inr (Some [''PING'', ''a''], 8)" by code_simp
  have "length ((''PING a'' @ CRLF) @ ''*1'') < 2 ^ 62" by (simp add: CRLF_def)
  from ParseCommandInto_stable [OF this] a b show ?thesis by blast
qed

subsection \<open>Round trip with the command serializer\<close>

lemma digits_val_ge: "digits_val acc ds = Some m \<Longrightarrow> acc \<le> m"
  by (induction acc ds rule: digits_val.induct) (auto split: if_splits)

lemma parse_digits_val:
  "digits_val acc ds = Some m \<Longrightarrow> m < 2 ^ 63 \<Longrightarrow> parse_digits (int acc) ds = Some (int m)"
proof (induction acc ds rule: digits_val.induct)
  case (2 acc c cs)
  then have d: "is_digit c" and v: "digits_val (acc * 10 + digit_val c) cs = Some m"
    by (auto split: if_splits)
  have "acc * 10 + digit_val c < 2 ^ 63" using digits_val_ge [OF v] 2 by simp
  then have "wrap64 (int acc * 10 + int (digit_val c)) = int (acc * 10 + digit_val c)"
    by (subst wrap64_id) (auto simp: in_int64_def)
  with 2 d v show ?case by simp
qed simp

lemma parse_digits_Itoa [codec_simps]: "n < 2 ^ 63 \<Longrightarrow> parse_digits 0 (Itoa n) = Some (int n)"
  using parse_digits_val [OF digits_val_FormatUint, of n] by (simp add: Itoa_def FormatInt_def)

lemma IndexByte_CRLF: "LF \<notin> set s \<Longrightarrow> IndexByte (s @ CRLF @ rest) LF = Some (length s + 1)"
  using IndexByte_append [of LF "s @ [CR]" rest] by (simp add: CRLF_def)

lemma Itoa_no_LF: "LF \<notin> set (Itoa n)"
  by (simp add: Itoa_def FormatInt_no_newline)

lemma Itoa_hd: "0 < length (Itoa n)" "(Itoa n @ xs) ! 0 \<noteq> CHR ''-''"
proof -
  obtain c cs where *: "FormatUint n = c # cs"
    using FormatUint_nonempty [of n] by (cases "FormatUint n") auto
  then show "0 < length (Itoa n)" "(Itoa n @ xs) ! 0 \<noteq> CHR ''-''"
    using FormatUint_hd [OF *] by (auto simp: Itoa_def FormatInt_def is_digit_def)
qed

lemma parse_len_serialized:
  assumes "n < 2 ^ 63"
  shows "parse_len (pre @ CHR ''$'' # Itoa n @ CRLF @ rest) (length pre)
    = Inr (Some (int n, length pre + length (Itoa n) + 3))"
proof -
  let ?data = "pre @ CHR ''$'' # Itoa n @ CRLF @ rest"
  have k: "IndexByte (drop (length pre) ?data) LF = Some (length (Itoa n) + 2)"
    using IndexByte_CRLF [OF Itoa_no_LF, of n rest] by simp
  have neg: "?data ! (length pre + 1) \<noteq> CHR ''-''"
    using Itoa_hd(2) [of n "CRLF @ rest"] by (simp add: nth_append)
  have cr: "?data ! (length pre + (length (Itoa n) + 2) - 1) = CR"
    by (simp add: nth_append CRLF_def)
  show ?thesis
    unfolding parse_len_def k using neg cr Itoa_hd(1) [of n] assms
    by (simp add: Let_def parse_digits_Itoa)
qed

abbreviation enc_arg :: "string \<Rightarrow> string" where
  "enc_arg arg \<equiv> CHR ''$'' # Itoa (length arg) @ CRLF @ arg @ CRLF"

lemma parse_arg_serialized:
  assumes "length (pre @ enc_arg arg @ rest) < 2 ^ 62"
  shows "parse_arg (pre @ enc_arg arg @ rest) (length pre)
    = Inr (Some (arg, length (pre @ enc_arg arg)))"
proof -
  let ?data = "pre @ enc_arg arg @ rest"
  let ?c = "length pre + length (Itoa (length arg)) + 3"
  have "parse_len ?data (length pre) = Inr (Some (int (length arg), ?c))"
    using parse_len_serialized [of "length arg" pre "arg @ CRLF @ rest"] assms by simp
  moreover have "parse_payload ?data (int (length arg)) ?c = Inr (Some (arg, ?c + length arg + 2))"
    using assms
    by (subst parse_payload_eq) (auto simp: in_int64_def nth_append CRLF_def numeral_3_eq_3)
  ultimately show ?thesis by (simp add: parse_arg_def CRLF_def)
qed

lemma parse_args_serialized:
  "length (pre @ concat (map enc_arg args) @ rest) < 2 ^ 62 \<Longrightarrow>
   parse_args (length args) (pre @ concat (map enc_arg args) @ rest) (length pre) acc
     = Inr (Some (acc @ args), length (pre @ concat (map enc_arg args)))"
proof (induction args arbitrary: pre acc)
  case (Cons a args)
  have "parse_arg (pre @ concat (map enc_arg (a # args)) @ rest) (length pre)
      = Inr (Some (a, length (pre @ enc_arg a)))"
    using parse_arg_serialized [of pre a "concat (map enc_arg args) @ rest"] Cons.prems by simp
  then show ?case
    using Cons.IH [of "pre @ enc_arg a" "acc @ [a]"] Cons.prems by simp
qed simp

lemma ParseCommandInto_serialized:
  assumes "args \<noteq> []" and "length (SerializeCommand args @ rest) < 2 ^ 62" and "int (length args) \<le> 2 ^ 44"
  shows "ParseCommandInto (SerializeCommand args @ rest) dst
    = Inr (Some args, length (SerializeCommand args))"
proof -
  let ?h = "CHR ''*'' # Itoa (length args) @ CRLF"
  let ?data = "?h @ concat (map enc_arg args) @ rest"
  have data: "SerializeCommand args @ rest = ?data" by (simp add: SerializeCommand_def)
  have k: "IndexByte ?data LF = Some (length (Itoa (length args)) + 2)"
    using IndexByte_CRLF [OF Itoa_no_LF, of "length args"] by simp
  have cr: "?data ! (length (Itoa (length args)) + 2 - 1) = CR"
    by (simp add: nth_append CRLF_def)
  have d: "parse_digits 0 (take (length (Itoa (length args)) + 2 - 2) (drop 1 ?data)) = Some (int (length args))"
    using assms(3) by (simp add: parse_digits_Itoa)
  have "parse_args (length args) ?data (length ?h) [] = Inr (Some args, length (?h @ concat (map enc_arg args)))"
    using parse_args_serialized [of ?h args rest "[]"] assms(2) data by simp
  then show ?thesis
    unfolding data ParseCommandInto_def parseRESPArrayInto_def k option.case cr d
    using assms(1,3) by (simp add: makeslice_max_def SerializeCommand_def CRLF_def)
qed

text \<open>
  Property C20: the reactor's parser and the buffered reader of the resp package agree on every
  serialized command that has an argument and keeps the reader's limits on the number and length of arguments: both return its arguments, whatever bytes they hold, and both
  stop exactly at its end.
\<close>

theorem ParseCommandInto_agrees_ReadCommand:
  assumes "command_ok args" and "args \<noteq> []" and "length (SerializeCommand args @ rest) < 2 ^ 62"
  shows "ParseCommandInto (SerializeCommand args @ rest) dst = Inr (Some args, length (SerializeCommand args))
    \<and> ReadCommand (SerializeCommand args @ rest) = Inr (args, drop (length (SerializeCommand args)) (SerializeCommand args @ rest))"
proof -
  have "int (length args) \<le> 2 ^ 44" using assms(1) by (simp add: command_ok_def MaxArrayLength_def)
  then show ?thesis
    using ParseCommandInto_serialized [OF assms(2,3)] command_codec.dec_enc [OF assms(1)] by simp
qed

theorem ParseCommandInto_agrees_ReadCommand_witness:
  "ParseCommandInto (SerializeCommand [''SET'', ''k'', [LF, CR]] @ ''x'') None
     = Inr (Some [''SET'', ''k'', [LF, CR]], length (SerializeCommand [''SET'', ''k'', [LF, CR]]))"
proof -
  have "command_ok [''SET'', ''k'', [LF, CR]]" by code_simp
  moreover have "length (SerializeCommand [''SET'', ''k'', [LF, CR]] @ ''x'') < 2 ^ 62" by code_simp
  ultimately show ?thesis
    using ParseCommandInto_agrees_ReadCommand [of "[''SET'', ''k'', [LF, CR]]" "''x''"] by blast
qed

text \<open>
  Property C38: a command line announcing a bulk string of \<open>2 ^ 63 - 1\<close> bytes passes the parser's
  bounds check, since the addition of 2 wraps round, and the next index is out of range: a
  client can make the worker goroutine panic with a few bytes.
\<close>

theorem ParseCommandInto_bulk_overflow:
  "ParseCommandInto (''*1'' @ CRLF @ ''$9223372036854775807'' @ CRLF @ rest) dst = Inl PanicIndex
     \<or> 2 ^ 62 \<le> length (''*1'' @ CRLF @ ''$9223372036854775807'' @ CRLF @ rest)"
proof (cases "length (''*1'' @ CRLF @ ''$9223372036854775807'' @ CRLF @ rest) < 2 ^ 62")
  case True
  have "ParseCommandInto (''*1'' @ CRLF @ ''$9223372036854775807'' @ CRLF) dst = Inl PanicIndex"
    by (cases dst) (simp_all add: ParseCommandInto_def, code_simp+)
  then show ?thesis
    using ParseCommandInto_extend [of "''*1'' @ CRLF @ ''$9223372036854775807'' @ CRLF" dst rest] True by simp
qed simp

subsection \<open>The two serializers agree\<close>

lemma append_length_Itoa: "append_length dst n = dst @ Itoa n @ CRLF"
  by (simp add: append_length_def Itoa_def FormatInt_def FormatUint.simps [of n]
      FormatUint.simps [of "n div 10"] digit_char_def less_mult_imp_div_less)

lemma fold_AppendValue:
  "(\<And>v d. v \<in> set arr \<Longrightarrow> AppendValue d v = d @ SerializeValue v) \<Longrightarrow>
   fold (\<lambda>v d. AppendValue d v) arr dst = dst @ concat (map SerializeValue arr)"
  by (induction arr arbitrary: dst) auto

text \<open>
  Property C21: the zero-allocation serializer of the reactor writes, for every string, error, integer,
  bulk string and array within the reader's limits, exactly the bytes of \<open>SerializeValue\<close> after what the buffer already held.
\<close>

theorem AppendValue_SerializeValue:
  assumes "resp_ok v"
  shows "AppendValue dst v = dst @ SerializeValue v"
  using assms
proof (induction v arbitrary: dst)
  case (Value t str num bulk arr b nul)
  have arr: "t = CHR ''*'' \<Longrightarrow>
      fold (\<lambda>v d. AppendValue d v) arr d = d @ concat (map SerializeValue arr)" for d
    using Value by (intro fold_AppendValue) (auto simp: list_all_iff)
  have "0 \<le> num \<Longrightarrow> num < 10 \<Longrightarrow> FormatInt num = [char_of (48 + nat num)]"
    by (simp add: FormatInt_def FormatUint.simps [of "nat num"] digit_char_def)
  with Value.prems arr show ?case
    by (cases bulk; cases "the bulk")
      (auto simp: append_length_Itoa AppendBulkString_def split: if_splits)
qed

theorem AppendValue_SerializeValue_witness:
  "AppendValue ''x'' (Array [BulkString ''a'', Integer 7]) = ''x'' @ SerializeValue (Array [BulkString ''a'', Integer 7])"
proof -
  have "resp_ok (Array [BulkString ''a'', Integer 7])" by code_simp
  from AppendValue_SerializeValue [OF this] show ?thesis .
qed

subsection \<open>The packed words compare commands without case\<close>

definition ascii_lower :: "char \<Rightarrow> char" where
  "ascii_lower c = (if 65 \<le> byte c \<and> byte c \<le> 90 then char_of (byte c + 32) else c)"

lemma pack_byte:
  fixes a :: "32 word"
  assumes "take_bit 8 a = a"
  shows "take_bit 8 (a OR push_bit 8 b) = a" and "drop_bit 8 (a OR push_bit 8 b) = take_bit 24 b"
proof -
  show "take_bit 8 (a OR push_bit 8 b) = a"
    using assms by (simp add: take_bit_or take_bit_push_bit)
  have "drop_bit 8 a = 0" by (metis assms drop_bit_take_bit take_bit_0 diff_self_eq_0)
  moreover have "drop_bit 8 (push_bit 8 b) = take_bit 24 b"
    by (rule bit_word_eqI) (simp add: bit_simps)
  ultimately show "drop_bit 8 (a OR push_bit 8 b) = take_bit 24 b"
    by (simp add: drop_bit_or)
qed

fun pack :: "32 word list \<Rightarrow> 32 word" where
  "pack [] = 0"
| "pack (a # as) = a OR push_bit 8 (pack as)"

abbreviation is_byte :: "32 word \<Rightarrow> bool" where
  "is_byte a \<equiv> take_bit 8 a = a"

lemma take_bit_mono_eq:
  fixes a :: "32 word"
  assumes "m \<le> n" and "take_bit m a = a"
  shows "take_bit n a = a"
proof -
  have "take_bit n (take_bit m a) = take_bit m a" using assms(1) by (simp add: min_def)
  then show ?thesis unfolding assms(2) .
qed

lemma take_bit_pack: "list_all is_byte as \<Longrightarrow> take_bit (8 * length as) (pack as) = pack as"
proof (induction as)
  case (Cons a as)
  have "take_bit (8 * length (a # as)) a = a"
    by (rule take_bit_mono_eq [of 8]) (use Cons.prems in simp_all)
  moreover have "8 * length (a # as) - 8 = 8 * length as" by simp
  then have "take_bit (8 * length (a # as)) (push_bit 8 (pack as)) = push_bit 8 (pack as)"
    using Cons by (simp only: take_bit_push_bit list.pred_inject)
  ultimately show ?case by (simp only: pack.simps take_bit_or)
qed simp

lemma pack_inj:
  "list_all is_byte as \<Longrightarrow> list_all is_byte bs \<Longrightarrow> length as = length bs \<Longrightarrow> length as \<le> 4 \<Longrightarrow>
   pack as = pack bs \<longleftrightarrow> as = bs"
proof (induction as arbitrary: bs)
  case (Cons a as)
  then obtain b bs' where bs: "bs = b # bs'" by (cases bs) auto
  have t: "take_bit 24 (pack xs) = pack xs" if "list_all is_byte xs" "length xs \<le> 3" for xs
    using take_bit_mono_eq [OF _ take_bit_pack [OF that(1)], of 24] that(2) by simp
  have ab: "is_byte a" "is_byte b" using Cons.prems bs by simp_all
  show ?case
  proof
    assume eq: "pack (a # as) = pack bs"
    have "a = b"
      using pack_byte(1) [OF ab(1), of "pack as"] pack_byte(1) [OF ab(2), of "pack bs'"] eq
      unfolding bs pack.simps by (metis (no_types))
    moreover have "take_bit 24 (pack as) = take_bit 24 (pack bs')"
      using pack_byte(2) [OF ab(1), of "pack as"] pack_byte(2) [OF ab(2), of "pack bs'"] eq
      unfolding bs pack.simps by (metis (no_types))
    then have "pack as = pack bs'" using t [of as] t [of bs'] Cons.prems bs by simp
    moreover have "pack as = pack bs' \<longleftrightarrow> as = bs'"
      by (rule Cons.IH) (use Cons.prems bs in auto)
    ultimately show "a # as = bs" unfolding bs by blast
  qed simp
qed simp

lemma is_byte_cmd_byte: "is_byte (cmd_byte c)" "is_byte (cmd_byte c OR 0x20)"
proof -
  have "take_bit 8 (byte c) = byte c"
    using nat_of_char_less_256 [of c] by (simp add: take_bit_nat_eq_self_iff)
  then show *: "is_byte (cmd_byte c)" by (simp add: cmd_byte_def take_bit_of_nat)
  then show "is_byte (cmd_byte c OR 0x20)" by (simp add: take_bit_or)
qed

lemma cmd_byte_inj: "cmd_byte c = cmd_byte d \<longleftrightarrow> c = d"
proof
  assume "cmd_byte c = cmd_byte d"
  then have "unat (cmd_byte c) = unat (cmd_byte d)" by simp
  moreover have "unat (cmd_byte x) = byte x" for x
    unfolding cmd_byte_def using less_trans [OF nat_of_char_less_256 [of x], of "2 ^ 32"] by (simp add: unat_of_nat mod_less)
  ultimately have "byte c = byte d" by simp
  then show "c = d" by simp
qed simp

lemma cmd_byte_fold: "97 \<le> byte d \<Longrightarrow> byte d \<le> 122 \<Longrightarrow> cmd_byte c OR 0x20 = cmd_byte d \<longleftrightarrow> ascii_lower c = d"
proof -
  assume d: "97 \<le> byte d" "byte d \<le> 122"
  have "\<forall>c. (97 \<le> byte c OR 32 \<and> byte c OR 32 \<le> 122 \<longrightarrow> ascii_lower c = char_of (byte c OR 32)) \<and>
    (97 \<le> byte (ascii_lower c) \<and> byte (ascii_lower c) \<le> 122 \<longrightarrow> ascii_lower c = char_of (byte c OR 32)) \<and>
    byte c OR 32 < 256"
    by code_simp
  note c = this [THEN spec, of c]
  have less: "byte c OR 32 < 256" using c by (rule conjunct2 [THEN conjunct2])
  then have "byte (char_of (byte c OR 32)) = byte c OR 32" by simp
  then have *: "ascii_lower c = d \<longleftrightarrow> char_of (byte c OR 32) = d" using c d by metis
  have "cmd_byte c OR 0x20 = cmd_byte (char_of (byte c OR 32))"
    using less of_nat_or_eq [of "byte c" 32, where 'a = "32 word"] by (simp add: cmd_byte_def)
  then show ?thesis by (simp add: * cmd_byte_inj)
qed

lemma pack_fold:
  assumes "list_all (\<lambda>d. 97 \<le> byte d \<and> byte d \<le> 122) t" and "length s = length t" and "length t \<le> 4"
  shows "pack (map (\<lambda>c. cmd_byte c OR 0x20) s) = pack (map cmd_byte t) \<longleftrightarrow> map ascii_lower s = t"
proof -
  have "pack (map (\<lambda>c. cmd_byte c OR 0x20) s) = pack (map cmd_byte t)
      \<longleftrightarrow> map (\<lambda>c. cmd_byte c OR 0x20) s = map cmd_byte t"
    using assms by (intro pack_inj) (auto simp: list_all_iff is_byte_cmd_byte)
  also have "\<dots> \<longleftrightarrow> map ascii_lower s = t"
    using assms(2,1) by (induction s t rule: list_induct2) (auto simp: cmd_byte_fold)
  finally show ?thesis .
qed

lemma AsCmd3_iff:
  assumes "list_all (\<lambda>d. 97 \<le> byte d \<and> byte d \<le> 122) t" and "length t = 3" and "Cmd3 t \<noteq> 0"
  shows "AsCmd3 s = Cmd3 t \<longleftrightarrow> map ascii_lower s = t"
proof (cases "length s = 3")
  case True
  then obtain a b c where s: "s = [a, b, c]" by (auto simp: numeral_3_eq_3 length_Suc_conv)
  obtain x y z where t: "t = [x, y, z]" using assms(2) by (auto simp: numeral_3_eq_3 length_Suc_conv)
  have "AsCmd3 s = pack (map (\<lambda>c. cmd_byte c OR 0x20) s)" "Cmd3 t = pack (map cmd_byte t)"
    by (simp_all add: s t AsCmd3_def Cmd3_def push_bit_or push_bit_push_bit ac_simps)
  then show ?thesis using pack_fold [OF assms(1), of s] assms(2) True by simp
next
  case False
  then show ?thesis using assms by (auto simp: AsCmd3_def)
qed

lemma AsCmd4_iff:
  assumes "list_all (\<lambda>d. 97 \<le> byte d \<and> byte d \<le> 122) t" and "length t = 4" and "Cmd4 t \<noteq> 0"
  shows "AsCmd4 s = Cmd4 t \<longleftrightarrow> map ascii_lower s = t"
proof (cases "length s = 4")
  case True
  then obtain a b c d where s: "s = [a, b, c, d]" by (auto simp: eval_nat_numeral length_Suc_conv)
  obtain x y z u where t: "t = [x, y, z, u]" using assms(2) by (auto simp: eval_nat_numeral length_Suc_conv)
  have "AsCmd4 s = pack (map (\<lambda>c. cmd_byte c OR 0x20) s)" "Cmd4 t = pack (map cmd_byte t)"
    by (simp_all add: s t AsCmd4_def Cmd4_def push_bit_or push_bit_push_bit ac_simps)
  then show ?thesis using pack_fold [OF assms(1), of s] assms(2) True by simp
next
  case False
  then show ?thesis using assms by (auto simp: AsCmd4_def)
qed

text \<open>
  The packed comparison is exactly a comparison without regard to ASCII case, so the
  fast path recognises \<open>GET\<close>, \<open>SET\<close>, \<open>DEL\<close>, \<open>PING\<close>, \<open>QUIT\<close>, \<open>INCR\<close> and \<open>DECR\<close> in every spelling and
  nothing else.
\<close>

theorem fast_words_case_insensitive:
  "(AsCmd3 s = CmdGet \<longleftrightarrow> map ascii_lower s = ''get'') \<and>
   (AsCmd3 s = CmdSet \<longleftrightarrow> map ascii_lower s = ''set'') \<and>
   (AsCmd3 s = CmdDel \<longleftrightarrow> map ascii_lower s = ''del'') \<and>
   (AsCmd4 s = CmdPing \<longleftrightarrow> map ascii_lower s = ''ping'') \<and>
   (AsCmd4 s = CmdQuit \<longleftrightarrow> map ascii_lower s = ''quit'') \<and>
   (AsCmd4 s = CmdIncr \<longleftrightarrow> map ascii_lower s = ''incr'') \<and>
   (AsCmd4 s = CmdDecr \<longleftrightarrow> map ascii_lower s = ''decr'')"
  unfolding CmdGet_def CmdSet_def CmdDel_def CmdPing_def CmdQuit_def CmdIncr_def CmdDecr_def
  by (intro conjI; (rule AsCmd3_iff AsCmd4_iff; simp add: Cmd3_def Cmd4_def cmd_byte_def))

end
