(* ===== verification/Data_Structs.thy ===== *)
theory Data_Structs
  imports Go_Prelude
begin

text \<open>
  The three small collections of src/internal/datastruct: lists (list.go), sets (set.go) and
  hashes (hash.go). Each method takes the collection and returns its result and the collection
  after it. A set is a Go map to the empty struct, a hash a Go map to strings; ranging over one
  visits its entries in the order of the association list, and every theorem holds for every
  order. A negative count makes \<open>LPop\<close> and \<open>RPop\<close> panic, which is a value of the result.
\<close>

datatype panic = PanicMakesliceLen | PanicSliceBounds | PanicTypeAssertion

subsection \<open>Lists\<close>

type_synonym glist = "string list"

definition NewList :: glist where
  "NewList = []"

definition LPush :: "string list \<Rightarrow> glist \<Rightarrow> int \<times> glist" where
  "LPush values l =
     (let newItems = map (\<lambda>i. values ! (length values - 1 - i)) [0..<length values] @ l
      in (int (length newItems), newItems))"

definition RPush :: "string list \<Rightarrow> glist \<Rightarrow> int \<times> glist" where
  "RPush values l = (let l = l @ values in (int (length l), l))"

definition LPop :: "int \<Rightarrow> glist \<Rightarrow> panic + string list option \<times> glist" where
  "LPop count l =
     (if l = [] then Inr (None, l)
      else
        let count = (if count > int (length l) then int (length l) else count) in
        if count < 0 then Inl PanicMakesliceLen
        else Inr (Some (take (nat count) l), drop (nat count) l))"

definition RPop :: "int \<Rightarrow> glist \<Rightarrow> panic + string list option \<times> glist" where
  "RPop count l =
     (let n = length l in
      if n = 0 then Inr (None, l)
      else
        let count = (if count > int n then int n else count); start = int n - count in
        if count < 0 then Inl PanicMakesliceLen
        else Inr (Some (map (\<lambda>i. l ! (n - 1 - i)) [0..<nat count]), take (nat start) l))"

definition List_Len :: "glist \<Rightarrow> int" where
  "List_Len l = int (length l)"

definition List_Range :: "int \<Rightarrow> int \<Rightarrow> glist \<Rightarrow> string list" where
  "List_Range start stop l =
     (let n = int (length l) in
      if n = 0 then []
      else
        let start = (if start < 0 then n + start else start);
            stop = (if stop < 0 then n + stop else stop);
            start = (if start < 0 then 0 else start);
            stop = (if stop \<ge> n then n - 1 else stop)
        in if start > stop \<or> start \<ge> n then []
           else take (nat (stop + 1 - start)) (drop (nat start) l))"

definition List_Index :: "int \<Rightarrow> glist \<Rightarrow> string option" where
  "List_Index index l =
     (let n = int (length l);
          index = (if index < 0 then n + index else index)
      in if index < 0 \<or> index \<ge> n then None else Some (l ! nat index))"

subsection \<open>Sets\<close>

type_synonym gset = "(string, unit) gomap"

definition NewSet :: gset where
  "NewSet = []"

fun Set_Add :: "string list \<Rightarrow> gset \<Rightarrow> int \<times> gset" where
  "Set_Add [] s = (0, s)"
| "Set_Add (m # ms) s =
     (case gget s m of
        Some _ \<Rightarrow> Set_Add ms s
      | None \<Rightarrow> (case Set_Add ms (gput m () s) of (added, s') \<Rightarrow> (added + 1, s')))"

fun Set_Rem :: "string list \<Rightarrow> gset \<Rightarrow> int \<times> gset" where
  "Set_Rem [] s = (0, s)"
| "Set_Rem (m # ms) s =
     (case gget s m of
        Some _ \<Rightarrow> (case Set_Rem ms (gdel m s) of (removed, s') \<Rightarrow> (removed + 1, s'))
      | None \<Rightarrow> Set_Rem ms s)"

definition IsMember :: "string \<Rightarrow> gset \<Rightarrow> bool" where
  "IsMember m s = (gget s m \<noteq> None)"

definition Members :: "gset \<Rightarrow> string list" where
  "Members s = gkeys s"

definition Card :: "gset \<Rightarrow> int" where
  "Card s = int (length s)"

subsection \<open>Hashes\<close>

type_synonym ghash = "(string, string) gomap"

definition NewHash :: ghash where
  "NewHash = []"

definition Hash_Set :: "string \<Rightarrow> string \<Rightarrow> ghash \<Rightarrow> int \<times> ghash" where
  "Hash_Set field val h = (if gget h field \<noteq> None then 0 else 1, gput field val h)"

fun Hash_MSet :: "(string, string) gomap \<Rightarrow> ghash \<Rightarrow> int \<times> ghash" where
  "Hash_MSet [] h = (0, h)"
| "Hash_MSet ((f, v) # kvs) h =
     (let (added, h') = Hash_MSet kvs (gput f v h)
      in (if gget h f = None then added + 1 else added, h'))"

definition Hash_Get :: "string \<Rightarrow> ghash \<Rightarrow> string option" where
  "Hash_Get field h = gget h field"

fun Hash_Del :: "string list \<Rightarrow> ghash \<Rightarrow> int \<times> ghash" where
  "Hash_Del [] h = (0, h)"
| "Hash_Del (f # fs) h =
     (case gget h f of
        Some _ \<Rightarrow> (case Hash_Del fs (gdel f h) of (count, h') \<Rightarrow> (count + 1, h'))
      | None \<Rightarrow> Hash_Del fs h)"

definition Hash_Exists :: "string \<Rightarrow> ghash \<Rightarrow> bool" where
  "Hash_Exists field h = (gget h field \<noteq> None)"

definition Hash_GetAll :: "ghash \<Rightarrow> (string, string) gomap" where
  "Hash_GetAll h = fold (\<lambda>(f, v) out. gput f v out) h []"

definition Hash_Keys :: "ghash \<Rightarrow> string list" where
  "Hash_Keys h = map fst h"

definition Hash_Vals :: "ghash \<Rightarrow> string list" where
  "Hash_Vals h = map snd h"

definition Hash_Len :: "ghash \<Rightarrow> int" where
  "Hash_Len h = int (length h)"

text \<open>\<open>None\<close> is the error of \<open>strconv.ParseInt\<close>; the sum wraps round at 64 bits.\<close>

definition Hash_IncrBy :: "string \<Rightarrow> int \<Rightarrow> ghash \<Rightarrow> int option \<times> ghash" where
  "Hash_IncrBy field delta h =
     (case (case gget h field of None \<Rightarrow> Some 0 | Some valStr \<Rightarrow> ParseInt valStr) of
        None \<Rightarrow> (None, h)
      | Some current \<Rightarrow>
          (let newVal = wrap64 (current + delta)
           in (Some newVal, gput field (FormatInt newVal) h)))"

subsection \<open>Lists are double-ended queues\<close>

lemma LPush_eq: "LPush values l = (int (length values + length l), rev values @ l)"
proof -
  have "map (\<lambda>i. values ! (length values - 1 - i)) [0..<length values] = rev values"
    by (rule nth_equalityI) (auto simp: rev_nth)
  then show ?thesis by (simp add: LPush_def Let_def)
qed

lemma RPop_eq:
  "RPop count l =
     (if l = [] then Inr (None, l) else if count < 0 then Inl PanicMakesliceLen
      else Inr (Some (take (nat count) (rev l)), take (length l - nat count) l))"
proof -
  have "map (\<lambda>i. l ! (length l - 1 - i)) [0..<k] = take k (rev l)" if "k \<le> length l" for k
    using that by (intro nth_equalityI) (auto simp: rev_nth)
  then show ?thesis by (auto simp: RPop_def Let_def nat_diff_distrib)
qed

lemma LPop_eq:
  "LPop count l =
     (if l = [] then Inr (None, l) else if count < 0 then Inl PanicMakesliceLen
      else Inr (Some (take (nat count) l), drop (nat count) l))"
  by (auto simp: LPop_def Let_def)

text \<open>
  Values pushed at one end come back in order from the other (a queue) and in
  reverse order from the same end (a stack); what was in the list before is untouched.
\<close>

theorem List_deque:
  assumes "vs \<noteq> []"
  shows "LPop (int (length vs)) (snd (LPush vs l)) = Inr (Some (rev vs), l)
    \<and> RPop (int (length vs)) (snd (RPush vs l)) = Inr (Some (rev vs), l)
    \<and> RPop (int (length vs)) (snd (LPush vs [])) = Inr (Some vs, [])
    \<and> LPop (int (length vs)) (snd (RPush vs [])) = Inr (Some vs, [])"
  using assms by (simp add: LPop_eq RPop_eq LPush_eq RPush_def Let_def)

theorem List_deque_witness:
  "LPop (int (length [''a'', ''b''])) (snd (LPush [''a'', ''b''] [''z''])) = Inr (Some (rev [''a'', ''b'']), [''z''])"
  using List_deque [of "[''a'', ''b'']" "[''z'']"] by simp

definition norm_index :: "nat \<Rightarrow> int \<Rightarrow> int" where
  "norm_index n i = (if i < 0 then int n + i else i)"

lemma nths_interval: "nths l {a..<b} = take (b - a) (drop a l)"
proof -
  have "nths l {a..<b} = drop a (take b l)"
  proof (induction l arbitrary: a b)
    case (Cons x l)
    show ?case
    proof (cases b)
      case (Suc b')
      have "{j. Suc j \<in> {a..<b}} = {a - 1..<b'}" using Suc by auto
      then show ?thesis using Cons [of "a - 1" b'] Suc by (cases a) (auto simp: nths_Cons)
    qed simp
  qed simp
  then show ?thesis by (simp add: drop_take)
qed

lemma nths_range: "nths l {k. a \<le> int k \<and> int k \<le> b} = take (nat (b + 1) - nat a) (drop (nat a) l)"
proof -
  have "{k. a \<le> int k \<and> int k \<le> b} = {nat a..<nat (b + 1)}" by auto
  then show ?thesis by (simp add: nths_interval)
qed

text \<open>
  \<open>Range\<close> returns exactly the elements whose index lies between the two bounds, a
  negative bound counting from the end, in order; \<open>Index\<close> is the range of one index.
\<close>

theorem List_Range_spec:
  "List_Range start stop l =
     nths l {k. norm_index (length l) start \<le> int k \<and> int k \<le> norm_index (length l) stop}
   \<and> List_Range i i l = (case List_Index i l of None \<Rightarrow> [] | Some x \<Rightarrow> [x])"
proof -
  let ?a = "norm_index (length l) start" and ?b = "norm_index (length l) stop"
  have "List_Range start stop l = take (nat (?b + 1) - nat ?a) (drop (nat ?a) l)"
    by (auto simp: List_Range_def norm_index_def Let_def intro!: arg_cong2 [where f = take])
  then have "List_Range start stop l = nths l {k. ?a \<le> int k \<and> int k \<le> ?b}"
    by (simp add: nths_range)
  moreover have "List_Range i i l = (case List_Index i l of None \<Rightarrow> [] | Some x \<Rightarrow> [x])"
    by (auto simp: List_Index_def List_Range_def Let_def take_Suc_conv_app_nth hd_drop_conv_nth
        Cons_nth_drop_Suc [symmetric])
  ultimately show ?thesis by blast
qed

subsection \<open>Sets and hashes\<close>

definition map_keys :: "('k, 'v) gomap \<Rightarrow> 'k set" where
  "map_keys m = dom (gget m)"

lemma map_keys_simps [simp]:
  "map_keys [] = {}" "map_keys (gput k v m) = insert k (map_keys m)"
  "gomap_ok m \<Longrightarrow> map_keys (gdel k m) = map_keys m - {k}"
  by (auto simp: map_keys_def gget_gput gget_gdel gomap_simps gget_def split: if_splits)

lemma map_keys_iff: "gget m k = None \<longleftrightarrow> k \<notin> map_keys m" "gget m k \<noteq> None \<longleftrightarrow> k \<in> map_keys m"
  by (auto simp: map_keys_def)

lemma card_map_keys: "gomap_ok m \<Longrightarrow> length m = card (map_keys m)" "finite (map_keys m)"
  by (simp_all add: map_keys_def gm.count_dom dom_gget)

lemma Set_Add_spec:
  "gomap_ok s \<Longrightarrow> Set_Add ms s = (added, s') \<Longrightarrow>
     gomap_ok s' \<and> map_keys s' = map_keys s \<union> set ms \<and> added = Card s' - Card s"
proof (induction ms arbitrary: s added)
  case (Cons m ms)
  show ?case
  proof (cases "gget s m")
    case None
    then obtain a where a: "Set_Add ms (gput m () s) = (a, s')" "added = a + 1"
      using Cons.prems by (auto split: prod.splits)
    have "length (gput m () s) = Suc (length s)" using Cons.prems(1) None by (simp add: gm.count_insert)
    then show ?thesis using Cons.IH [OF _ a(1)] a(2) Cons.prems(1) by (auto simp: Card_def gomap_simps)
  next
    case (Some u)
    then have "m \<in> map_keys s" by (auto simp: map_keys_def)
    then show ?thesis using Cons.IH [of s added] Cons.prems Some by auto
  qed
qed (simp add: Card_def)

lemma Set_Rem_spec:
  "gomap_ok s \<Longrightarrow> Set_Rem ms s = (removed, s') \<Longrightarrow>
     gomap_ok s' \<and> map_keys s' = map_keys s - set ms \<and> removed = Card s - Card s'"
proof (induction ms arbitrary: s removed)
  case (Cons m ms)
  show ?case
  proof (cases "gget s m")
    case (Some u)
    then obtain a where a: "Set_Rem ms (gdel m s) = (a, s')" "removed = a + 1"
      using Cons.prems by (auto split: prod.splits)
    have "Suc (length (gdel m s)) = length s" using Cons.prems(1) Some by (simp add: gm.count_delete_Suc)
    then show ?thesis using Cons.IH [OF _ a(1)] a(2) Cons.prems(1) by (auto simp: Card_def gomap_simps)
  next
    case None
    then have "m \<notin> map_keys s" by (auto simp: map_keys_def)
    then show ?thesis using Cons.IH [of s removed] Cons.prems None by auto
  qed
qed (simp add: Card_def)

lemma Hash_MSet_spec:
  "gomap_ok h \<Longrightarrow> gomap_ok kvs \<Longrightarrow> Hash_MSet kvs h = (added, h') \<Longrightarrow>
     gomap_ok h' \<and> gget h' = gget h ++ gget kvs \<and> added = int (length h') - int (length h)"
proof (induction kvs arbitrary: h added)
  case (Cons fv kvs)
  obtain f v where fv: "fv = (f, v)" by (cases fv)
  obtain a where a: "Hash_MSet kvs (gput f v h) = (a, h')"
    and added: "added = (if gget h f = None then a + 1 else a)"
    using Cons.prems(3) fv by (auto split: prod.splits)
  have ok: "gomap_ok kvs" "f \<notin> map_keys kvs" using Cons.prems(2) fv by (auto simp: gomap_ok_def map_keys_def dom_gget gkeys_def)
  have IH: "gomap_ok h'" "gget h' = gget (gput f v h) ++ gget kvs" "a = int (length h') - int (length (gput f v h))"
    using Cons.IH [OF gomap_ok_gput [OF Cons.prems(1)] ok(1) a] by blast+
  have "gget (gput f v h) ++ gget kvs = gget h ++ gget (fv # kvs)"
    using ok(2) by (auto simp: fun_eq_iff gget_gput fv gget_def map_add_def map_keys_def split: option.split)
  moreover have "length (gput f v h) = (if gget h f = None then Suc (length h) else length h)"
    using Cons.prems(1) by (simp add: gm.count_insert)
  ultimately show ?case using IH added by simp
qed (simp add: map_add_def fun_eq_iff)

text \<open>
  \<open>SADD\<close> and \<open>SREM\<close> compute set union and difference: the members are distinct
  before and after, the reply counts the members that were really added or removed, each once
  however often it is repeated in the arguments, and \<open>IsMember\<close> and \<open>Card\<close> agree with them.
\<close>

theorem Set_semantics:
  assumes "gomap_ok s"
  shows "(case Set_Add ms s of (added, s') \<Rightarrow>
      gomap_ok s' \<and> set (Members s') = set (Members s) \<union> set ms \<and>
      added = int (card (set ms - set (Members s))) \<and> Card s' = int (card (set (Members s'))) \<and>
      (\<forall>m. IsMember m s' \<longleftrightarrow> m \<in> set ms \<or> IsMember m s)) \<and>
    (case Set_Rem ms s of (removed, s') \<Rightarrow>
      gomap_ok s' \<and> set (Members s') = set (Members s) - set ms \<and>
      removed = int (card (set ms \<inter> set (Members s))) \<and>
      (\<forall>m. IsMember m s' \<longleftrightarrow> m \<notin> set ms \<and> IsMember m s))"
proof -
  have mem: "set (Members x) = map_keys x" for x by (simp add: Members_def map_keys_def dom_gget)
  have isM: "IsMember m x \<longleftrightarrow> m \<in> map_keys x" for m x by (auto simp: IsMember_def map_keys_def)
  obtain added s1 where a: "Set_Add ms s = (added, s1)" by (cases "Set_Add ms s")
  obtain removed s2 where r: "Set_Rem ms s = (removed, s2)" by (cases "Set_Rem ms s")
  note A = Set_Add_spec [OF assms a] and R = Set_Rem_spec [OF assms r]
  have "card (map_keys s \<union> set ms) = card (map_keys s) + card (set ms - map_keys s)"
    using card_Un_disjoint [of "map_keys s" "set ms - map_keys s"] by (simp add: card_map_keys)
  moreover have "card (map_keys s) = card (map_keys s - set ms) + card (set ms \<inter> map_keys s)"
    using card_Int_Diff [of "map_keys s" "set ms"] by (simp add: card_map_keys Int_commute)
  ultimately show ?thesis
    using A R card_map_keys(1) [OF assms] card_map_keys(1) [of s1] card_map_keys(1) [of s2]
    by (auto simp: a r mem isM Card_def)
qed

theorem Set_semantics_witness:
  "fst (Set_Add [''a'', ''b'', ''a''] NewSet) = int (card (set [''a'', ''b'', ''a''] - set (Members NewSet)))"
  using Set_semantics [of NewSet "[''a'', ''b'', ''a'']"] by (simp add: NewSet_def case_prod_unfold)

text \<open>
  \<open>HSET\<close> of several fields does not depend on the order in which the runtime ranges
  over the argument map: every order gives the same reply and the same hash, which maps the
  given fields to their new values and keeps the others.
\<close>

theorem Hash_MSet_any_order:
  assumes "gomap_ok h" and "gomap_ok kvs" and "gomap_ok kvs'" and "gget kvs = gget kvs'"
  shows "fst (Hash_MSet kvs h) = fst (Hash_MSet kvs' h)
    \<and> Hash_Get f (snd (Hash_MSet kvs h)) = Hash_Get f (snd (Hash_MSet kvs' h))
    \<and> Hash_Get f (snd (Hash_MSet kvs h)) = (case gget kvs f of None \<Rightarrow> Hash_Get f h | Some v \<Rightarrow> Some v)"
proof -
  obtain a h1 where 1: "Hash_MSet kvs h = (a, h1)" by (cases "Hash_MSet kvs h")
  obtain b h2 where 2: "Hash_MSet kvs' h = (b, h2)" by (cases "Hash_MSet kvs' h")
  note A = Hash_MSet_spec [OF assms(1,2) 1] and B = Hash_MSet_spec [OF assms(1,3) 2]
  have "gget h1 = gget h2" using A B assms(4) by simp
  then have "length h1 = length h2" using A B by (simp add: gm.count_dom)
  then show ?thesis using A B assms(4) by (auto simp: 1 2 Hash_Get_def map_add_def split: option.split)
qed

theorem Hash_MSet_any_order_witness:
  "fst (Hash_MSet [(''a'', ''1''), (''b'', ''2'')] [(''b'', ''0'')])
     = fst (Hash_MSet [(''b'', ''2''), (''a'', ''1'')] [(''b'', ''0'')])"
proof -
  have 1: "gomap_ok [(''b'', ''0'')]" "gomap_ok [(''a'', ''1''), (''b'', ''2'')]"
    "gomap_ok [(''b'', ''2''), (''a'', ''1'')]" by (simp_all add: gomap_ok_def)
  have 2: "gget [(''a'', ''1''), (''b'', ''2'')] = gget [(''b'', ''2''), (''a'', ''1'')]"
    by (auto simp: gget_def fun_eq_iff)
  from Hash_MSet_any_order [OF 1 2] show ?thesis by blast
qed

text \<open>
  \<open>HINCRBY\<close> adds at 64 bits: when it replies a number, that number is the old value
  (0 for a missing field) plus the increment modulo \<open>2 ^ 64\<close>, and reading the field back gives it;
  an error changes nothing.
\<close>

theorem Hash_IncrBy_spec:
  assumes "Hash_IncrBy f d h = (res, h')"
  shows "case res of
      None \<Rightarrow> h' = h \<and> (\<exists>v. Hash_Get f h = Some v \<and> ParseInt v = None)
    | Some n \<Rightarrow> map_option ParseInt (Hash_Get f h') = Some (Some n) \<and>
        (\<exists>old. n = wrap64 (old + d) \<and> (Hash_Get f h = None \<and> old = 0 \<or>
           (\<exists>v. Hash_Get f h = Some v \<and> ParseInt v = Some old))) \<and>
        (\<forall>g. g \<noteq> f \<longrightarrow> Hash_Get g h' = Hash_Get g h)"
  using assms
  by (auto simp: Hash_IncrBy_def Hash_Get_def Let_def gget_gput ParseInt_FormatInt in_int64_wrap64
      split: option.splits)

theorem Hash_IncrBy_spec_witness:
  "Hash_IncrBy ''n'' 1 [(''n'', ''9223372036854775807'')] = (Some (- (2 ^ 63)), [(''n'', ''-9223372036854775808'')]) \<and>
   map_option ParseInt (Hash_Get ''n'' [(''n'', ''-9223372036854775808'')]) = Some (Some (- (2 ^ 63)))"
proof -
  have "Hash_IncrBy ''n'' 1 [(''n'', ''9223372036854775807'')] = (Some (- (2 ^ 63)), [(''n'', ''-9223372036854775808'')])"
    by code_simp
  from this Hash_IncrBy_spec [OF this] show ?thesis unfolding option.case by blast
qed

end
