(* ===== verification/Streams.thy ===== *)
theory Streams
  imports Go_Prelude
begin

text \<open>
  The append-only streams of src/internal/datastruct/stream.go with their consumer groups.

  Identifiers are pairs of unsigned 64-bit numbers (naturals; the increment of a sequence number
  wraps round as in the source) and travel as text, so that every comparison parses them again.
  A pending entry is shared by pointer between its group and its consumer: the stream keeps the
  pending entries in a store and the two lists map an identifier to an address in it, so that an
  update through one list is seen through the other. Wall-clock readings are arguments.
\<close>

subsection \<open>Identifiers\<close>

datatype StreamID = StreamID (Millis: nat) (Seq: nat)

definition StreamID_String :: "StreamID \<Rightarrow> string" where
  "StreamID_String s = FormatUint (Millis s) @ ''-'' @ FormatUint (Seq s)"

definition ParseStreamID :: "string \<Rightarrow> StreamID option" where
  "ParseStreamID ident =
     (case Split ident (CHR ''-'') of
        [p] \<Rightarrow> map_option (\<lambda>m. StreamID m 0) (ParseUint p)
      | [p, q] \<Rightarrow>
          (case ParseUint p of
             None \<Rightarrow> None
           | Some m \<Rightarrow> map_option (StreamID m) (ParseUint q))
      | _ \<Rightarrow> None)"

definition strings_Compare :: "string \<Rightarrow> string \<Rightarrow> int" where
  "strings_Compare a b = (if a = b then 0 else if a < b then -1 else 1)"

definition CompareStreamIDs :: "string \<Rightarrow> string \<Rightarrow> int" where
  "CompareStreamIDs id1 id2 =
     (if id1 = id2 then 0
      else if id1 = ''-'' \<or> id2 = ''+'' then -1
      else if id1 = ''+'' \<or> id2 = ''-'' then 1
      else
        case (ParseStreamID id1, ParseStreamID id2) of
          (Some sid1, Some sid2) \<Rightarrow>
            if Millis sid1 < Millis sid2 then -1
            else if Millis sid1 > Millis sid2 then 1
            else if Seq sid1 < Seq sid2 then -1
            else if Seq sid1 > Seq sid2 then 1
            else 0
        | _ \<Rightarrow> strings_Compare id1 id2)"

subsection \<open>State\<close>

record StreamEntry =
  se_ID :: string
  se_Fields :: "(string, string) gomap"
  se_Order :: "string list"

record PendingEntry =
  pe_ID :: string
  pe_ConsumerName :: string
  pe_DeliveryTime :: int
  pe_DeliveryCount :: int

record Consumer =
  co_Name :: string
  co_SeenTime :: int
  co_PEL :: "(string, nat) gomap"

record ConsumerGroup =
  cg_Name :: string
  cg_LastDeliveredID :: string
  cg_Consumers :: "(string, Consumer) gomap"
  cg_PEL :: "(string, nat) gomap"

record Stream =
  st_entries :: "StreamEntry list"
  st_lastID :: StreamID
  st_groups :: "(string, ConsumerGroup) gomap"
  st_waiters :: "nat list"
  st_pending :: "PendingEntry list"

definition NewStream :: Stream where
  "NewStream = \<lparr>st_entries = [], st_lastID = StreamID 0 0, st_groups = [], st_waiters = [], st_pending = []\<rparr>"

datatype stream_err = ErrInvalidStreamID | ErrGroupExists | ErrGroupNotFound | ErrStreamIDFormat

subsection \<open>Appending, reading and trimming\<close>

definition next_seq :: "StreamID \<Rightarrow> nat" where
  "next_seq lst = (Seq lst + 1) mod 2 ^ 64"

text \<open>The identifier \<open>Add\<close> assigns, given the clock in milliseconds.\<close>

definition assign_id :: "int \<Rightarrow> string \<Rightarrow> Stream \<Rightarrow> stream_err + StreamID" where
  "assign_id now idStr s =
     (let lst = st_lastID s in
      if idStr = ''*'' then
        (let nowMilli = nat (now mod 2 ^ 64) in
         if nowMilli > Millis lst then Inr (StreamID nowMilli 0)
         else Inr (StreamID (Millis lst) (next_seq lst)))
      else if HasSuffix idStr ''-*'' then
        (case ParseUint (TrimSuffix idStr ''-*'') of
           None \<Rightarrow> Inl ErrStreamIDFormat
         | Some m \<Rightarrow>
             if m < Millis lst then Inl ErrInvalidStreamID
             else if m = Millis lst then Inr (StreamID m (next_seq lst))
             else Inr (StreamID m 0))
      else
        (case ParseStreamID idStr of
           None \<Rightarrow> Inl ErrStreamIDFormat
         | Some parsed \<Rightarrow>
             if length (st_entries s) > 0 \<and>
               (Millis parsed < Millis lst \<or> Millis parsed = Millis lst \<and> Seq parsed \<le> Seq lst)
             then Inl ErrInvalidStreamID
             else Inr parsed))"

definition Stream_Add ::
  "int \<Rightarrow> string \<Rightarrow> (string, string) gomap \<Rightarrow> string list \<Rightarrow> Stream \<Rightarrow> stream_err + string \<times> Stream" where
  "Stream_Add now idStr flds order s =
     (case assign_id now idStr s of
        Inl e \<Rightarrow> Inl e
      | Inr sid \<Rightarrow>
          (let assignedID = StreamID_String sid
           in Inr (assignedID,
                s\<lparr>st_lastID := sid,
                  st_entries := st_entries s @ [\<lparr>se_ID = assignedID, se_Fields = flds, se_Order = order\<rparr>],
                  st_waiters := []\<rparr>)))"

definition Stream_Len :: "Stream \<Rightarrow> int" where
  "Stream_Len s = int (length (st_entries s))"

definition Stream_LastID :: "Stream \<Rightarrow> string" where
  "Stream_LastID s = (if st_entries s = [] then ''0-0'' else StreamID_String (st_lastID s))"

definition Stream_FirstID :: "Stream \<Rightarrow> string" where
  "Stream_FirstID s = (case st_entries s of [] \<Rightarrow> ''0-0'' | e # _ \<Rightarrow> se_ID e)"

definition below_start :: "string \<Rightarrow> string \<Rightarrow> bool" where
  "below_start start ident \<longleftrightarrow> start \<noteq> ''-'' \<and> start \<noteq> [] \<and> CompareStreamIDs ident start < 0"

definition above_end :: "string \<Rightarrow> string \<Rightarrow> bool" where
  "above_end endID ident \<longleftrightarrow> endID \<noteq> ''+'' \<and> endID \<noteq> [] \<and> CompareStreamIDs ident endID > 0"

text \<open>The loop shared by \<open>Range\<close> and \<open>RevRange\<close>: \<open>n\<close> is the number of results so far.\<close>

fun range_loop ::
  "(string \<Rightarrow> bool) \<Rightarrow> (string \<Rightarrow> bool) \<Rightarrow> int \<Rightarrow> int \<Rightarrow> StreamEntry list \<Rightarrow> StreamEntry list" where
  "range_loop skip stop count n [] = []"
| "range_loop skip stop count n (e # es) =
     (if skip (se_ID e) then range_loop skip stop count n es
      else if stop (se_ID e) then []
      else if count > 0 \<and> n + 1 \<ge> count then [e]
      else e # range_loop skip stop count (n + 1) es)"

definition Stream_Range :: "string \<Rightarrow> string \<Rightarrow> int \<Rightarrow> Stream \<Rightarrow> StreamEntry list" where
  "Stream_Range start endID count s = range_loop (below_start start) (above_end endID) count 0 (st_entries s)"

definition Stream_RevRange :: "string \<Rightarrow> string \<Rightarrow> int \<Rightarrow> Stream \<Rightarrow> StreamEntry list" where
  "Stream_RevRange endID start count s =
     range_loop (above_end endID) (below_start start) count 0 (rev (st_entries s))"

definition Stream_Read :: "string \<Rightarrow> int \<Rightarrow> Stream \<Rightarrow> StreamEntry list" where
  "Stream_Read lastID count s =
     range_loop (\<lambda>ident. \<not> CompareStreamIDs ident lastID > 0) (\<lambda>_. False) count 0 (st_entries s)"

definition Stream_Delete :: "string list \<Rightarrow> Stream \<Rightarrow> int \<times> Stream" where
  "Stream_Delete ids s =
     (int (length (filter (\<lambda>e. se_ID e \<in> set ids) (st_entries s))),
      s\<lparr>st_entries := filter (\<lambda>e. se_ID e \<notin> set ids) (st_entries s)\<rparr>)"

definition Stream_Trim :: "int \<Rightarrow> Stream \<Rightarrow> int \<times> Stream" where
  "Stream_Trim maxlen s =
     (let curLen = int (length (st_entries s)) in
      if curLen \<le> maxlen \<or> maxlen < 0 then (0, s)
      else
        let evicted = curLen - maxlen
        in (evicted, s\<lparr>st_entries := drop (nat evicted) (st_entries s)\<rparr>))"

definition RegisterWaiter :: "nat \<Rightarrow> Stream \<Rightarrow> Stream" where
  "RegisterWaiter ch s = s\<lparr>st_waiters := st_waiters s @ [ch]\<rparr>"

definition CancelWaiter :: "nat \<Rightarrow> Stream \<Rightarrow> Stream" where
  "CancelWaiter ch s = s\<lparr>st_waiters := remove1 ch (st_waiters s)\<rparr>"

subsection \<open>Consumer groups\<close>

definition group_start :: "string \<Rightarrow> Stream \<Rightarrow> string" where
  "group_start ident s =
     (if ident = ''$'' then (if st_entries s \<noteq> [] then StreamID_String (st_lastID s) else ''0-0'') else ident)"

definition CreateGroup :: "string \<Rightarrow> string \<Rightarrow> Stream \<Rightarrow> stream_err option \<times> Stream" where
  "CreateGroup name startID s =
     (if gget (st_groups s) name \<noteq> None then (Some ErrGroupExists, s)
      else (None, s\<lparr>st_groups := gput name
              \<lparr>cg_Name = name, cg_LastDeliveredID = group_start startID s, cg_Consumers = [], cg_PEL = []\<rparr>
              (st_groups s)\<rparr>))"

definition DestroyGroup :: "string \<Rightarrow> Stream \<Rightarrow> bool \<times> Stream" where
  "DestroyGroup name s =
     (if gget (st_groups s) name \<noteq> None then (True, s\<lparr>st_groups := gdel name (st_groups s)\<rparr>)
      else (False, s))"

definition SetGroupID :: "string \<Rightarrow> string \<Rightarrow> Stream \<Rightarrow> stream_err option \<times> Stream" where
  "SetGroupID name ident s =
     (case gget (st_groups s) name of
        None \<Rightarrow> (Some ErrGroupNotFound, s)
      | Some g \<Rightarrow>
          (None, s\<lparr>st_groups := gput name (g\<lparr>cg_LastDeliveredID := group_start ident s\<rparr>) (st_groups s)\<rparr>))"

definition DeleteConsumer :: "string \<Rightarrow> string \<Rightarrow> Stream \<Rightarrow> int \<times> Stream" where
  "DeleteConsumer groupName consumerName s =
     (case gget (st_groups s) groupName of
        None \<Rightarrow> (0, s)
      | Some g \<Rightarrow>
          (case gget (cg_Consumers g) consumerName of
             None \<Rightarrow> (0, s)
           | Some c \<Rightarrow>
               (int (length (co_PEL c)),
                s\<lparr>st_groups := gput groupName
                    (g\<lparr>cg_PEL := fold gdel (gkeys (co_PEL c)) (cg_PEL g),
                       cg_Consumers := gdel consumerName (cg_Consumers g)\<rparr>)
                    (st_groups s)\<rparr>)))"

text \<open>
  The delivery loop of \<open>ReadGroup\<close> for the identifier \<open>>\<close>. It carries the group, the consumer and
  the store of pending entries; the last delivered identifier moves inside the loop.
\<close>

fun deliver_new ::
  "int \<Rightarrow> string \<Rightarrow> bool \<Rightarrow> int \<Rightarrow> int \<Rightarrow> StreamEntry list \<Rightarrow> ConsumerGroup \<Rightarrow> Consumer \<Rightarrow> PendingEntry list \<Rightarrow>
     StreamEntry list \<times> ConsumerGroup \<times> Consumer \<times> PendingEntry list" where
  "deliver_new now consumerName noAck count n [] g c store = ([], g, c, store)"
| "deliver_new now consumerName noAck count n (e # es) g c store =
     (if CompareStreamIDs (se_ID e) (cg_LastDeliveredID g) > 0 then
        (let g = g\<lparr>cg_LastDeliveredID := se_ID e\<rparr>;
             pe = \<lparr>pe_ID = se_ID e, pe_ConsumerName = consumerName, pe_DeliveryTime = now, pe_DeliveryCount = 1\<rparr>;
             (g, c, store) =
               (if noAck then (g, c, store)
                else (g\<lparr>cg_PEL := gput (se_ID e) (length store) (cg_PEL g)\<rparr>,
                      c\<lparr>co_PEL := gput (se_ID e) (length store) (co_PEL c)\<rparr>,
                      store @ [pe]))
         in if count > 0 \<and> n + 1 \<ge> count then ([e], g, c, store)
            else
              case deliver_new now consumerName noAck count (n + 1) es g c store of
                (rs, g, c, store) \<Rightarrow> (e # rs, g, c, store))
      else deliver_new now consumerName noAck count n es g c store)"

text \<open>\<open>sort.Slice\<close> by identifier; the identifiers of one list are distinct keys of a map.\<close>

fun insert_by_id :: "string \<Rightarrow> string list \<Rightarrow> string list" where
  "insert_by_id x [] = [x]"
| "insert_by_id x (y # ys) = (if CompareStreamIDs x y < 0 then x # y # ys else y # insert_by_id x ys)"

definition sort_ids :: "string list \<Rightarrow> string list" where
  "sort_ids ids = foldr insert_by_id ids []"

text \<open>The loop over a consumer's own pending identifiers; it touches the shared entries.\<close>

fun redeliver ::
  "int \<Rightarrow> bool \<Rightarrow> int \<Rightarrow> int \<Rightarrow> StreamEntry list \<Rightarrow> Consumer \<Rightarrow> string list \<Rightarrow> PendingEntry list \<Rightarrow>
     StreamEntry list \<times> PendingEntry list" where
  "redeliver now noAck count n entries c [] store = ([], store)"
| "redeliver now noAck count n entries c (pid # pids) store =
     (case find (\<lambda>e. se_ID e = pid) (rev entries) of
        None \<Rightarrow> redeliver now noAck count n entries c pids store
      | Some e \<Rightarrow>
          (let store =
             (if noAck then store
              else
                case gget (co_PEL c) pid of
                  None \<Rightarrow> store
                | Some a \<Rightarrow>
                    store[a := (store ! a)\<lparr>pe_DeliveryCount := pe_DeliveryCount (store ! a) + 1,
                                          pe_DeliveryTime := now\<rparr>])
           in if count > 0 \<and> n + 1 \<ge> count then ([e], store)
              else
                case redeliver now noAck count (n + 1) entries c pids store of
                  (rs, store) \<Rightarrow> (e # rs, store)))"

definition ReadGroup ::
  "int \<Rightarrow> string \<Rightarrow> string \<Rightarrow> string \<Rightarrow> int \<Rightarrow> bool \<Rightarrow> Stream \<Rightarrow> stream_err + StreamEntry list \<times> Stream" where
  "ReadGroup now groupName consumerName ident count noAck s =
     (case gget (st_groups s) groupName of
        None \<Rightarrow> Inl ErrGroupNotFound
      | Some g \<Rightarrow>
          (let c = (case gget (cg_Consumers g) consumerName of
                      None \<Rightarrow> \<lparr>co_Name = consumerName, co_SeenTime = now, co_PEL = []\<rparr>
                    | Some c \<Rightarrow> c\<lparr>co_SeenTime := now\<rparr>)
           in if ident = ''>'' then
                (case deliver_new now consumerName noAck count 0 (st_entries s) g c (st_pending s) of
                   (rs, g, c, store) \<Rightarrow>
                     Inr (rs, s\<lparr>st_groups := gput groupName
                                  (g\<lparr>cg_Consumers := gput consumerName c (cg_Consumers g)\<rparr>) (st_groups s),
                                st_pending := store\<rparr>))
              else
                (let pids = sort_ids (filter (\<lambda>pid. CompareStreamIDs pid ident \<ge> 0) (gkeys (co_PEL c)))
                 in case redeliver now noAck count 0 (st_entries s) c pids (st_pending s) of
                      (rs, store) \<Rightarrow>
                        Inr (rs, s\<lparr>st_groups := gput groupName
                                     (g\<lparr>cg_Consumers := gput consumerName c (cg_Consumers g)\<rparr>) (st_groups s),
                                   st_pending := store\<rparr>))))"

text \<open>The loop of \<open>Ack\<close>: the consumer whose list is cleaned is the one the shared entry names.\<close>

fun ack_loop :: "PendingEntry list \<Rightarrow> string list \<Rightarrow> ConsumerGroup \<Rightarrow> int \<times> ConsumerGroup" where
  "ack_loop store [] g = (0, g)"
| "ack_loop store (ident # ids) g =
     (case gget (cg_PEL g) ident of
        None \<Rightarrow> ack_loop store ids g
      | Some a \<Rightarrow>
          (let g = g\<lparr>cg_PEL := gdel ident (cg_PEL g)\<rparr>;
               name = pe_ConsumerName (store ! a);
               g = (case gget (cg_Consumers g) name of
                      None \<Rightarrow> g
                    | Some c \<Rightarrow>
                        g\<lparr>cg_Consumers := gput name (c\<lparr>co_PEL := gdel ident (co_PEL c)\<rparr>) (cg_Consumers g)\<rparr>)
           in case ack_loop store ids g of (acked, g) \<Rightarrow> (acked + 1, g)))"

definition Ack :: "string \<Rightarrow> string list \<Rightarrow> Stream \<Rightarrow> int \<times> Stream" where
  "Ack groupName ids s =
     (case gget (st_groups s) groupName of
        None \<Rightarrow> (0, s)
      | Some g \<Rightarrow>
          (case ack_loop (st_pending s) ids g of
             (acked, g) \<Rightarrow> (acked, s\<lparr>st_groups := gput groupName g (st_groups s)\<rparr>)))"

text \<open>The pending summary: the count, the least and greatest identifier and a count per consumer.\<close>

definition summary_step ::
  "PendingEntry list \<Rightarrow> string \<times> nat \<Rightarrow> string \<times> string \<times> (string, int) gomap \<Rightarrow>
     string \<times> string \<times> (string, int) gomap" where
  "summary_step store p acc =
     (case p of (ident, a) \<Rightarrow> case acc of (minID, maxID, counts) \<Rightarrow>
        (if minID = [] \<or> CompareStreamIDs ident minID < 0 then ident else minID,
         if maxID = [] \<or> CompareStreamIDs ident maxID > 0 then ident else maxID,
         (let name = pe_ConsumerName (store ! a);
              n = (case gget counts name of None \<Rightarrow> 0 | Some n \<Rightarrow> n)
          in gput name (n + 1) counts)))"

definition GetPendingSummary ::
  "string \<Rightarrow> Stream \<Rightarrow> stream_err + int \<times> string \<times> string \<times> (string, int) gomap" where
  "GetPendingSummary groupName s =
     (case gget (st_groups s) groupName of
        None \<Rightarrow> Inl ErrGroupNotFound
      | Some g \<Rightarrow>
          (let total = int (length (cg_PEL g)) in
           if total = 0 then Inr (0, [], [], [])
           else Inr (total, fold (summary_step (st_pending s)) (cg_PEL g) ([], [], []))))"

fun insert_pe :: "PendingEntry \<Rightarrow> PendingEntry list \<Rightarrow> PendingEntry list" where
  "insert_pe x [] = [x]"
| "insert_pe x (y # ys) =
     (if CompareStreamIDs (pe_ID x) (pe_ID y) < 0 then x # y # ys else y # insert_pe x ys)"

definition GetPendingDetailed ::
  "int \<Rightarrow> string \<Rightarrow> string \<Rightarrow> string \<Rightarrow> int \<Rightarrow> string \<Rightarrow> int \<Rightarrow> Stream \<Rightarrow> stream_err + PendingEntry list" where
  "GetPendingDetailed now groupName start endID count consumerFilter minIdle s =
     (case gget (st_groups s) groupName of
        None \<Rightarrow> Inl ErrGroupNotFound
      | Some g \<Rightarrow>
          (let pes = map (\<lambda>(_, a). st_pending s ! a) (cg_PEL g);
               filtered = filter (\<lambda>pe.
                 \<not> (consumerFilter \<noteq> [] \<and> pe_ConsumerName pe \<noteq> consumerFilter) \<and>
                 \<not> below_start start (pe_ID pe) \<and> \<not> above_end endID (pe_ID pe) \<and>
                 \<not> (minIdle > 0 \<and> now - pe_DeliveryTime pe < minIdle)) pes;
               sorted = foldr insert_pe filtered []
           in Inr (if count > 0 \<and> int (length sorted) > count then take (nat count) sorted else sorted)))"

record GroupInfo =
  gi_name :: string
  gi_consumers :: nat
  gi_pending :: nat
  gi_last_delivered_id :: string

definition GetGroupsInfo :: "Stream \<Rightarrow> GroupInfo list" where
  "GetGroupsInfo s =
     map (\<lambda>(_, g). \<lparr>gi_name = cg_Name g, gi_consumers = length (cg_Consumers g),
                    gi_pending = length (cg_PEL g), gi_last_delivered_id = cg_LastDeliveredID g\<rparr>)
       (st_groups s)"

definition GetConsumersInfo :: "int \<Rightarrow> string \<Rightarrow> Stream \<Rightarrow> stream_err + (string \<times> nat \<times> int) list" where
  "GetConsumersInfo now groupName s =
     (case gget (st_groups s) groupName of
        None \<Rightarrow> Inl ErrGroupNotFound
      | Some g \<Rightarrow> Inr (map (\<lambda>(_, c). (co_Name c, length (co_PEL c), now - co_SeenTime c)) (cg_Consumers g)))"

subsection \<open>Identifiers: round trip and order\<close>

definition sid_ok :: "StreamID \<Rightarrow> bool" where
  "sid_ok a \<longleftrightarrow> Millis a < 2 ^ 64 \<and> Seq a < 2 ^ 64"

definition sid_lt :: "StreamID \<Rightarrow> StreamID \<Rightarrow> bool" where
  "sid_lt a b \<longleftrightarrow> Millis a < Millis b \<or> Millis a = Millis b \<and> Seq a < Seq b"

lemma sid_lt_trans: "sid_lt a b \<Longrightarrow> sid_lt b c \<Longrightarrow> sid_lt a c"
  by (auto simp: sid_lt_def)

lemma sid_lt_irrefl [simp]: "\<not> sid_lt a a"
  by (simp add: sid_lt_def)

lemma sid_linear: "sid_lt a b \<or> a = b \<or> sid_lt b a"
  by (cases a; cases b) (auto simp: sid_lt_def)

lemma sid_lt_asym: "sid_lt a b \<Longrightarrow> \<not> sid_lt b a"
  by (auto simp: sid_lt_def)

lemma ParseUint_less: "ParseUint p = Some n \<Longrightarrow> n < 2 ^ 64"
  by (auto simp: ParseUint_def split: if_splits option.splits)

lemma ParseStreamID_ok: "ParseStreamID x = Some a \<Longrightarrow> sid_ok a"
  by (auto simp: ParseStreamID_def sid_ok_def dest!: ParseUint_less split: list.splits option.splits)

lemma FormatUint_no_dash: "CHR ''-'' \<notin> set (FormatUint n)"
  using FormatUint_digits is_digit_not_sign by blast

lemma ParseStreamID_String [simp]:
  assumes "sid_ok a"
  shows "ParseStreamID (StreamID_String a) = Some a"
proof -
  have "Split (StreamID_String a) (CHR ''-'') = [FormatUint (Millis a), FormatUint (Seq a)]"
    using Split_sep [OF FormatUint_no_dash, of "Millis a"] Split_no_sep [OF FormatUint_no_dash, of "Seq a"]
    by (simp add: StreamID_String_def)
  then show ?thesis
    using assms by (simp add: ParseStreamID_def ParseUint_FormatUint sid_ok_def)
qed

lemma StreamID_String_not_bound [simp]: "StreamID_String a \<noteq> ''-''" "StreamID_String a \<noteq> ''+''"
  using FormatUint_hd [of "Millis a"] FormatUint_nonempty [of "Millis a"]
  by (cases "FormatUint (Millis a)"; fastforce simp: StreamID_String_def is_digit_def)+

definition sid_cmp :: "StreamID \<Rightarrow> StreamID \<Rightarrow> int" where
  "sid_cmp a b = (if sid_lt a b then -1 else if sid_lt b a then 1 else 0)"

lemma sid_cmp_sign: "sid_cmp a b < 0 \<longleftrightarrow> sid_lt a b" "0 < sid_cmp a b \<longleftrightarrow> sid_lt b a"
  using sid_lt_asym [of a b] by (auto simp: sid_cmp_def)

lemma Compare_parsed:
  assumes "sid_ok a" and "ParseStreamID x = Some b" and "x \<noteq> ''-''" and "x \<noteq> ''+''"
  shows "CompareStreamIDs (StreamID_String a) x = sid_cmp a b"
proof (cases "StreamID_String a = x")
  case True
  then have "a = b" using assms ParseStreamID_String by fastforce
  then show ?thesis using True by (simp add: CompareStreamIDs_def sid_cmp_def)
next
  case False
  then show ?thesis
    using assms by (cases a; cases b) (auto simp: CompareStreamIDs_def sid_cmp_def sid_lt_def)
qed

lemma ParseStreamID_bounds [simp]: "ParseStreamID ''-'' = None" "ParseStreamID ''+'' = None" "ParseStreamID [] = None"
  by (simp_all add: ParseStreamID_def ParseUint_def is_digit_def)

lemma Compare_sid:
  "sid_ok a \<Longrightarrow> ParseStreamID x = Some b \<Longrightarrow> CompareStreamIDs (StreamID_String a) x = sid_cmp a b"
  by (rule Compare_parsed) auto

subsection \<open>The invariant of a stream\<close>

definition entry_sid :: "StreamEntry \<Rightarrow> StreamID" where
  "entry_sid e = the (ParseStreamID (se_ID e))"

definition entry_ok :: "StreamEntry \<Rightarrow> bool" where
  "entry_ok e \<longleftrightarrow> ParseStreamID (se_ID e) \<noteq> None \<and> se_ID e = StreamID_String (entry_sid e)"

text \<open>Canonical, strictly increasing identifiers, none above the last one assigned.\<close>

definition stream_ok :: "Stream \<Rightarrow> bool" where
  "stream_ok s \<longleftrightarrow>
     list_all entry_ok (st_entries s) \<and> sorted_wrt (\<lambda>a b. sid_lt (entry_sid a) (entry_sid b)) (st_entries s) \<and>
     sid_ok (st_lastID s) \<and> list_all (\<lambda>e. \<not> sid_lt (st_lastID s) (entry_sid e)) (st_entries s)"

lemma entry_okD: "entry_ok e \<Longrightarrow> sid_ok (entry_sid e) \<and> ParseStreamID (se_ID e) = Some (entry_sid e) \<and>
    se_ID e = StreamID_String (entry_sid e)"
  by (auto simp: entry_ok_def entry_sid_def dest: ParseStreamID_ok)

lemma Compare_entry:
  "entry_ok e \<Longrightarrow> ParseStreamID x = Some b \<Longrightarrow> CompareStreamIDs (se_ID e) x = sid_cmp (entry_sid e) b"
  using Compare_sid [of "entry_sid e" x b] entry_okD [of e] by simp

lemma entry_ok_new:
  "sid_ok a \<Longrightarrow> entry_ok \<lparr>se_ID = StreamID_String a, se_Fields = f, se_Order = ord\<rparr> \<and>
     entry_sid \<lparr>se_ID = StreamID_String a, se_Fields = f, se_Order = ord\<rparr> = a"
  by (simp add: entry_ok_def entry_sid_def)

lemma stream_ok_New [simp]: "stream_ok NewStream"
  by (simp add: stream_ok_def NewStream_def sid_ok_def)

lemma assign_id_cases:
  assumes "assign_id now idStr s = Inr a" and "sid_ok (st_lastID s)" and "Seq (st_lastID s) < 2 ^ 64 - 1"
  shows "sid_ok a" and "sid_lt (st_lastID s) a \<or> st_entries s = []"
proof -
  let ?l = "st_lastID s"
  have nxt: "next_seq ?l = Seq ?l + 1" using assms(3) by (simp add: next_seq_def)
  have now: "nat (now mod 2 ^ 64) < 2 ^ 64" by (simp add: nat_less_iff)
  consider (auto) "idStr = ''*''"
      "a = (if nat (now mod 2 ^ 64) > Millis ?l then StreamID (nat (now mod 2 ^ 64)) 0
            else StreamID (Millis ?l) (next_seq ?l))"
    | (millis) m where "ParseUint (TrimSuffix idStr ''-*'') = Some m" "\<not> m < Millis ?l"
      "a = (if m = Millis ?l then StreamID m (next_seq ?l) else StreamID m 0)"
    | (full) "ParseStreamID idStr = Some a"
      "\<not> (length (st_entries s) > 0 \<and> (Millis a < Millis ?l \<or> Millis a = Millis ?l \<and> Seq a \<le> Seq ?l))"
    using assms(1) unfolding assign_id_def Let_def
    by (auto split: if_splits option.splits)
  then show "sid_ok a" and "sid_lt (st_lastID s) a \<or> st_entries s = []"
  proof (atomize(full), cases)
    case auto
    then show "sid_ok a \<and> (sid_lt (st_lastID s) a \<or> st_entries s = [])"
      using assms(2,3) now nxt by (simp add: sid_ok_def sid_lt_def)
  next
    case millis
    then show "sid_ok a \<and> (sid_lt (st_lastID s) a \<or> st_entries s = [])"
      using assms(2,3) nxt ParseUint_less [OF millis(1)] by (simp add: sid_ok_def sid_lt_def)
  next
    case full
    then show "sid_ok a \<and> (sid_lt (st_lastID s) a \<or> st_entries s = [])"
      using ParseStreamID_ok [OF full(1)] by (auto simp: sid_lt_def)
  qed
qed

lemma stream_ok_Add:
  assumes ok: "stream_ok s" and seq: "Seq (st_lastID s) < 2 ^ 64 - 1"
    and add: "Stream_Add now idStr flds order s = Inr (ident, s')"
  shows "stream_ok s'" and "\<forall>e \<in> set (st_entries s). CompareStreamIDs (se_ID e) ident < 0"
proof -
  obtain a where a: "assign_id now idStr s = Inr a" and ident: "ident = StreamID_String a"
    and s': "st_entries s' = st_entries s @ [\<lparr>se_ID = StreamID_String a, se_Fields = flds, se_Order = order\<rparr>]"
      "st_lastID s' = a"
    using add by (auto simp: Stream_Add_def Let_def split: sum.splits)
  have l: "sid_ok (st_lastID s)" using ok by (simp add: stream_ok_def)
  note A = assign_id_cases [OF a l seq]
  have less: "sid_lt (entry_sid e) a" if "e \<in> set (st_entries s)" for e
  proof -
    have "\<not> sid_lt (st_lastID s) (entry_sid e)" "sid_lt (st_lastID s) a"
      using ok that A(2) by (auto simp: stream_ok_def list_all_iff)
    then show ?thesis using sid_linear [of "st_lastID s" "entry_sid e"] sid_lt_trans by metis
  qed
  then show "stream_ok s'"
    using ok A(1) entry_ok_new [OF A(1), of flds order]
    by (auto simp: stream_ok_def s' sorted_wrt_append list_all_iff dest: sid_lt_asym)
  show "\<forall>e \<in> set (st_entries s). CompareStreamIDs (se_ID e) ident < 0"
    using ok less A(1) Compare_entry ParseStreamID_String
    by (fastforce simp: stream_ok_def list_all_iff ident sid_cmp_def)
qed

lemma stream_ok_filter: "stream_ok s \<Longrightarrow> stream_ok (s\<lparr>st_entries := filter P (st_entries s)\<rparr>)"
  by (auto simp: stream_ok_def list_all_iff sorted_wrt_filter)

lemma stream_ok_drop: "stream_ok s \<Longrightarrow> stream_ok (s\<lparr>st_entries := drop n (st_entries s)\<rparr>)"
  by (auto simp: stream_ok_def list_all_iff sorted_wrt_drop dest: in_set_dropD)

text \<open>
  Property C10: a stream stays strictly ordered. As long as the sequence number has room, \<open>XADD\<close>
  with any form of identifier keeps the identifiers canonical and strictly increasing and
  assigns one above every entry present; \<open>XDEL\<close> and \<open>XTRIM\<close> keep the order and report the
  number of entries they removed.
\<close>

theorem Stream_order_invariant:
  assumes "stream_ok s"
  shows "(\<forall>now idStr flds order ident s'. Seq (st_lastID s) < 2 ^ 64 - 1 \<longrightarrow>
      Stream_Add now idStr flds order s = Inr (ident, s') \<longrightarrow>
      stream_ok s' \<and> Stream_Len s' = Stream_Len s + 1 \<and> Stream_LastID s' = ident \<and>
      (\<forall>e \<in> set (st_entries s). CompareStreamIDs (se_ID e) ident < 0)) \<and>
    (case Stream_Delete ids s of (n, s') \<Rightarrow> stream_ok s' \<and> Stream_Len s' = Stream_Len s - n) \<and>
    (case Stream_Trim maxlen s of (n, s') \<Rightarrow> stream_ok s' \<and> Stream_Len s' = Stream_Len s - n \<and>
       (0 \<le> maxlen \<longrightarrow> Stream_Len s' \<le> maxlen))"
proof (intro conjI allI impI)
  fix now idStr flds order ident s'
  assume "Seq (st_lastID s) < 2 ^ 64 - 1" and "Stream_Add now idStr flds order s = Inr (ident, s')"
  from stream_ok_Add [OF assms this] this(2)
  show "stream_ok s'" "\<forall>e \<in> set (st_entries s). CompareStreamIDs (se_ID e) ident < 0"
    "Stream_Len s' = Stream_Len s + 1" "Stream_LastID s' = ident"
    by (auto simp: Stream_Add_def Let_def Stream_Len_def Stream_LastID_def split: sum.splits)
next
  show "case Stream_Delete ids s of (n, s') \<Rightarrow> stream_ok s' \<and> Stream_Len s' = Stream_Len s - n"
    using stream_ok_filter [OF assms] sum_length_filter_compl [of "\<lambda>e. se_ID e \<in> set ids" "st_entries s"]
    by (simp add: Stream_Delete_def Stream_Len_def)
  show "case Stream_Trim maxlen s of (n, s') \<Rightarrow> stream_ok s' \<and> Stream_Len s' = Stream_Len s - n \<and>
       (0 \<le> maxlen \<longrightarrow> Stream_Len s' \<le> maxlen)"
    using stream_ok_drop [OF assms] assms by (auto simp: Stream_Trim_def Stream_Len_def Let_def)
qed

theorem Stream_order_invariant_witness:
  "case Stream_Add 5 ''*'' [] [] NewStream of Inr (ident, s') \<Rightarrow>
     ident = ''5-0'' \<and> stream_ok s' \<and> Stream_Len s' = Stream_Len NewStream + 1 | Inl _ \<Rightarrow> False"
proof -
  have add: "Stream_Add 5 ''*'' [] [] NewStream = Inr (''5-0'',
      \<lparr>st_entries = [\<lparr>se_ID = ''5-0'', se_Fields = [], se_Order = []\<rparr>], st_lastID = StreamID 5 0,
       st_groups = [], st_waiters = [], st_pending = []\<rparr>)"
    by code_simp
  have "Seq (st_lastID NewStream) < 2 ^ 64 - 1" by (simp add: NewStream_def)
  from Stream_order_invariant [OF stream_ok_New, THEN conjunct1, rule_format, OF this add]
  show ?thesis unfolding add by simp
qed

subsection \<open>Ranges\<close>

text \<open>A bound that is empty, open or a well-formed identifier.\<close>

definition bound_ok :: "string \<Rightarrow> bool" where
  "bound_ok x \<longleftrightarrow> x = [] \<or> x = ''-'' \<or> x = ''+'' \<or> ParseStreamID x \<noteq> None"

lemma entry_not_bound: "entry_ok e \<Longrightarrow> se_ID e \<noteq> ''-'' \<and> se_ID e \<noteq> ''+''"
  using StreamID_String_not_bound [of "entry_sid e"] by (simp add: entry_ok_def)

lemma below_start_mono:
  assumes "bound_ok x" and "entry_ok e" and "entry_ok e'" and "sid_lt (entry_sid e) (entry_sid e')"
    and "below_start x (se_ID e')"
  shows "below_start x (se_ID e)"
proof (cases "ParseStreamID x")
  case None
  then show ?thesis
    using assms(1,5) entry_not_bound [OF assms(2)] entry_not_bound [OF assms(3)]
    unfolding bound_ok_def below_start_def CompareStreamIDs_def by (elim disjE) simp_all
next
  case (Some b)
  then show ?thesis
    using assms(5) sid_lt_trans [OF assms(4)] Compare_entry [OF assms(2) Some] Compare_entry [OF assms(3) Some]
    by (simp add: below_start_def sid_cmp_sign)
qed

lemma above_end_mono:
  assumes "bound_ok x" and "entry_ok e" and "entry_ok e'" and "sid_lt (entry_sid e) (entry_sid e')"
    and "above_end x (se_ID e)"
  shows "above_end x (se_ID e')"
proof (cases "ParseStreamID x")
  case None
  then show ?thesis
    using assms(1,5) entry_not_bound [OF assms(2)] entry_not_bound [OF assms(3)]
    unfolding bound_ok_def above_end_def CompareStreamIDs_def by (elim disjE) simp_all
next
  case (Some b)
  then show ?thesis
    using assms(5) sid_lt_trans [OF _ assms(4)] Compare_entry [OF assms(2) Some] Compare_entry [OF assms(3) Some]
    by (simp add: above_end_def sid_cmp_sign)
qed

definition limit :: "int \<Rightarrow> 'a list \<Rightarrow> 'a list" where
  "limit count xs = (if count > 0 then take (nat count) xs else xs)"

text \<open>
  The loop equals a filter and a limit when the entries it skips come first and those it stops
  at come last.
\<close>

lemma range_loop_filter:
  assumes "sorted_wrt (\<lambda>e e'. stop (se_ID e) \<longrightarrow> stop (se_ID e')) es" and "0 \<le> n" and "count > 0 \<longrightarrow> n < count"
  shows "range_loop skip stop count n es =
    limit (if count > 0 then count - n else 0) (filter (\<lambda>e. \<not> skip (se_ID e) \<and> \<not> stop (se_ID e)) es)"
  using assms
proof (induction es arbitrary: n)
  case (Cons e es)
  show ?case
  proof (cases "skip (se_ID e)")
    case False
    show ?thesis
    proof (cases "stop (se_ID e)")
      case True
      then have "filter (\<lambda>e. \<not> skip (se_ID e) \<and> \<not> stop (se_ID e)) es = []"
        using Cons.prems(1) by (auto simp: filter_empty_conv)
      then show ?thesis using False True by (simp add: limit_def)
    next
      case go: False
      show ?thesis
      proof (cases "count > 0 \<and> n + 1 \<ge> count")
        case True
        then have "count - n = 1" using Cons.prems by auto
        then show ?thesis using False go True by (simp add: limit_def)
      next
        case more: False
        have "nat (count - n) = Suc (nat (count - (n + 1)))" if "count > 0" using that more Cons.prems(3) by auto
        then show ?thesis
          using Cons.IH [of "n + 1"] Cons.prems False go more by (auto simp: limit_def)
      qed
    qed
  qed (use Cons in simp)
qed (simp add: limit_def)

text \<open>
  For well-formed bounds \<open>XRANGE\<close> returns exactly the entries between them, oldest
  first, \<open>XREVRANGE\<close> the same entries newest first, and \<open>XREAD\<close> the entries above the given
  identifier, each cut after \<open>count\<close> entries when \<open>count\<close> is positive: leaving the loops early
  loses nothing.
\<close>

theorem Stream_Range_spec:
  assumes "stream_ok s" and "bound_ok start" and "bound_ok endID"
  shows "Stream_Range start endID count s = limit count
      (filter (\<lambda>e. \<not> below_start start (se_ID e) \<and> \<not> above_end endID (se_ID e)) (st_entries s)) \<and>
    Stream_RevRange endID start count s = limit count
      (rev (filter (\<lambda>e. \<not> below_start start (se_ID e) \<and> \<not> above_end endID (se_ID e)) (st_entries s))) \<and>
    Stream_Read start count s = limit count (filter (\<lambda>e. CompareStreamIDs (se_ID e) start > 0) (st_entries s))"
proof -
  let ?R = "\<lambda>a b. entry_ok a \<and> entry_ok b \<and> sid_lt (entry_sid a) (entry_sid b)"
  have R: "sorted_wrt ?R (st_entries s)"
    using assms(1) sorted_wrt_mono_rel [of "st_entries s" "\<lambda>a b. sid_lt (entry_sid a) (entry_sid b)" ?R]
    by (auto simp: stream_ok_def list_all_iff)
  have up: "sorted_wrt (\<lambda>e e'. above_end endID (se_ID e) \<longrightarrow> above_end endID (se_ID e')) (st_entries s)"
    by (rule sorted_wrt_mono_rel [OF _ R]) (use above_end_mono [OF assms(3)] in blast)
  have down: "sorted_wrt (\<lambda>e e'. below_start start (se_ID e) \<longrightarrow> below_start start (se_ID e')) (rev (st_entries s))"
    unfolding sorted_wrt_rev
    by (rule sorted_wrt_mono_rel [OF _ R]) (use below_start_mono [OF assms(2)] in blast)
  have any: "sorted_wrt (\<lambda>e e'. False \<longrightarrow> False) (st_entries s)" by (induction "st_entries s") auto
  have lim: "(if count > 0 then count - 0 else 0) = (if count > 0 then count else 0)" by simp
  have lim': "limit (if count > 0 then count else 0) xs = limit count xs" for xs :: "StreamEntry list"
    by (simp add: limit_def)
  have swap: "filter (\<lambda>e. \<not> above_end endID (se_ID e) \<and> \<not> below_start start (se_ID e)) xs
      = filter (\<lambda>e. \<not> below_start start (se_ID e) \<and> \<not> above_end endID (se_ID e)) xs" for xs :: "StreamEntry list"
    by (rule filter_cong) auto
  show ?thesis
    unfolding Stream_Range_def Stream_RevRange_def Stream_Read_def
    using range_loop_filter [OF up, of 0 count "below_start start"]
      range_loop_filter [OF down, of 0 count "above_end endID"]
      range_loop_filter [OF any, of 0 count "\<lambda>ident. \<not> CompareStreamIDs ident start > 0"]
    by (simp add: lim lim' swap rev_filter)
qed

theorem Stream_Range_spec_witness:
  "map se_ID (Stream_RevRange ''+'' ''1'' 1
     (NewStream\<lparr>st_entries := [\<lparr>se_ID = ''1-0'', se_Fields = [], se_Order = []\<rparr>,
        \<lparr>se_ID = ''2-0'', se_Fields = [], se_Order = []\<rparr>], st_lastID := StreamID 2 0\<rparr>)) = [''2-0'']"
proof -
  let ?s = "NewStream\<lparr>st_entries := [\<lparr>se_ID = ''1-0'', se_Fields = [], se_Order = []\<rparr>,
     \<lparr>se_ID = ''2-0'', se_Fields = [], se_Order = []\<rparr>], st_lastID := StreamID 2 0\<rparr>"
  have s: "stream_ok ?s" by code_simp
  have a: "bound_ok ''1''" by code_simp
  have b: "bound_ok ''+''" by (simp add: bound_ok_def)
  have "map se_ID (limit 1 (rev (filter (\<lambda>e. \<not> below_start ''1'' (se_ID e) \<and> \<not> above_end ''+'' (se_ID e)) (st_entries ?s)))) = [''2-0'']"
    by code_simp
  then show ?thesis by (simp only: Stream_Range_spec [OF s a b, of 1])
qed

subsection \<open>Consumer groups\<close>

definition undelivered :: "ConsumerGroup \<Rightarrow> StreamEntry list \<Rightarrow> StreamEntry list" where
  "undelivered g es = filter (\<lambda>e. CompareStreamIDs (se_ID e) (cg_LastDeliveredID g) > 0) es"

definition owner :: "PendingEntry list \<Rightarrow> (string, nat) gomap \<Rightarrow> string \<Rightarrow> string option" where
  "owner store pel ident = map_option (\<lambda>a. pe_ConsumerName (store ! a)) (gget pel ident)"

definition pel_ok :: "PendingEntry list \<Rightarrow> (string, nat) gomap \<Rightarrow> bool" where
  "pel_ok store pel \<longleftrightarrow> gomap_ok pel \<and> list_all (\<lambda>(ident, a). a < length store \<and> pe_ID (store ! a) = ident) pel"

lemma pel_ok_gput:
  assumes "pel_ok store pel" and "pe_ID pe = ident"
  shows "pel_ok (store @ [pe]) (gput ident (length store) pel)"
proof -
  have "(k, a) \<in> set (gput ident (length store) pel) \<longleftrightarrow>
      (if k = ident then a = length store else (k, a) \<in> set pel)" for k a
    using assms(1) by (auto simp: pel_ok_def gomap_simps simp flip: gget_Some_iff)
  then show ?thesis
    using assms by (auto simp: pel_ok_def list_all_iff gomap_simps nth_append split: if_splits)
qed

lemma pel_ok_append: "pel_ok store pel \<Longrightarrow> pel_ok (store @ ps) pel"
  by (auto simp: pel_ok_def list_all_iff nth_append)

lemma owner_append:
  assumes "pel_ok store pel" shows "owner (store @ ps) pel = owner store pel"
proof
  fix x
  show "owner (store @ ps) pel x = owner store pel x"
  proof (cases "gget pel x")
    case (Some a)
    then have "a < length store"
      using assms by (auto simp: pel_ok_def list_all_iff gget_Some_iff)
    then show ?thesis by (simp add: owner_def Some nth_append)
  qed (simp add: owner_def)
qed

lemma deliver_new_spec:
  assumes "deliver_new now name noAck count n es g c store = (rs, g', c', store')"
    and "list_all entry_ok es" and "sorted_wrt (\<lambda>a b. sid_lt (entry_sid a) (entry_sid b)) es"
    and "ParseStreamID (cg_LastDeliveredID g) = Some l" and "0 \<le> n" and "count > 0 \<longrightarrow> n < count"
  shows "rs = limit (if count > 0 then count - n else 0) (filter (\<lambda>e. sid_lt l (entry_sid e)) es) \<and>
    cg_LastDeliveredID g' = (if rs = [] then cg_LastDeliveredID g else se_ID (last rs)) \<and>
    cg_Consumers g' = cg_Consumers g \<and> cg_Name g' = cg_Name g"
  using assms
proof (induction es arbitrary: n g c store rs l)
  case (Cons e es)
  have e: "entry_ok e" and es: "list_all entry_ok es" "sorted_wrt (\<lambda>a b. sid_lt (entry_sid a) (entry_sid b)) es"
    and less: "\<forall>e' \<in> set es. sid_lt (entry_sid e) (entry_sid e')"
    using Cons.prems(2,3) by auto
  have cmp: "CompareStreamIDs (se_ID e) (cg_LastDeliveredID g) > 0 \<longleftrightarrow> sid_lt l (entry_sid e)"
    using Compare_entry [OF e Cons.prems(4)] by (simp add: sid_cmp_sign)
  show ?case
  proof (cases "sid_lt l (entry_sid e)")
    case False
    then have "deliver_new now name noAck count n es g c store = (rs, g', c', store')"
      using Cons.prems(1) cmp by simp
    from Cons.IH [OF this es Cons.prems(4-6)] False show ?thesis by simp
  next
    case True
    define g1 where "g1 = (if noAck then g\<lparr>cg_LastDeliveredID := se_ID e\<rparr>
      else g\<lparr>cg_LastDeliveredID := se_ID e, cg_PEL := gput (se_ID e) (length store) (cg_PEL g)\<rparr>)"
    define c1 where "c1 = (if noAck then c else c\<lparr>co_PEL := gput (se_ID e) (length store) (co_PEL c)\<rparr>)"
    define store1 where "store1 = (if noAck then store else store @ [\<lparr>pe_ID = se_ID e, pe_ConsumerName = name,
      pe_DeliveryTime = now, pe_DeliveryCount = 1\<rparr>])"
    have g1: "cg_LastDeliveredID g1 = se_ID e" "cg_Consumers g1 = cg_Consumers g" "cg_Name g1 = cg_Name g"
      by (simp_all add: g1_def)
    have step: "deliver_new now name noAck count n (e # es) g c store =
        (if count > 0 \<and> n + 1 \<ge> count then ([e], g1, c1, store1)
         else case deliver_new now name noAck count (n + 1) es g1 c1 store1 of
           (rs, g, c, store) \<Rightarrow> (e # rs, g, c, store))"
      using True cmp by (simp add: g1_def c1_def store1_def Let_def)
    have all: "filter (\<lambda>e'. sid_lt l (entry_sid e')) (e # es) = e # es"
      using True less sid_lt_trans [OF True] by simp
    show ?thesis
    proof (cases "count > 0 \<and> n + 1 \<ge> count")
      case stop: True
      then have "count - n = 1" using Cons.prems(6) by auto
      then show ?thesis using stop Cons.prems(1) g1 unfolding step all by (auto simp: limit_def)
    next
      case go: False
      then obtain rs1 where rs1: "deliver_new now name noAck count (n + 1) es g1 c1 store1 = (rs1, g', c', store')"
        and rs: "rs = e # rs1"
        using Cons.prems(1) unfolding step by (auto split: prod.splits)
      have p: "ParseStreamID (cg_LastDeliveredID g1) = Some (entry_sid e)" using entry_okD [OF e] g1 by simp
      have IH: "rs1 = limit (if count > 0 then count - (n + 1) else 0) (filter (\<lambda>e'. sid_lt (entry_sid e) (entry_sid e')) es)"
        "cg_LastDeliveredID g' = (if rs1 = [] then se_ID e else se_ID (last rs1))"
        "cg_Consumers g' = cg_Consumers g" "cg_Name g' = cg_Name g"
        using Cons.IH [OF rs1 es p] Cons.prems(5,6) go g1 by auto
      have "filter (\<lambda>e'. sid_lt (entry_sid e) (entry_sid e')) es = es" using less by simp
      moreover have "nat (count - n) = Suc (nat (count - (n + 1)))" if "count > 0" using that go Cons.prems(6) by auto
      ultimately show ?thesis using IH rs go unfolding all by (auto simp: limit_def)
    qed
  qed
qed (simp add: limit_def)

lemma deliver_new_PEL:
  assumes "deliver_new now name False count n es g c store = (rs, g', c', store')"
    and "pel_ok store (cg_PEL g)"
  shows "pel_ok store' (cg_PEL g') \<and> (\<exists>ps. store' = store @ ps) \<and>
    owner store' (cg_PEL g') = (\<lambda>x. if x \<in> se_ID ` set rs then Some name else owner store (cg_PEL g) x)"
  using assms
proof (induction es arbitrary: n g c store rs)
  case (Cons e es)
  define g1 where "g1 = g\<lparr>cg_LastDeliveredID := se_ID e, cg_PEL := gput (se_ID e) (length store) (cg_PEL g)\<rparr>"
  define c1 where "c1 = c\<lparr>co_PEL := gput (se_ID e) (length store) (co_PEL c)\<rparr>"
  define pe where "pe = \<lparr>pe_ID = se_ID e, pe_ConsumerName = name, pe_DeliveryTime = now, pe_DeliveryCount = 1\<rparr>"
  have ok1: "pel_ok (store @ [pe]) (cg_PEL g1)"
    using Cons.prems(2) by (simp add: g1_def pe_def pel_ok_gput)
  have own1: "owner (store @ [pe]) (cg_PEL g1) = (owner store (cg_PEL g))(se_ID e \<mapsto> name)"
    using owner_append [OF Cons.prems(2), of "[pe]"]
    by (auto simp: fun_eq_iff owner_def g1_def gget_gput pe_def)
  show ?case
  proof (cases "CompareStreamIDs (se_ID e) (cg_LastDeliveredID g) > 0")
    case False
    then show ?thesis using Cons by simp
  next
    case True
    then have step: "deliver_new now name False count n (e # es) g c store =
        (if count > 0 \<and> n + 1 \<ge> count then ([e], g1, c1, store @ [pe])
         else case deliver_new now name False count (n + 1) es g1 c1 (store @ [pe]) of
           (rs, g, c, store) \<Rightarrow> (e # rs, g, c, store))"
      by (simp add: g1_def c1_def pe_def Let_def)
    show ?thesis
    proof (cases "count > 0 \<and> n + 1 \<ge> count")
      case True
      then show ?thesis using Cons.prems(1) ok1 own1 unfolding step by (auto simp: fun_eq_iff)
    next
      case False
      then obtain rs1 where rs1: "deliver_new now name False count (n + 1) es g1 c1 (store @ [pe]) = (rs1, g', c', store')"
        and rs: "rs = e # rs1"
        using Cons.prems(1) unfolding step by (auto split: prod.splits)
      from Cons.IH [OF rs1 ok1] show ?thesis unfolding own1 rs by (auto simp: fun_eq_iff)
    qed
  qed
qed auto

lemma stream_ids_distinct:
  assumes "stream_ok s" shows "distinct (map se_ID (st_entries s))"
proof -
  have "sorted_wrt (\<lambda>a b. se_ID a \<noteq> se_ID b) (st_entries s)"
    by (rule sorted_wrt_mono_rel [where P = "\<lambda>a b. sid_lt (entry_sid a) (entry_sid b)"])
      (use assms in \<open>auto simp: stream_ok_def entry_sid_def\<close>)
  then show ?thesis by (simp add: distinct_conv_nth sorted_wrt_iff_nth_less) (metis linorder_neqE_nat)
qed

lemma undelivered_sid:
  "list_all entry_ok es \<Longrightarrow> ParseStreamID (cg_LastDeliveredID g) = Some l \<Longrightarrow>
   undelivered g es = filter (\<lambda>e. sid_lt l (entry_sid e)) es"
  unfolding undelivered_def list_all_iff by (rule filter_cong) (auto simp: Compare_entry sid_cmp_sign)

lemma filter_sorted_drop:
  assumes "sorted_wrt (\<lambda>a b. sid_lt (entry_sid a) (entry_sid b)) us" and "0 < k" and "k \<le> length us"
  shows "filter (\<lambda>e. sid_lt (entry_sid (us ! (k - 1))) (entry_sid e)) us = drop k us"
proof -
  let ?P = "\<lambda>e. sid_lt (entry_sid (us ! (k - 1))) (entry_sid e)"
  have "\<not> ?P (us ! i)" if "i < k" for i
    using assms sorted_wrt_nth_less [OF assms(1), of i "k - 1"] that sid_lt_asym
    by (cases "i = k - 1") simp_all
  then have "filter ?P (take k us) = []"
    by (simp add: filter_empty_conv all_set_conv_all_nth)
  moreover have "?P (us ! (k + i))" if "i < length us - k" for i
    using sorted_wrt_nth_less [OF assms(1), of "k - 1" "k + i"] assms(2) that by simp
  then have "filter ?P (drop k us) = drop k us"
    by (simp add: filter_id_conv all_set_conv_all_nth)
  ultimately have "filter ?P (take k us @ drop k us) = drop k us" unfolding filter_append by simp
  then show ?thesis by simp
qed

lemma ReadGroup_new:
  assumes ok: "stream_ok s" and g: "gget (st_groups s) gname = Some g"
    and l: "ParseStreamID (cg_LastDeliveredID g) = Some l" and pel: "pel_ok (st_pending s) (cg_PEL g)"
    and read: "ReadGroup now gname name ''>'' count False s = Inr (rs, s')"
  shows "rs = limit count (undelivered g (st_entries s)) \<and> st_entries s' = st_entries s \<and> stream_ok s' \<and>
    (\<exists>g' l'. gget (st_groups s') gname = Some g' \<and> ParseStreamID (cg_LastDeliveredID g') = Some l' \<and>
       pel_ok (st_pending s') (cg_PEL g') \<and>
       undelivered g' (st_entries s) = drop (length rs) (undelivered g (st_entries s)) \<and>
       owner (st_pending s') (cg_PEL g') =
         (\<lambda>x. if x \<in> se_ID ` set rs then Some name else owner (st_pending s) (cg_PEL g) x))"
proof -
  define c where "c = (case gget (cg_Consumers g) name of
      None \<Rightarrow> \<lparr>co_Name = name, co_SeenTime = now, co_PEL = []\<rparr> | Some c \<Rightarrow> c\<lparr>co_SeenTime := now\<rparr>)"
  obtain g1 c1 store where d: "deliver_new now name False count 0 (st_entries s) g c (st_pending s) = (rs, g1, c1, store)"
    and s': "s' = s\<lparr>st_groups := gput gname (g1\<lparr>cg_Consumers := gput name c1 (cg_Consumers g1)\<rparr>) (st_groups s),
      st_pending := store\<rparr>"
    using read g by (auto simp: ReadGroup_def c_def Let_def split: prod.splits)
  have es: "list_all entry_ok (st_entries s)"
    "sorted_wrt (\<lambda>a b. sid_lt (entry_sid a) (entry_sid b)) (st_entries s)"
    using ok by (simp_all add: stream_ok_def)
  let ?U = "undelivered g (st_entries s)"
  have U: "?U = filter (\<lambda>e. sid_lt l (entry_sid e)) (st_entries s)" using undelivered_sid [OF es(1) l] .
  have rs: "rs = limit count ?U" and last: "cg_LastDeliveredID g1 = (if rs = [] then cg_LastDeliveredID g else se_ID (last rs))"
    using deliver_new_spec [OF d es l] unfolding U by (auto simp: limit_def)
  have P: "pel_ok store (cg_PEL g1)"
    "owner store (cg_PEL g1) = (\<lambda>x. if x \<in> se_ID ` set rs then Some name else owner (st_pending s) (cg_PEL g) x)"
    using deliver_new_PEL [OF d pel] by auto
  have "\<exists>l'. ParseStreamID (cg_LastDeliveredID g1) = Some l' \<and> undelivered g1 (st_entries s) = drop (length rs) ?U"
  proof (cases "rs = []")
    case True
    then show ?thesis using last l by (simp add: undelivered_def)
  next
    case False
    have sortU: "sorted_wrt (\<lambda>a b. sid_lt (entry_sid a) (entry_sid b)) ?U" unfolding U using es(2) by (rule sorted_wrt_filter)
    have len: "length rs \<le> length ?U" and lastU: "last rs = ?U ! (length rs - 1)"
      using False unfolding rs limit_def by (auto simp: last_conv_nth min_def)
    have "last rs \<in> set ?U" using False len unfolding lastU by (intro nth_mem) (cases rs; simp)
    then have mem: "last rs \<in> set (st_entries s)" "sid_lt l (entry_sid (last rs))" unfolding U by auto
    have p: "ParseStreamID (cg_LastDeliveredID g1) = Some (entry_sid (last rs))"
      using False last mem es(1) entry_okD by (auto simp: list_all_iff)
    have "undelivered g1 (st_entries s) = filter (\<lambda>e. sid_lt (entry_sid (last rs)) (entry_sid e)) (st_entries s)"
      using undelivered_sid [OF es(1) p] .
    also have "\<dots> = filter (\<lambda>e. sid_lt (entry_sid (last rs)) (entry_sid e)) ?U"
      unfolding U filter_filter using sid_lt_trans [OF mem(2)] by (intro filter_cong) auto
    also have "\<dots> = drop (length rs) ?U"
      unfolding lastU using filter_sorted_drop [OF sortU _ len] False by simp
    finally show ?thesis using p by blast
  qed
  then show ?thesis
    using rs P ok by (auto simp: s' gget_gput undelivered_def stream_ok_def)
qed

lemma assign_id_ok:
  assumes "assign_id now idStr s = Inr a" and "sid_ok (st_lastID s)"
  shows "sid_ok a"
proof -
  have n: "next_seq lst < 2 ^ 64" for lst by (simp add: next_seq_def)
  have "nat (now mod 2 ^ 64) < 2 ^ 64" by (simp add: nat_less_iff)
  then show ?thesis
    using assms n by (auto simp: assign_id_def Let_def sid_ok_def split: if_splits option.splits
        dest: ParseUint_less ParseStreamID_ok)
qed

text \<open>
  What a consumer group needs of its stream: the entries in order, the list of pending entries sound,
  and a last delivered identifier that is well formed and not ahead of the last one assigned.
\<close>

definition group_ok :: "string \<Rightarrow> Stream \<Rightarrow> ConsumerGroup \<Rightarrow> bool" where
  "group_ok gname s g \<longleftrightarrow>
     stream_ok s \<and> gget (st_groups s) gname = Some g \<and> pel_ok (st_pending s) (cg_PEL g) \<and>
     (case ParseStreamID (cg_LastDeliveredID g) of None \<Rightarrow> False | Some l \<Rightarrow> \<not> sid_lt (st_lastID s) l)"

lemma ReadGroup_last:
  assumes "ReadGroup now gname name ''>'' count False s = Inr (rs, s')" and "gget (st_groups s) gname = Some g"
    and "stream_ok s" and "ParseStreamID (cg_LastDeliveredID g) = Some l" and "gget (st_groups s') gname = Some g'"
  shows "cg_LastDeliveredID g' = (if rs = [] then cg_LastDeliveredID g else se_ID (last rs)) \<and> st_lastID s' = st_lastID s"
proof -
  obtain c g1 c1 store where d: "deliver_new now name False count 0 (st_entries s) g c (st_pending s) = (rs, g1, c1, store)"
    and s': "s' = s\<lparr>st_groups := gput gname (g1\<lparr>cg_Consumers := gput name c1 (cg_Consumers g1)\<rparr>) (st_groups s),
      st_pending := store\<rparr>"
    using assms(1,2) by (auto simp: ReadGroup_def Let_def split: prod.splits)
  have es: "list_all entry_ok (st_entries s)"
    "sorted_wrt (\<lambda>a b. sid_lt (entry_sid a) (entry_sid b)) (st_entries s)"
    using assms(3) by (simp_all add: stream_ok_def)
  show ?thesis using deliver_new_spec [OF d es assms(4)] assms(5) by (auto simp: s' gget_gput)
qed

lemma map_of_same: "map_of (rev (map (\<lambda>e. (f e, c)) rs)) x = (if x \<in> f ` set rs then Some c else None)"
  by (induction rs rule: rev_induct) auto

lemma group_ok_read:
  assumes "group_ok gname s g" and "ReadGroup now gname name ''>'' count False s = Inr (rs, s')"
  shows "\<exists>g'. group_ok gname s' g' \<and> st_entries s' = st_entries s \<and> rs = limit count (undelivered g (st_entries s)) \<and>
    rs @ undelivered g' (st_entries s) = undelivered g (st_entries s) \<and>
    owner (st_pending s') (cg_PEL g') =
      owner (st_pending s) (cg_PEL g) ++ map_of (rev (map (\<lambda>e. (se_ID e, name)) rs))"
proof -
  obtain l where a: "stream_ok s" "gget (st_groups s) gname = Some g" "ParseStreamID (cg_LastDeliveredID g) = Some l"
    "pel_ok (st_pending s) (cg_PEL g)" and l: "\<not> sid_lt (st_lastID s) l"
    using assms(1) by (auto simp: group_ok_def split: option.splits)
  from ReadGroup_new [OF a assms(2)] obtain g' l' where
    1: "rs = limit count (undelivered g (st_entries s))" "st_entries s' = st_entries s" "stream_ok s'"
      "gget (st_groups s') gname = Some g'" "ParseStreamID (cg_LastDeliveredID g') = Some l'"
      "pel_ok (st_pending s') (cg_PEL g')"
      "undelivered g' (st_entries s) = drop (length rs) (undelivered g (st_entries s))"
      "owner (st_pending s') (cg_PEL g') =
        (\<lambda>x. if x \<in> se_ID ` set rs then Some name else owner (st_pending s) (cg_PEL g) x)"
    by auto
  note L = ReadGroup_last [OF assms(2) a(2,1,3) 1(4)]
  have rs: "rs = take (length rs) (undelivered g (st_entries s))" using 1(1) by (simp add: limit_def min_def)
  have "\<not> sid_lt (st_lastID s) l'"
  proof (cases "rs = []")
    case False
    then have "last rs \<in> set (st_entries s)"
      using rs last_in_set [of rs] by (metis filter_is_subset in_set_takeD subsetD undelivered_def)
    then have "entry_sid (last rs) = l'" "\<not> sid_lt (st_lastID s) (entry_sid (last rs))"
      using a(1) L 1(5) False by (auto simp: stream_ok_def list_all_iff entry_sid_def)
    then show ?thesis by simp
  qed (use L 1(5) a(3) l in simp)
  moreover have "owner (st_pending s') (cg_PEL g') =
      owner (st_pending s) (cg_PEL g) ++ map_of (rev (map (\<lambda>e. (se_ID e, name)) rs))"
    by (auto simp: 1(8) fun_eq_iff map_add_def map_of_same)
  moreover have "rs @ undelivered g' (st_entries s) = undelivered g (st_entries s)"
    unfolding 1(7) by (metis append_take_drop_id rs)
  ultimately show ?thesis using 1 L by (intro exI [of _ g']) (simp add: group_ok_def)
qed

lemma group_ok_add:
  assumes "group_ok gname s g" and "Stream_Add now idStr flds order s = Inr (ident, s')"
    and "sid_lt (st_lastID s) (st_lastID s')"
  shows "group_ok gname s' g \<and> st_pending s' = st_pending s \<and> (\<exists>e. st_entries s' = st_entries s @ [e] \<and>
    undelivered g (st_entries s') = undelivered g (st_entries s) @ [e])"
proof -
  obtain a where a: "assign_id now idStr s = Inr a"
    and s': "s' = s\<lparr>st_lastID := a, st_entries := st_entries s @
      [\<lparr>se_ID = StreamID_String a, se_Fields = flds, se_Order = order\<rparr>], st_waiters := []\<rparr>" (is "s' = s\<lparr>st_lastID := a, st_entries := _ @ [?e], st_waiters := []\<rparr>")
    using assms(2) by (auto simp: Stream_Add_def Let_def split: sum.splits)
  obtain l where g: "stream_ok s" "gget (st_groups s) gname = Some g" "ParseStreamID (cg_LastDeliveredID g) = Some l"
    "pel_ok (st_pending s) (cg_PEL g)" and l: "\<not> sid_lt (st_lastID s) l"
    using assms(1) by (auto simp: group_ok_def split: option.splits)
  have ok: "sid_ok a" using assign_id_ok [OF a] g(1) by (simp add: stream_ok_def)
  note e = entry_ok_new [OF ok, of flds order]
  have up: "sid_lt x a" if "\<not> sid_lt (st_lastID s) x" for x
    using that assms(3) sid_linear [of "st_lastID s" x] sid_lt_trans by (auto simp: s')
  have "stream_ok s'"
    using g(1) ok e up by (auto simp: stream_ok_def s' sorted_wrt_append list_all_iff dest: sid_lt_asym)
  moreover have "CompareStreamIDs (se_ID ?e) (cg_LastDeliveredID g) > 0"
    using Compare_entry [OF conjunct1 [OF e] g(3)] e up [OF l] by (simp add: sid_cmp_sign)
  ultimately show ?thesis using g up [OF l] by (auto simp: group_ok_def s' undelivered_def dest: sid_lt_asym)
qed

text \<open>What happens around a group: clients append entries, and consumers read the new ones.\<close>

datatype group_event =
  GAdd int string "(string, string) gomap" "string list"
| GRead int string int

text \<open>The deliveries of a run, each with its consumer, and the stream at its end.\<close>

fun group_run :: "string \<Rightarrow> group_event list \<Rightarrow> Stream \<Rightarrow> (string \<times> StreamEntry) list \<times> Stream" where
  "group_run gname [] s = ([], s)"
| "group_run gname (GAdd now idStr flds order # evs) s =
     (case Stream_Add now idStr flds order s of
        Inl _ \<Rightarrow> group_run gname evs s
      | Inr (_, s') \<Rightarrow> group_run gname evs s')"
| "group_run gname (GRead now consumer count # evs) s =
     (case ReadGroup now gname consumer ''>'' count False s of
        Inl _ \<Rightarrow> group_run gname evs s
      | Inr (rs, s') \<Rightarrow>
          (case group_run gname evs s' of (ds, s'') \<Rightarrow> (map (Pair consumer) rs @ ds, s'')))"

text \<open>Every append that is accepted gets an identifier above the last one assigned.\<close>

fun appends_in_order :: "string \<Rightarrow> group_event list \<Rightarrow> Stream \<Rightarrow> bool" where
  "appends_in_order gname [] s \<longleftrightarrow> True"
| "appends_in_order gname (GAdd now idStr flds order # evs) s \<longleftrightarrow>
     (case Stream_Add now idStr flds order s of
        Inl _ \<Rightarrow> appends_in_order gname evs s
      | Inr (_, s') \<Rightarrow> sid_lt (st_lastID s) (st_lastID s') \<and> appends_in_order gname evs s')"
| "appends_in_order gname (GRead now consumer count # evs) s \<longleftrightarrow>
     (case ReadGroup now gname consumer ''>'' count False s of
        Inl _ \<Rightarrow> appends_in_order gname evs s
      | Inr (_, s') \<Rightarrow> appends_in_order gname evs s')"

lemma group_run_spec:
  assumes "group_ok gname s g" and "appends_in_order gname evs s" and "group_run gname evs s = (ds, s')"
  shows "\<exists>g' new. group_ok gname s' g' \<and> st_entries s' = st_entries s @ new \<and>
    map snd ds @ undelivered g' (st_entries s') = undelivered g (st_entries s) @ new \<and>
    owner (st_pending s') (cg_PEL g') =
      owner (st_pending s) (cg_PEL g) ++ map_of (rev (map (\<lambda>(c, e). (se_ID e, c)) ds))"
  using assms
proof (induction gname evs s arbitrary: g ds rule: group_run.induct)
  case (2 gname now idStr flds order evs s)
  show ?case
  proof (cases "Stream_Add now idStr flds order s")
    case (Inl e)
    then show ?thesis using 2 by simp
  next
    case (Inr p)
    obtain ident s1 where p: "p = (ident, s1)" by (cases p)
    have add: "Stream_Add now idStr flds order s = Inr (ident, s1)" using Inr p by simp
    have 3: "sid_lt (st_lastID s) (st_lastID s1)" "appends_in_order gname evs s1" "group_run gname evs s1 = (ds, s')"
      using 2(4,5) add by simp_all
    obtain e where e: "group_ok gname s1 g" "st_pending s1 = st_pending s" "st_entries s1 = st_entries s @ [e]"
      "undelivered g (st_entries s1) = undelivered g (st_entries s) @ [e]"
      using group_ok_add [OF 2(3) add 3(1)] by auto
    from 2(2) [OF Inr p [symmetric] e(1) 3(2,3)] show ?thesis using e by fastforce
  qed
next
  case (3 gname now consumer count evs s)
  show ?case
  proof (cases "ReadGroup now gname consumer ''>'' count False s")
    case (Inl e)
    then show ?thesis using 3 by simp
  next
    case (Inr p)
    obtain rs s1 where p: "p = (rs, s1)" by (cases p)
    have read: "ReadGroup now gname consumer ''>'' count False s = Inr (rs, s1)" using Inr p by simp
    obtain ds1 where d: "group_run gname evs s1 = (ds1, s')" "ds = map (Pair consumer) rs @ ds1"
      using 3(5) read by (auto split: prod.splits)
    have o: "appends_in_order gname evs s1" using 3(4) read by simp
    obtain g1 where g1: "group_ok gname s1 g1" "st_entries s1 = st_entries s"
      "rs @ undelivered g1 (st_entries s) = undelivered g (st_entries s)"
      "owner (st_pending s1) (cg_PEL g1) =
        owner (st_pending s) (cg_PEL g) ++ map_of (rev (map (\<lambda>e. (se_ID e, consumer)) rs))"
      using group_ok_read [OF 3(3) read] by auto
    obtain g' new where g': "group_ok gname s' g'" "st_entries s' = st_entries s1 @ new"
      "map snd ds1 @ undelivered g' (st_entries s') = undelivered g1 (st_entries s1) @ new"
      "owner (st_pending s') (cg_PEL g') =
        owner (st_pending s1) (cg_PEL g1) ++ map_of (rev (map (\<lambda>(c, e). (se_ID e, c)) ds1))"
      using 3(2) [OF Inr p [symmetric] g1(1) o d(1)] by auto
    have m: "map snd ds @ undelivered g' (st_entries s') = undelivered g (st_entries s) @ new"
    proof -
      have "map snd ds @ undelivered g' (st_entries s') = rs @ (undelivered g1 (st_entries s) @ new)"
        using g'(3) g1(2) by (simp add: d(2) comp_def)
      then show ?thesis using g1(3) by (metis append_assoc)
    qed
    show ?thesis
      using g' g1 m by (intro exI [of _ g'] exI [of _ new]) (simp add: d(2) comp_def map_of_append)
  qed
qed auto


definition demo_group :: ConsumerGroup where
  "demo_group = \<lparr>cg_Name = ''g'', cg_LastDeliveredID = ''0-0'', cg_Consumers = [], cg_PEL = []\<rparr>"

definition demo_stream :: Stream where
  "demo_stream = \<lparr>st_entries = [\<lparr>se_ID = ''1-0'', se_Fields = [], se_Order = []\<rparr>,
     \<lparr>se_ID = ''2-0'', se_Fields = [], se_Order = []\<rparr>], st_lastID = StreamID 2 0,
     st_groups = [(''g'', demo_group)], st_waiters = [], st_pending = []\<rparr>"


lemma Inr_projr: "\<not> isl x \<Longrightarrow> x = Inr (fst (projr x), snd (projr x))"
  by (cases x) simp_all

lemma ack_loop_spec:
  "gomap_ok (cg_PEL g) \<Longrightarrow> ack_loop store ids g = (n, g') \<Longrightarrow>
     gomap_ok (cg_PEL g') \<and> gget (cg_PEL g') = (gget (cg_PEL g)) |` (- set ids) \<and>
     n = int (length (cg_PEL g)) - int (length (cg_PEL g'))"
proof (induction ids arbitrary: g n)
  case (Cons x ids)
  show ?case
  proof (cases "gget (cg_PEL g) x")
    case None
    then have "(gget (cg_PEL g)) |` (- set ids) = (gget (cg_PEL g)) |` (- set (x # ids))"
      by (auto simp: restrict_map_def fun_eq_iff)
    then show ?thesis using Cons.IH [OF Cons.prems(1)] Cons.prems(2) None by simp
  next
    case (Some a)
    define g1 where "g1 = g\<lparr>cg_PEL := gdel x (cg_PEL g)\<rparr>"
    define g2 where "g2 = (case gget (cg_Consumers g1) (pe_ConsumerName (store ! a)) of None \<Rightarrow> g1
      | Some c \<Rightarrow> g1\<lparr>cg_Consumers := gput (pe_ConsumerName (store ! a)) (c\<lparr>co_PEL := gdel x (co_PEL c)\<rparr>) (cg_Consumers g1)\<rparr>)"
    have pel: "cg_PEL g2 = gdel x (cg_PEL g)" by (simp add: g2_def g1_def split: option.split)
    have "ack_loop store (x # ids) g = (case ack_loop store ids g2 of (acked, g) \<Rightarrow> (acked + 1, g))"
      unfolding g2_def g1_def using Some by (simp add: Let_def)
    then obtain m where m: "ack_loop store ids g2 = (m, g')" and n: "n = m + 1"
      using Cons.prems(2) by (cases "ack_loop store ids g2") simp
    have ok: "gomap_ok (cg_PEL g2)" using Cons.prems(1) by (simp add: pel gomap_simps)
    have "gget (cg_PEL g2) |` (- set ids) = gget (cg_PEL g) |` (- set (x # ids))"
      by (auto simp: pel gget_gdel restrict_map_def fun_eq_iff)
    moreover have "Suc (length (cg_PEL g2)) = length (cg_PEL g)"
      unfolding pel using Cons.prems(1) Some by (simp add: gm.count_delete_Suc)
    ultimately show ?thesis using Cons.IH [OF ok m] n by simp
  qed
qed (auto simp: restrict_map_def fun_eq_iff)

text \<open>
  \<open>XACK\<close> removes from the group's pending list exactly the given identifiers, leaves
  the others, and replies the number of entries that were pending, counting an identifier that is
  repeated once.
\<close>

theorem Ack_spec:
  assumes "gget (st_groups s) gname = Some g" and "gomap_ok (cg_PEL g)" and "Ack gname ids s = (n, s')"
  shows "\<exists>g'. gget (st_groups s') gname = Some g' \<and>
    (\<forall>x. gget (cg_PEL g') x = (if x \<in> set ids then None else gget (cg_PEL g) x)) \<and>
    n = int (card (set ids \<inter> dom (gget (cg_PEL g)))) \<and> st_entries s' = st_entries s"
proof -
  obtain g' where loop: "ack_loop (st_pending s) ids g = (n, g')"
    and s': "s' = s\<lparr>st_groups := gput gname g' (st_groups s)\<rparr>"
    using assms(1,3) by (auto simp: Ack_def split: prod.splits)
  note A = ack_loop_spec [OF assms(2) loop]
  have dom: "dom (gget (cg_PEL g')) = dom (gget (cg_PEL g)) - set ids" using A by auto
  have "card (dom (gget (cg_PEL g))) = card (dom (gget (cg_PEL g)) - set ids) + card (set ids \<inter> dom (gget (cg_PEL g)))"
    using card_Int_Diff [OF gm.finite_lookup [OF assms(2)], of "set ids"] by (simp add: Int_commute)
  then have "n = int (card (set ids \<inter> dom (gget (cg_PEL g))))"
    using A assms(2) gm.count_dom [of "cg_PEL g"] gm.count_dom [of "cg_PEL g'"] unfolding dom by linarith
  moreover have "\<forall>x. gget (cg_PEL g') x = (if x \<in> set ids then None else gget (cg_PEL g) x)"
    using A by (simp add: restrict_map_def)
  ultimately show ?thesis by (auto simp: s' gget_gput)
qed

theorem Ack_spec_witness:
  "fst (Ack ''g'' [''1-0'', ''1-0'', ''9-9''] (demo_stream\<lparr>st_groups := [(''g'', demo_group\<lparr>cg_PEL := [(''1-0'', 0)]\<rparr>)]\<rparr>))
     = int (card (set [''1-0'', ''1-0'', ''9-9''] \<inter> dom (gget [(''1-0'', 0 :: nat)])))"
proof -
  let ?g = "demo_group\<lparr>cg_PEL := [(''1-0'', 0)]\<rparr>"
  let ?s = "demo_stream\<lparr>st_groups := [(''g'', ?g)]\<rparr>"
  have g: "gget (st_groups ?s) ''g'' = Some ?g" by (simp add: gget_def)
  have ok: "gomap_ok (cg_PEL ?g)" by (simp add: gomap_ok_def)
  from Ack_spec [OF g ok surjective_pairing, of "[''1-0'', ''1-0'', ''9-9'']"] show ?thesis by auto
qed

subsection \<open>A group moved back\<close>

lemma deliver_new_consumer:
  "deliver_new now name False count n es g c store = (rs, g', c', store') \<Longrightarrow>
     dom (gget (co_PEL c')) = dom (gget (co_PEL c)) \<union> se_ID ` set rs \<and> cg_Consumers g' = cg_Consumers g"
proof (induction es arbitrary: n g c store rs)
  case (Cons e es)
  define g1 where "g1 = g\<lparr>cg_LastDeliveredID := se_ID e, cg_PEL := gput (se_ID e) (length store) (cg_PEL g)\<rparr>"
  define c1 where "c1 = c\<lparr>co_PEL := gput (se_ID e) (length store) (co_PEL c)\<rparr>"
  define store1 where "store1 = store @ [\<lparr>pe_ID = se_ID e, pe_ConsumerName = name, pe_DeliveryTime = now, pe_DeliveryCount = 1\<rparr>]"
  have c1: "dom (gget (co_PEL c1)) = insert (se_ID e) (dom (gget (co_PEL c)))" "cg_Consumers g1 = cg_Consumers g"
    by (auto simp: c1_def g1_def gget_gput split: if_splits)
  show ?case
  proof (cases "CompareStreamIDs (se_ID e) (cg_LastDeliveredID g) > 0")
    case False
    then show ?thesis using Cons by simp
  next
    case True
    then have step: "deliver_new now name False count n (e # es) g c store =
        (if count > 0 \<and> n + 1 \<ge> count then ([e], g1, c1, store1)
         else case deliver_new now name False count (n + 1) es g1 c1 store1 of
           (rs, g, c, store) \<Rightarrow> (e # rs, g, c, store))"
      by (simp add: g1_def c1_def store1_def Let_def)
    show ?thesis
    proof (cases "count > 0 \<and> n + 1 \<ge> count")
      case True
      then show ?thesis using Cons.prems c1 unfolding step by auto
    next
      case False
      then obtain rs1 where "deliver_new now name False count (n + 1) es g1 c1 store1 = (rs1, g', c', store')"
        and "rs = e # rs1"
        using Cons.prems unfolding step by (auto split: prod.splits)
      then show ?thesis using Cons.IH [of "n + 1" g1 c1 store1 rs1] c1 by auto
    qed
  qed
qed simp

text \<open>The list of a consumer that owns none of the identifiers is left alone.\<close>

lemma ack_loop_other:
  "ack_loop store ids g = (n, g') \<Longrightarrow> \<forall>x \<in> set ids. owner store (cg_PEL g) x \<noteq> Some name \<Longrightarrow>
     gget (cg_Consumers g') name = gget (cg_Consumers g) name"
proof (induction ids arbitrary: g n)
  case (Cons x ids)
  show ?case
  proof (cases "gget (cg_PEL g) x")
    case None
    then show ?thesis using Cons by simp
  next
    case (Some a)
    define g1 where "g1 = g\<lparr>cg_PEL := gdel x (cg_PEL g)\<rparr>"
    define g2 where "g2 = (case gget (cg_Consumers g1) (pe_ConsumerName (store ! a)) of None \<Rightarrow> g1
      | Some c \<Rightarrow> g1\<lparr>cg_Consumers := gput (pe_ConsumerName (store ! a)) (c\<lparr>co_PEL := gdel x (co_PEL c)\<rparr>) (cg_Consumers g1)\<rparr>)"
    have "ack_loop store (x # ids) g = (case ack_loop store ids g2 of (acked, g) \<Rightarrow> (acked + 1, g))"
      unfolding g2_def g1_def using Some by (simp add: Let_def)
    then obtain m where m: "ack_loop store ids g2 = (m, g')"
      using Cons.prems(1) by (cases "ack_loop store ids g2") simp
    have "cg_PEL g2 = gdel x (cg_PEL g)" by (simp add: g2_def g1_def split: option.split)
    then have "\<forall>y \<in> set ids. owner store (cg_PEL g2) y \<noteq> Some name"
      using Cons.prems(2) by (auto simp: owner_def gget_gdel)
    moreover have "pe_ConsumerName (store ! a) \<noteq> name" using Cons.prems(2) Some by (simp add: owner_def)
    then have "gget (cg_Consumers g2) name = gget (cg_Consumers g) name"
      by (simp add: g2_def g1_def gget_gput split: option.split)
    ultimately show ?thesis using Cons.IH [OF m] by simp
  qed
qed simp

lemma ReadGroup_consumers:
  assumes "ReadGroup now gname name ''>'' count False s = Inr (rs, s')" and "gget (st_groups s) gname = Some g"
    and "gget (st_groups s') gname = Some g'"
  shows "\<exists>c. gget (cg_Consumers g') name = Some c \<and> se_ID ` set rs \<subseteq> dom (gget (co_PEL c))"
    and "m \<noteq> name \<Longrightarrow> gget (cg_Consumers g') m = gget (cg_Consumers g) m"
proof -
  obtain c g1 c1 store where d: "deliver_new now name False count 0 (st_entries s) g c (st_pending s) = (rs, g1, c1, store)"
    and "s' = s\<lparr>st_groups := gput gname (g1\<lparr>cg_Consumers := gput name c1 (cg_Consumers g1)\<rparr>) (st_groups s),
      st_pending := store\<rparr>"
    using assms(1,2) by (auto simp: ReadGroup_def Let_def split: prod.splits)
  then have g': "g' = g1\<lparr>cg_Consumers := gput name c1 (cg_Consumers g1)\<rparr>" using assms(3) by (simp add: gget_gput)
  show "\<exists>c. gget (cg_Consumers g') name = Some c \<and> se_ID ` set rs \<subseteq> dom (gget (co_PEL c))"
    "m \<noteq> name \<Longrightarrow> gget (cg_Consumers g') m = gget (cg_Consumers g) m"
    using deliver_new_consumer [OF d] by (simp_all add: g' gget_gput)
qed

lemma group_ok_moved_back:
  assumes "group_ok gname s g" and "group_ok gname s1 g1" and "st_lastID s1 = st_lastID s"
    and "SetGroupID gname (cg_LastDeliveredID g) s1 = (err, s2)"
  shows "group_ok gname s2 (g1\<lparr>cg_LastDeliveredID := cg_LastDeliveredID g\<rparr>) \<and> st_entries s2 = st_entries s1"
proof -
  have "ParseStreamID ''$'' = None" by code_simp
  then have "cg_LastDeliveredID g \<noteq> ''$''" using assms(1) by (auto simp: group_ok_def)
  then show ?thesis
    using assms by (auto simp: SetGroupID_def group_start_def group_ok_def gget_gput stream_ok_def split: option.splits)
qed

text \<open>
  Property C40: moving a group back with \<open>XGROUP SETID\<close> leaves entries that are never acknowledged. When
  a consumer has read the new entries, the group is moved back to where it was, another consumer reads
  the same entries and they are acknowledged, then the group has none of them pending, yet every
  one stays in the first consumer's own list, since \<open>XACK\<close> clears the list of the last owner only.
\<close>

theorem SetGroupID_stale_pending:
  assumes "group_ok gname s g" and "name1 \<noteq> name2"
    and "ReadGroup now1 gname name1 ''>'' count False s = Inr (r1, s1)"
    and "SetGroupID gname (cg_LastDeliveredID g) s1 = (err, s2)"
    and "ReadGroup now2 gname name2 ''>'' count False s2 = Inr (r2, s3)"
    and "Ack gname (map se_ID r1) s3 = (n, s4)"
  shows "r2 = r1 \<and> n = int (length r1) \<and> (\<exists>g4 c. gget (st_groups s4) gname = Some g4 \<and> gget (cg_Consumers g4) name1 = Some c \<and>
    (\<forall>e \<in> set r1. gget (cg_PEL g4) (se_ID e) = None \<and> gget (co_PEL c) (se_ID e) \<noteq> None))"
proof -
  have g: "gget (st_groups s) gname = Some g" "stream_ok s" using assms(1) by (simp_all add: group_ok_def)
  obtain l where l: "ParseStreamID (cg_LastDeliveredID g) = Some l"
    using assms(1) by (auto simp: group_ok_def split: option.splits)
  obtain g1 where g1: "group_ok gname s1 g1" "st_entries s1 = st_entries s" "r1 = limit count (undelivered g (st_entries s))"
    using group_ok_read [OF assms(1,3)] by auto
  have s1: "gget (st_groups s1) gname = Some g1" using g1(1) by (simp add: group_ok_def)
  let ?g2 = "g1\<lparr>cg_LastDeliveredID := cg_LastDeliveredID g\<rparr>"
  have g2: "group_ok gname s2 ?g2" "st_entries s2 = st_entries s"
    using group_ok_moved_back [OF assms(1) g1(1) _ assms(4)] ReadGroup_last [OF assms(3) g l s1] g1(2) by simp_all
  obtain g3 where g3: "group_ok gname s3 g3" "r2 = limit count (undelivered ?g2 (st_entries s2))"
    "owner (st_pending s3) (cg_PEL g3) = owner (st_pending s2) (cg_PEL ?g2) ++ map_of (rev (map (\<lambda>e. (se_ID e, name2)) r2))"
    using group_ok_read [OF g2(1) assms(5)] by auto
  have r: "r2 = r1" using g3(2) g1(3) g2(2) by (simp add: undelivered_def)
  have s3: "gget (st_groups s2) gname = Some ?g2" "gget (st_groups s3) gname = Some g3" "gomap_ok (cg_PEL g3)"
    using g2(1) g3(1) by (simp_all add: group_ok_def pel_ok_def)
  obtain c where c: "gget (cg_Consumers g3) name1 = Some c" "se_ID ` set r1 \<subseteq> dom (gget (co_PEL c))"
    using ReadGroup_consumers(1) [OF assms(3) g(1) s1] ReadGroup_consumers(2) [OF assms(5) s3(1,2) assms(2)] by auto
  have own: "owner (st_pending s3) (cg_PEL g3) x = Some name2" if "x \<in> se_ID ` set r1" for x
    using that by (simp add: g3(3) r map_add_def map_of_same)
  obtain g4 where loop: "ack_loop (st_pending s3) (map se_ID r1) g3 = (n, g4)"
    and s4: "gget (st_groups s4) gname = Some g4"
    using assms(6) s3(2) by (auto simp: Ack_def gget_gput split: prod.splits)
  have "gget (cg_Consumers g4) name1 = Some c"
    using ack_loop_other [OF loop, of name1] own assms(2) c(1) by auto
  moreover have "\<forall>e \<in> set r1. gget (cg_PEL g4) (se_ID e) = None"
    using ack_loop_spec [OF s3(3) loop] by auto
  moreover have "n = int (length r1)"
  proof -
    have "set (map se_ID r1) \<subseteq> dom (gget (cg_PEL g3))" using own by (fastforce simp: owner_def)
    then have "n = int (card (set (map se_ID r1)))"
      using Ack_spec [OF s3(2,3) assms(6)] by (auto simp: Int_absorb2)
    moreover have "distinct (map se_ID r1)"
      using stream_ids_distinct [OF g(2)] unfolding g1(3) limit_def undelivered_def
      by (simp add: take_map [symmetric] distinct_map_filter)
    ultimately show ?thesis using distinct_card [of "map se_ID r1"] by simp
  qed
  ultimately show ?thesis using r s4 c(2) by blast
qed

theorem SetGroupID_stale_pending_witness:
  "let s1 = snd (projr (ReadGroup 1 ''g'' ''a'' ''>'' 1 False demo_stream));
       s2 = snd (SetGroupID ''g'' ''0-0'' s1);
       s3 = snd (projr (ReadGroup 2 ''g'' ''b'' ''>'' 1 False s2));
       (n, s4) = Ack ''g'' [''1-0''] s3
   in n = 1 \<and> (\<exists>g4 c. gget (st_groups s4) ''g'' = Some g4 \<and> gget (cg_Consumers g4) ''a'' = Some c \<and>
     gget (cg_PEL g4) ''1-0'' = None \<and> gget (co_PEL c) ''1-0'' \<noteq> None)"
proof -
  let ?x = "ReadGroup 1 ''g'' ''a'' ''>'' 1 False demo_stream"
  let ?s2 = "snd (SetGroupID ''g'' ''0-0'' (snd (projr ?x)))"
  let ?y = "ReadGroup 2 ''g'' ''b'' ''>'' 1 False ?s2"
  have x: "?x = Inr (fst (projr ?x), snd (projr ?x))" by (rule Inr_projr) code_simp
  have y: "?y = Inr (fst (projr ?y), snd (projr ?y))" by (rule Inr_projr) code_simp
  have ok: "group_ok ''g'' demo_stream demo_group" by code_simp
  have l: "cg_LastDeliveredID demo_group = ''0-0''" by (simp add: demo_group_def)
  have r: "map se_ID (fst (projr ?x)) = [''1-0'']" by code_simp
  then obtain e where e: "fst (projr ?x) = [e]" "se_ID e = ''1-0''" by auto
  have "''a'' \<noteq> ''b''" by simp
  from SetGroupID_stale_pending [OF ok this x _ y surjective_pairing, unfolded l, OF surjective_pairing, unfolded r]
  show ?thesis by (simp add: Let_def case_prod_unfold e)
qed

subsection \<open>Limits of the order\<close>

lemma StreamID_String_explicit: "StreamID_String a \<noteq> ''*''" "\<not> HasSuffix (StreamID_String a) ''-*''"
proof -
  obtain c cs where c: "rev (FormatUint (Seq a)) = c # cs" by (cases "rev (FormatUint (Seq a))") auto
  then have "is_digit c" using FormatUint_digits [of c "Seq a"] by (metis list.set_intros(1) set_rev)
  then show "\<not> HasSuffix (StreamID_String a) ''-*''"
    by (auto simp: HasSuffix_def StreamID_String_def c is_digit_def)
  have "length (StreamID_String a) \<noteq> 1" by (simp add: StreamID_String_def)
  then show "StreamID_String a \<noteq> ''*''" by auto
qed

text \<open>
  Property C39: two ways an identifier escapes the order. On a stream without entries, every explicit
  identifier is accepted, however far below the last one assigned (the check is only made on a
  stream with entries), and a group whose last delivered identifier is not below it never delivers
  that entry. And after the sequence number \<open>2 ^ 64 - 1\<close>, as long as the clock is not ahead of the
  last identifier, an automatic identifier wraps round to 0 and lies below the last one, so that the
  stream is out of order if it still holds that one.
\<close>

theorem Stream_Add_order_escapes:
  assumes "stream_ok s" and "sid_ok a"
  shows "(st_entries s = [] \<longrightarrow> (\<exists>s'. Stream_Add now (StreamID_String a) flds order s = Inr (StreamID_String a, s') \<and>
      map se_ID (st_entries s') = [StreamID_String a] \<and> st_lastID s' = a \<and>
      (\<forall>g l. ParseStreamID (cg_LastDeliveredID g) = Some l \<and> \<not> sid_lt l a \<longrightarrow> undelivered g (st_entries s') = []))) \<and>
    (Seq (st_lastID s) = 2 ^ 64 - 1 \<and> nat (now mod 2 ^ 64) \<le> Millis (st_lastID s) \<longrightarrow>
      (\<exists>s'. Stream_Add now ''*'' flds order s = Inr (StreamID_String (StreamID (Millis (st_lastID s)) 0), s') \<and>
        sid_lt (st_lastID s') (st_lastID s) \<and>
        (StreamID_String (st_lastID s) \<in> se_ID ` set (st_entries s) \<longrightarrow> \<not> stream_ok s')))"
proof (intro conjI impI)
  let ?e = "\<lparr>se_ID = StreamID_String a, se_Fields = flds, se_Order = order\<rparr>"
  assume "st_entries s = []"
  then have "Stream_Add now (StreamID_String a) flds order s =
      Inr (StreamID_String a, s\<lparr>st_lastID := a, st_entries := [?e], st_waiters := []\<rparr>)"
    using ParseStreamID_String [OF assms(2)] StreamID_String_explicit [of a]
    by (simp add: Stream_Add_def assign_id_def Let_def)
  moreover have "undelivered g [?e] = []" if "ParseStreamID (cg_LastDeliveredID g) = Some l \<and> \<not> sid_lt l a" for g l
    using undelivered_sid [of "[?e]" g l] entry_ok_new [OF assms(2), of flds order] that by simp
  ultimately show "\<exists>s'. Stream_Add now (StreamID_String a) flds order s = Inr (StreamID_String a, s') \<and>
      map se_ID (st_entries s') = [StreamID_String a] \<and> st_lastID s' = a \<and>
      (\<forall>g l. ParseStreamID (cg_LastDeliveredID g) = Some l \<and> \<not> sid_lt l a \<longrightarrow> undelivered g (st_entries s') = [])"
    by auto
next
  let ?l = "st_lastID s" and ?a = "StreamID (Millis (st_lastID s)) 0"
  let ?e = "\<lparr>se_ID = StreamID_String ?a, se_Fields = flds, se_Order = order\<rparr>"
  let ?s = "s\<lparr>st_lastID := ?a, st_entries := st_entries s @ [?e], st_waiters := []\<rparr>"
  assume full: "Seq ?l = 2 ^ 64 - 1 \<and> nat (now mod 2 ^ 64) \<le> Millis ?l"
  then have add: "Stream_Add now ''*'' flds order s = Inr (StreamID_String ?a, ?s)"
    by (simp add: Stream_Add_def assign_id_def next_seq_def Let_def)
  have less: "sid_lt ?a ?l" using full by (simp add: sid_lt_def)
  have "\<not> stream_ok ?s" if held: "StreamID_String ?l \<in> se_ID ` set (st_entries s)"
  proof
    assume "stream_ok ?s"
    moreover obtain e where e: "e \<in> set (st_entries s)" "se_ID e = StreamID_String ?l" using held by auto
    moreover have "entry_sid e = ?l"
      using e(2) assms(1) ParseStreamID_String [of ?l] by (simp add: entry_sid_def stream_ok_def)
    ultimately show False using less by (auto simp: stream_ok_def list_all_iff)
  qed
  then show "\<exists>s'. Stream_Add now ''*'' flds order s = Inr (StreamID_String ?a, s') \<and> sid_lt (st_lastID s') ?l \<and>
      (StreamID_String ?l \<in> se_ID ` set (st_entries s) \<longrightarrow> \<not> stream_ok s')"
    using add less by (intro exI [of _ ?s]) simp
qed

theorem Stream_Add_order_escapes_witness:
  "(\<exists>s'. Stream_Add 0 ''1-1'' [] [] (snd (Stream_Delete [''2-0'', ''1-0''] demo_stream)) = Inr (''1-1'', s') \<and>
      undelivered (demo_group\<lparr>cg_LastDeliveredID := ''2-0''\<rparr>) (st_entries s') = []) \<and>
   (\<exists>s'. Stream_Add 0 ''*'' [] [] (demo_stream\<lparr>st_entries := [\<lparr>se_ID = ''9-18446744073709551615'', se_Fields = [], se_Order = []\<rparr>],
      st_lastID := StreamID 9 18446744073709551615\<rparr>) = Inr (''9-0'', s') \<and> \<not> stream_ok s')"
proof
  let ?s = "snd (Stream_Delete [''2-0'', ''1-0''] demo_stream)" and ?a = "StreamID 1 1"
  have 1: "stream_ok ?s" "sid_ok ?a" "st_entries ?s = []" "StreamID_String ?a = ''1-1''"
    "ParseStreamID ''2-0'' = Some (StreamID 2 0)" "\<not> sid_lt (StreamID 2 0) ?a" by code_simp+
  from Stream_Add_order_escapes [OF 1(1,2), THEN conjunct1, rule_format, OF 1(3), of 0 "[]" "[]", unfolded 1(4)]
  show "\<exists>s'. Stream_Add 0 ''1-1'' [] [] ?s = Inr (''1-1'', s') \<and>
      undelivered (demo_group\<lparr>cg_LastDeliveredID := ''2-0''\<rparr>) (st_entries s') = []"
    using 1(5,6) by fastforce
next
  let ?s = "demo_stream\<lparr>st_entries := [\<lparr>se_ID = ''9-18446744073709551615'', se_Fields = [], se_Order = []\<rparr>],
      st_lastID := StreamID 9 18446744073709551615\<rparr>"
  have 1: "stream_ok ?s" "sid_ok (StreamID 0 0)" "StreamID_String (StreamID 9 0) = ''9-0''"
    "StreamID_String (StreamID 9 18446744073709551615) = ''9-18446744073709551615''" by code_simp+
  from Stream_Add_order_escapes [OF 1(1,2), THEN conjunct2, of 0 "[]" "[]"]
  show "\<exists>s'. Stream_Add 0 ''*'' [] [] ?s = Inr (''9-0'', s') \<and> \<not> stream_ok s'"
    by (auto simp: 1(3,4))
qed

end
