(* ===== verification/Skiplist.thy ===== *)
theory Skiplist
  imports Data_Structs
begin

unbundle bit_operations_syntax

text \<open>
  The sorted sets of src/internal/datastruct/skiplist.go: an indexable skip list with a map from
  members to scores.

  Nodes live in a list of records and a pointer is an index into it; index 0 is the header and a
  new node is appended, as an allocation. A level of a node is its forward pointer and its span.
  Spans are integers: the invariant shows each is the distance it stands for, so the unsigned
  arithmetic of the source never wraps. Scores are IEEE double-precision patterns, compared
  through their sign and magnitude. The random level of a new node is an argument; \<open>randomLevel\<close>
  gives its range.

  The locale \<open>sorted_set\<close> is the contract: insertion and deletion act on the ascending list of
  scored members, whose indices are the ranks.
\<close>

subsection \<open>Scores\<close>

type_synonym float64 = "64 word"

definition float_mag :: "float64 \<Rightarrow> int" where
  "float_mag f = uint (f AND 0x7FFFFFFFFFFFFFFF)"

definition float_nan :: "float64 \<Rightarrow> bool" where
  "float_nan f \<longleftrightarrow> float_mag f > 0x7FF0000000000000"

definition float_key :: "float64 \<Rightarrow> int" where
  "float_key f = (if bit f 63 then - float_mag f else float_mag f)"

definition float_less :: "float64 \<Rightarrow> float64 \<Rightarrow> bool" where
  "float_less a b \<longleftrightarrow> \<not> float_nan a \<and> \<not> float_nan b \<and> float_key a < float_key b"

definition float_eq :: "float64 \<Rightarrow> float64 \<Rightarrow> bool" where
  "float_eq a b \<longleftrightarrow> \<not> float_nan a \<and> \<not> float_nan b \<and> float_key a = float_key b"

subsection \<open>State\<close>

definition SkipListMaxLevel :: nat where
  "SkipListMaxLevel = 32"

record SkipListNode =
  sn_Member :: string
  sn_Score :: float64
  sn_Backward :: "nat option"
  sn_Level :: "(nat option \<times> int) list"

record SkipList =
  sl_nodes :: "SkipListNode list"
  sl_Tail :: "nat option"
  sl_Length :: int
  sl_Level :: nat
  sl_dict :: "(string, float64) gomap"

definition NewSkipList :: SkipList where
  "NewSkipList =
     \<lparr>sl_nodes = [\<lparr>sn_Member = [], sn_Score = 0, sn_Backward = None,
                   sn_Level = replicate SkipListMaxLevel (None, 0)\<rparr>],
      sl_Tail = None, sl_Length = 0, sl_Level = 1, sl_dict = []\<rparr>"

text \<open>
  \<open>randomLevel\<close> on the draws of the generator. The test compares a 16-bit integer with
  \<open>0.25 * 0xFFFF = 16383.75\<close>, so it passes for the integers up to 16383.
\<close>

fun randomLevel_from :: "nat \<Rightarrow> nat list \<Rightarrow> nat" where
  "randomLevel_from lvl [] = lvl"
| "randomLevel_from lvl (r # rs) =
     (if r mod 2 ^ 16 \<le> 16383 then
        (if lvl + 1 \<ge> SkipListMaxLevel then lvl + 1 else randomLevel_from (lvl + 1) rs)
      else lvl)"

definition randomLevel :: "nat list \<Rightarrow> nat" where
  "randomLevel draws = randomLevel_from 1 draws"

definition sl_Len :: "SkipList \<Rightarrow> int" where
  "sl_Len sl = sl_Length sl"

definition level_at :: "SkipList \<Rightarrow> nat \<Rightarrow> nat \<Rightarrow> nat option \<times> int" where
  "level_at sl x i = sn_Level (sl_nodes sl ! x) ! i"

abbreviation fwd :: "SkipList \<Rightarrow> nat \<Rightarrow> nat \<Rightarrow> nat option" where
  "fwd sl x i \<equiv> fst (level_at sl x i)"

abbreviation span :: "SkipList \<Rightarrow> nat \<Rightarrow> nat \<Rightarrow> int" where
  "span sl x i \<equiv> snd (level_at sl x i)"

definition set_level :: "nat \<Rightarrow> nat \<Rightarrow> nat option \<times> int \<Rightarrow> SkipList \<Rightarrow> SkipList" where
  "set_level x i l sl =
     sl\<lparr>sl_nodes := (sl_nodes sl)[x := (sl_nodes sl ! x)\<lparr>sn_Level := (sn_Level (sl_nodes sl ! x))[i := l]\<rparr>]\<rparr>"

definition set_backward :: "nat \<Rightarrow> nat option \<Rightarrow> SkipList \<Rightarrow> SkipList" where
  "set_backward x b sl =
     sl\<lparr>sl_nodes := (sl_nodes sl)[x := (sl_nodes sl ! x)\<lparr>sn_Backward := b\<rparr>]\<rparr>"

subsection \<open>Searching\<close>

text \<open>
  The inner loop at one level: move along while \<open>go rank node\<close> holds of the rank after the step
  and the next node. The fuel bounds the number of steps; it starts as the number of nodes.
\<close>

fun walk :: "nat \<Rightarrow> (int \<Rightarrow> SkipListNode \<Rightarrow> bool) \<Rightarrow> SkipList \<Rightarrow> nat \<Rightarrow> nat \<Rightarrow> int \<Rightarrow> nat \<times> int" where
  "walk 0 go sl i x rank = (x, rank)"
| "walk (Suc f) go sl i x rank =
     (case fwd sl x i of
        None \<Rightarrow> (x, rank)
      | Some y \<Rightarrow>
          if go (rank + span sl x i) (sl_nodes sl ! y) then walk f go sl i y (rank + span sl x i)
          else (x, rank))"

abbreviation walk_level :: "(int \<Rightarrow> SkipListNode \<Rightarrow> bool) \<Rightarrow> SkipList \<Rightarrow> nat \<Rightarrow> nat \<Rightarrow> int \<Rightarrow> nat \<times> int" where
  "walk_level go sl i x rank \<equiv> walk (length (sl_nodes sl)) go sl i x rank"

text \<open>The outer loop from level \<open>n - 1\<close> down to 0, with the arrays \<open>update\<close> and \<open>rank\<close> by level.\<close>

fun descend :: "(int \<Rightarrow> SkipListNode \<Rightarrow> bool) \<Rightarrow> SkipList \<Rightarrow> nat \<Rightarrow> nat \<Rightarrow> int \<Rightarrow> nat list \<times> int list" where
  "descend go sl 0 x rank = ([], [])"
| "descend go sl (Suc i) x rank =
     (let (x', r') = walk_level go sl i x rank;
          (update, ranks) = descend go sl i x' r'
      in (update @ [x'], ranks @ [r']))"

definition before :: "float64 \<Rightarrow> string \<Rightarrow> int \<Rightarrow> SkipListNode \<Rightarrow> bool" where
  "before score member rank node \<longleftrightarrow>
     float_less (sn_Score node) score \<or> float_eq (sn_Score node) score \<and> sn_Member node < member"

definition upto_member :: "float64 \<Rightarrow> string \<Rightarrow> int \<Rightarrow> SkipListNode \<Rightarrow> bool" where
  "upto_member score member rank node \<longleftrightarrow>
     float_less (sn_Score node) score \<or> float_eq (sn_Score node) score \<and> sn_Member node \<le> member"

subsection \<open>Deletion\<close>

definition unlink_level :: "nat list \<Rightarrow> nat \<Rightarrow> nat \<Rightarrow> SkipList \<Rightarrow> SkipList" where
  "unlink_level update target i sl =
     (let u = update ! i in
      if fwd sl u i = Some target then
        set_level u i (fwd sl target i, span sl u i + (span sl target i - 1)) sl
      else set_level u i (fwd sl u i, span sl u i - 1) sl)"

fun lower_level :: "SkipList \<Rightarrow> nat \<Rightarrow> nat" where
  "lower_level sl 0 = 0"
| "lower_level sl (Suc l) =
     (if Suc l > 1 \<and> fwd sl 0 l = None then lower_level sl l else Suc l)"

definition finish_detach :: "nat \<Rightarrow> SkipList \<Rightarrow> SkipList" where
  "finish_detach target sl =
     (let back = sn_Backward (sl_nodes sl ! target);
          sl1 = (case fwd sl target 0 of
                   Some y \<Rightarrow> set_backward y back sl
                 | None \<Rightarrow> sl\<lparr>sl_Tail := back\<rparr>)
      in sl1\<lparr>sl_Level := lower_level sl1 (sl_Level sl1), sl_Length := sl_Length sl1 - 1\<rparr>)"

text \<open>Taking \<open>target\<close> out, once it has been found and the arrays are known.\<close>

definition detach :: "nat list \<Rightarrow> nat \<Rightarrow> SkipList \<Rightarrow> SkipList" where
  "detach update target sl =
     finish_detach target (fold (unlink_level update target) [0..<sl_Level sl] sl)"

definition deleteUnsafe :: "string \<Rightarrow> SkipList \<Rightarrow> bool \<times> SkipList" where
  "deleteUnsafe member sl =
     (case gget (sl_dict sl) member of
        None \<Rightarrow> (False, sl)
      | Some score \<Rightarrow>
          (let update = fst (descend (before score member) sl (sl_Level sl) 0 0) in
           case fwd sl (update ! 0) 0 of
             None \<Rightarrow> (False, sl)
           | Some target \<Rightarrow>
               if float_eq (sn_Score (sl_nodes sl ! target)) score \<and> sn_Member (sl_nodes sl ! target) = member then
                 (let sl1 = detach update target sl
                  in (True, sl1\<lparr>sl_dict := gdel member (sl_dict sl1)\<rparr>))
               else (False, sl)))"

definition sl_Delete :: "string \<Rightarrow> SkipList \<Rightarrow> bool \<times> SkipList" where
  "sl_Delete member sl = deleteUnsafe member sl"

subsection \<open>Insertion\<close>

definition link_level :: "nat list \<Rightarrow> int list \<Rightarrow> nat \<Rightarrow> nat \<Rightarrow> SkipList \<Rightarrow> SkipList" where
  "link_level update rank node i sl =
     (let u = update ! i;
          sl1 = set_level node i (fwd sl u i, span sl u i - (rank ! 0 - rank ! i)) sl
      in set_level u i (Some node, (rank ! 0 - rank ! i) + 1) sl1)"

definition bump_span :: "nat list \<Rightarrow> nat \<Rightarrow> SkipList \<Rightarrow> SkipList" where
  "bump_span update i sl = set_level (update ! i) i (fwd sl (update ! i) i, span sl (update ! i) i + 1) sl"

definition open_level :: "nat \<Rightarrow> SkipList \<Rightarrow> SkipList" where
  "open_level i sl = set_level 0 i (fwd sl 0 i, sl_Length sl) sl"

definition open_levels :: "nat \<Rightarrow> SkipList \<Rightarrow> SkipList" where
  "open_levels level sl =
     (fold open_level [sl_Level sl..<level] sl)\<lparr>sl_Level := max (sl_Level sl) level\<rparr>"

text \<open>The end of the insertion: the backward pointers, the tail and the length.\<close>

definition finish_attach :: "nat \<Rightarrow> nat \<Rightarrow> SkipList \<Rightarrow> SkipList" where
  "finish_attach node u sl =
     (let sl1 = set_backward node (if u = 0 then None else Some u) sl;
          sl2 = (case fwd sl1 node 0 of
                   Some y \<Rightarrow> set_backward y (Some node) sl1
                 | None \<Rightarrow> sl1\<lparr>sl_Tail := Some node\<rparr>)
      in sl2\<lparr>sl_Length := sl_Length sl2 + 1\<rparr>)"

definition new_node :: "nat \<Rightarrow> float64 \<Rightarrow> string \<Rightarrow> SkipListNode" where
  "new_node level score member =
     \<lparr>sn_Member = member, sn_Score = score, sn_Backward = None, sn_Level = replicate level (None, 0)\<rparr>"

abbreviation alloc :: "nat \<Rightarrow> float64 \<Rightarrow> string \<Rightarrow> SkipList \<Rightarrow> SkipList" where
  "alloc level score member sl \<equiv> sl\<lparr>sl_nodes := sl_nodes sl @ [new_node level score member]\<rparr>"

text \<open>Linking a new node in, once the arrays are known.\<close>

definition attach :: "nat \<Rightarrow> float64 \<Rightarrow> string \<Rightarrow> nat list \<Rightarrow> int list \<Rightarrow> SkipList \<Rightarrow> SkipList" where
  "attach level score member update rank sl =
     (let node = length (sl_nodes sl);
          sl1 = alloc level score member sl;
          sl2 = fold (link_level update rank node) [0..<level] sl1;
          sl3 = fold (bump_span update) [level..<sl_Level sl2] sl2
      in finish_attach node (update ! 0) sl3)"

definition insert_new :: "nat \<Rightarrow> float64 \<Rightarrow> string \<Rightarrow> SkipList \<Rightarrow> SkipList" where
  "insert_new level score member sl =
     (let (update, rank) = descend (before score member) sl (sl_Level sl) 0 0;
          extra = level - sl_Level sl;
          sl1 = attach level score member (update @ replicate extra 0) (rank @ replicate extra 0)
                  (open_levels level sl)
      in sl1\<lparr>sl_dict := gput member score (sl_dict sl1)\<rparr>)"

definition sl_Insert :: "nat \<Rightarrow> float64 \<Rightarrow> string \<Rightarrow> SkipList \<Rightarrow> SkipList" where
  "sl_Insert level score member sl =
     insert_new level score member
       (if gget (sl_dict sl) member \<noteq> None then snd (deleteUnsafe member sl) else sl)"

subsection \<open>Queries\<close>

definition GetScore :: "string \<Rightarrow> SkipList \<Rightarrow> float64 option" where
  "GetScore member sl = gget (sl_dict sl) member"

fun rank_loop :: "(int \<Rightarrow> SkipListNode \<Rightarrow> bool) \<Rightarrow> string \<Rightarrow> SkipList \<Rightarrow> nat \<Rightarrow> nat \<Rightarrow> int \<Rightarrow> int" where
  "rank_loop go member sl 0 x rank = -1"
| "rank_loop go member sl (Suc i) x rank =
     (let (x', r') = walk_level go sl i x rank in
      if sn_Member (sl_nodes sl ! x') = member then r' - 1
      else rank_loop go member sl i x' r')"

definition GetRank :: "string \<Rightarrow> SkipList \<Rightarrow> int" where
  "GetRank member sl =
     (case gget (sl_dict sl) member of
        None \<Rightarrow> -1
      | Some score \<Rightarrow> rank_loop (upto_member score member) member sl (sl_Level sl) 0 0)"

fun element_loop :: "int \<Rightarrow> SkipList \<Rightarrow> nat \<Rightarrow> nat \<Rightarrow> int \<Rightarrow> nat option" where
  "element_loop rank sl 0 x traversed = None"
| "element_loop rank sl (Suc i) x traversed =
     (let (x', t') = walk_level (\<lambda>t _. t \<le> rank) sl i x traversed in
      if t' = rank then Some x' else element_loop rank sl i x' t')"

definition GetElementByRank :: "int \<Rightarrow> SkipList \<Rightarrow> nat option" where
  "GetElementByRank rank sl = element_loop rank sl (sl_Level sl) 0 0"

fun collect :: "(SkipListNode \<Rightarrow> nat option) \<Rightarrow> SkipList \<Rightarrow> nat \<Rightarrow> nat option \<Rightarrow> (string \<times> float64) list" where
  "collect next sl 0 x = []"
| "collect next sl (Suc n) None = []"
| "collect next sl (Suc n) (Some x) =
     (let nd = sl_nodes sl ! x in (sn_Member nd, sn_Score nd) # collect next sl n (next nd))"

definition sl_Range :: "int \<Rightarrow> int \<Rightarrow> bool \<Rightarrow> SkipList \<Rightarrow> (string \<times> float64) list" where
  "sl_Range start stop reverse sl =
     (if sl_Length sl = 0 then []
      else
        let start = (if start < 0 then sl_Length sl + start else start);
            stop = (if stop < 0 then sl_Length sl + stop else stop);
            start = (if start < 0 then 0 else start);
            stop = (if stop \<ge> sl_Length sl then sl_Length sl - 1 else stop)
        in if start > stop \<or> start \<ge> sl_Length sl then []
           else if \<not> reverse then
             collect (\<lambda>nd. fst (sn_Level nd ! 0)) sl (nat (stop - start + 1)) (GetElementByRank (start + 1) sl)
           else
             collect sn_Backward sl (nat (stop - start + 1)) (GetElementByRank (sl_Length sl - start) sl))"

subsection \<open>Positions\<close>

text \<open>
  Positions count from the header, which is at 0. Given the heights \<open>hs\<close> of the nodes by position,
  \<open>nxt hs i p\<close> is the next position after \<open>p\<close> whose node has a level \<open>i\<close>, and \<open>link_at\<close> what
  level \<open>i\<close> of the node at \<open>p\<close> has to hold.
\<close>

definition nxt :: "nat list \<Rightarrow> nat \<Rightarrow> nat \<Rightarrow> nat option" where
  "nxt hs i p = find (\<lambda>q. i < hs ! q) [Suc p..<length hs]"

definition link_at :: "nat list \<Rightarrow> nat list \<Rightarrow> nat \<Rightarrow> nat \<Rightarrow> nat option \<times> int" where
  "link_at hs ps i p =
     (case nxt hs i p of
        Some q \<Rightarrow> (Some (ps ! q), int q - int p)
      | None \<Rightarrow> (None, int (length ps) - 1 - int p))"

lemma nxt_None: "nxt hs i p = None \<longleftrightarrow> (\<forall>r. p < r \<and> r < length hs \<longrightarrow> hs ! r \<le> i)"
  by (simp add: nxt_def find_None_iff Suc_le_eq) (metis linorder_not_less)

lemma nxt_Some:
  "nxt hs i p = Some q \<longleftrightarrow> p < q \<and> q < length hs \<and> i < hs ! q \<and> (\<forall>r. p < r \<and> r < q \<longrightarrow> hs ! r \<le> i)"
proof
  assume "nxt hs i p = Some q"
  then obtain j where j: "j < length hs - Suc p" "i < hs ! (Suc p + j)" "q = Suc p + j"
    "\<forall>k<j. \<not> i < hs ! (Suc p + k)"
    by (auto simp: nxt_def find_Some_iff)
  have "hs ! r \<le> i" if "p < r" "r < q" for r
  proof -
    have "r - Suc p < j" "Suc p + (r - Suc p) = r" using that j(3) by auto
    then show ?thesis using j(4) by (metis not_less)
  qed
  then show "p < q \<and> q < length hs \<and> i < hs ! q \<and> (\<forall>r. p < r \<and> r < q \<longrightarrow> hs ! r \<le> i)"
    using j by auto
next
  assume *: "p < q \<and> q < length hs \<and> i < hs ! q \<and> (\<forall>r. p < r \<and> r < q \<longrightarrow> hs ! r \<le> i)"
  show "nxt hs i p = Some q"
    unfolding nxt_def find_Some_iff
    by (rule exI [of _ "q - Suc p"]) (use * in \<open>auto simp: not_less\<close>)
qed

definition ins_at :: "nat \<Rightarrow> 'a \<Rightarrow> 'a list \<Rightarrow> 'a list" where
  "ins_at k x xs = take k xs @ [x] @ drop k xs"

definition del_at :: "nat \<Rightarrow> 'a list \<Rightarrow> 'a list" where
  "del_at k xs = take k xs @ drop (Suc k) xs"

lemma length_ins_at [simp]: "length (ins_at k x xs) = Suc (length xs)"
  by (simp add: ins_at_def)

lemma nth_ins_at:
  "k \<le> length xs \<Longrightarrow> ins_at k x xs ! j = (if j < k then xs ! j else if j = k then x else xs ! (j - 1))"
  by (auto simp: ins_at_def nth_append nth_Cons' min_def)

lemma length_del_at [simp]: "k < length xs \<Longrightarrow> length (del_at k xs) = length xs - 1"
  by (simp add: del_at_def)

lemma nth_del_at: "k < length xs \<Longrightarrow> del_at k xs ! j = (if j < k then xs ! j else xs ! Suc j)"
  by (auto simp: del_at_def nth_append min_def)

text \<open>\<open>cut hs i k u\<close>: \<open>u\<close> is the last position up to \<open>k\<close> whose node has a level \<open>i\<close>.\<close>

definition cut :: "nat list \<Rightarrow> nat \<Rightarrow> nat \<Rightarrow> nat \<Rightarrow> bool" where
  "cut hs i k u \<longleftrightarrow> u \<le> k \<and> i < hs ! u \<and> (\<forall>r. u < r \<and> r \<le> k \<longrightarrow> hs ! r \<le> i)"

lemma cut_unique: "cut hs i k u \<Longrightarrow> cut hs i k v \<Longrightarrow> u = v"
  unfolding cut_def by (metis linorder_neqE_nat not_less)

lemma cut_0: "i < hs ! k \<Longrightarrow> cut hs i k u \<longleftrightarrow> u = k"
  unfolding cut_def by (metis le_neq_implies_less le_refl not_less)

text \<open>Inserting a node of height \<open>h\<close> after position \<open>k\<close>: what happens to each link.\<close>

lemma nth_ins:
  "k < length hs \<Longrightarrow> ins_at (Suc k) h hs ! j = (if j \<le> k then hs ! j else if j = Suc k then h else hs ! (j - 1))"
  by (auto simp: nth_ins_at)

lemma nxt_SomeD:
  assumes "nxt hs i p = Some q"
  shows "p < q" and "q < length hs" and "i < hs ! q" and "p < r \<Longrightarrow> r < q \<Longrightarrow> hs ! r \<le> i"
  using assms by (auto simp: nxt_Some)

lemma nxt_le: "p < u \<Longrightarrow> u < length hs \<Longrightarrow> i < hs ! u \<Longrightarrow> \<exists>q \<le> u. nxt hs i p = Some q"
proof (cases "nxt hs i p")
  case (Some q)
  assume "p < u" "i < hs ! u"
  then have "\<not> u < q" using nxt_SomeD(4) [OF Some, of u] by auto
  then show ?thesis using Some by auto
qed (auto simp: nxt_None)

lemma nxt_ins_after:
  assumes k: "k < length hs" and "k < p"
  shows "nxt (ins_at (Suc k) h hs) i (Suc p) = map_option Suc (nxt hs i p)"
proof (cases "nxt hs i p")
  case None
  have "ins_at (Suc k) h hs ! r \<le> i" if r: "Suc p < r" "r < Suc (length hs)" for r
  proof -
    have "p < r - 1" "r - 1 < length hs" using r by auto
    then have "hs ! (r - 1) \<le> i" using None by (simp only: nxt_None)
    then show ?thesis using r assms by (simp add: nth_ins)
  qed
  then have "nxt (ins_at (Suc k) h hs) i (Suc p) = None" by (simp add: nxt_None)
  then show ?thesis using None by simp
next
  case (Some q)
  note q = nxt_SomeD [OF Some]
  have "ins_at (Suc k) h hs ! r \<le> i" if "Suc p < r" "r < Suc q" for r
    using q(4) [of "r - 1"] that assms by (simp add: nth_ins)
  then have "nxt (ins_at (Suc k) h hs) i (Suc p) = Some (Suc q)"
    unfolding nxt_Some using q(1-3) assms by (simp add: nth_ins)
  then show ?thesis using Some by simp
qed

lemma nxt_ins_before:
  assumes "k < length hs" and "nxt hs i p = Some q" and "q \<le> k"
  shows "nxt (ins_at (Suc k) h hs) i p = Some q"
  unfolding nxt_Some using nxt_SomeD [OF assms(2)] assms(1,3) by (simp add: nth_ins)

lemma cut_nxt: "cut hs i k u \<Longrightarrow> nxt hs i u = Some q \<Longrightarrow> k < q"
  by (auto simp: cut_def nxt_Some not_less [symmetric])

text \<open>From the cut on, the old list and the new one agree up to the shift.\<close>

lemma nxt_ins_shift:
  assumes k: "k < length hs" and u: "cut hs i k u" and v: "u \<le> v" "v \<le> Suc k"
    and skip: "v < Suc k \<Longrightarrow> h \<le> i"
  shows "nxt (ins_at (Suc k) h hs) i v = map_option Suc (nxt hs i u)"
proof -
  have low: "ins_at (Suc k) h hs ! r \<le> i" if "v < r" "r \<le> Suc k" for r
    using that u v skip k by (cases "r = Suc k") (auto simp: nth_ins cut_def)
  show ?thesis
  proof (cases "nxt hs i u")
    case None
    have "ins_at (Suc k) h hs ! r \<le> i" if r: "v < r" "r < Suc (length hs)" for r
    proof (cases "r \<le> Suc k")
      case False
      then have "u < r - 1" "r - 1 < length hs" using u r by (auto simp: cut_def)
      then have "hs ! (r - 1) \<le> i" using None by (simp only: nxt_None)
      then show ?thesis using False k by (simp add: nth_ins)
    qed (use low r in blast)
    then have "nxt (ins_at (Suc k) h hs) i v = None" by (simp add: nxt_None)
    then show ?thesis using None by simp
  next
    case (Some q)
    note q = nxt_SomeD [OF Some] and kq = cut_nxt [OF u Some]
    have "ins_at (Suc k) h hs ! r \<le> i" if r: "v < r" "r < Suc q" for r
    proof (cases "r \<le> Suc k")
      case False
      then have "hs ! (r - 1) \<le> i" using q(4) [of "r - 1"] r u by (auto simp: cut_def)
      then show ?thesis using False k by (simp add: nth_ins)
    qed (use low r in blast)
    then have "nxt (ins_at (Suc k) h hs) i v = Some (Suc q)"
      unfolding nxt_Some using q kq k v by (simp add: nth_ins)
    then show ?thesis using Some by simp
  qed
qed

lemma nxt_ins_cut:
  assumes "k < length hs" and "cut hs i k u" and "i < h"
  shows "nxt (ins_at (Suc k) h hs) i u = Some (Suc k)"
  unfolding nxt_Some using assms by (simp add: nth_ins cut_def)

text \<open>The links of the list with the new node, in terms of the old ones.\<close>

lemma link_ins:
  fixes h n :: nat
  assumes k: "k < length hs" and ps: "length ps = length hs" and u: "cut hs i k u"
  defines "hs' \<equiv> ins_at (Suc k) h hs" and "ps' \<equiv> ins_at (Suc k) n ps"
  shows "p < u \<Longrightarrow> nxt hs i p \<noteq> None \<Longrightarrow> the (nxt hs i p) \<le> u \<Longrightarrow> link_at hs' ps' i p = link_at hs ps i p"
    and "k < p \<Longrightarrow> link_at hs' ps' i (Suc p) = link_at hs ps i p"
    and "i < h \<Longrightarrow> link_at hs' ps' i u = (Some n, int k - int u + 1)"
    and "i < h \<Longrightarrow> link_at hs' ps' i (Suc k) = (fst (link_at hs ps i u), snd (link_at hs ps i u) - (int k - int u))"
    and "h \<le> i \<Longrightarrow> link_at hs' ps' i u = (fst (link_at hs ps i u), snd (link_at hs ps i u) + 1)"
proof -
  have uk: "u \<le> k" using u by (simp add: cut_def)
  have nth: "ps' ! q = ps ! q" if "q \<le> k" for q using that k ps by (simp add: ps'_def nth_ins)
  have nthS: "ps' ! Suc q = ps ! q" if "k < q" for q using that k ps by (simp add: ps'_def nth_ins)
  have nthn: "ps' ! Suc k = n" using k ps by (simp add: ps'_def nth_ins)
  have len: "length ps' = Suc (length ps)" by (simp add: ps'_def)
  note cutq = cut_nxt [OF u]
  show "p < u \<Longrightarrow> nxt hs i p \<noteq> None \<Longrightarrow> the (nxt hs i p) \<le> u \<Longrightarrow> link_at hs' ps' i p = link_at hs ps i p"
    using nxt_ins_before [OF k, of i p _ h] uk nth by (auto simp: link_at_def hs'_def)
  show "link_at hs' ps' i (Suc p) = link_at hs ps i p" if p: "k < p"
  proof (cases "nxt hs i p")
    case (Some q)
    then have "k < q" using nxt_SomeD(1) [OF Some] p by simp
    then show ?thesis using Some nxt_ins_after [OF k p, of h i] nthS by (simp add: link_at_def hs'_def)
  qed (use nxt_ins_after [OF k p, of h i] len in \<open>simp add: link_at_def hs'_def\<close>)
  show "i < h \<Longrightarrow> link_at hs' ps' i u = (Some n, int k - int u + 1)"
    using nxt_ins_cut [OF k u] nthn by (simp add: link_at_def hs'_def)
  show "link_at hs' ps' i (Suc k) = (fst (link_at hs ps i u), snd (link_at hs ps i u) - (int k - int u))"
  proof (cases "nxt hs i u")
    case (Some q)
    then show ?thesis using nxt_ins_shift [OF k u, of "Suc k" h] uk nthS [OF cutq [OF Some]]
      by (simp add: link_at_def hs'_def)
  qed (use nxt_ins_shift [OF k u, of "Suc k" h] uk len in \<open>simp add: link_at_def hs'_def\<close>)
  show "link_at hs' ps' i u = (fst (link_at hs ps i u), snd (link_at hs ps i u) + 1)" if "h \<le> i"
  proof (cases "nxt hs i u")
    case (Some q)
    then show ?thesis using nxt_ins_shift [OF k u, of u h] that uk nthS [OF cutq [OF Some]]
      by (simp add: link_at_def hs'_def)
  qed (use nxt_ins_shift [OF k u, of u h] that uk len in \<open>simp add: link_at_def hs'_def\<close>)
qed

definition cutpos :: "nat list \<Rightarrow> nat \<Rightarrow> nat \<Rightarrow> nat" where
  "cutpos hs i k = Max {u. u \<le> k \<and> i < hs ! u}"

lemma cut_cutpos: "i < hs ! 0 \<Longrightarrow> cut hs i k (cutpos hs i k)"
proof -
  assume 0: "i < hs ! 0"
  let ?S = "{u. u \<le> k \<and> i < hs ! u}"
  have fin: "finite ?S" by simp
  have "0 \<in> ?S" using 0 by simp
  then have "Max ?S \<in> ?S" using Max_in [OF fin] by blast
  moreover have "hs ! r \<le> i" if "Max ?S < r" "r \<le> k" for r
  proof (rule ccontr)
    assume "\<not> hs ! r \<le> i"
    then have "r \<in> ?S" using that by simp
    then show False using Max_ge [OF fin] that(1) by fastforce
  qed
  ultimately show ?thesis by (simp add: cut_def cutpos_def)
qed

subsection \<open>The shape of the structure\<close>

definition heights :: "SkipList \<Rightarrow> nat list \<Rightarrow> nat list" where
  "heights sl ps = map (\<lambda>a. length (sn_Level (sl_nodes sl ! a))) ps"

text \<open>
  \<open>sl_shape sl as\<close>: the nodes at the addresses \<open>as\<close>, in this order, are linked at every level, with
  the spans that the positions ask for; the backward pointers, the tail and the length agree.
\<close>

definition sl_shape :: "SkipList \<Rightarrow> nat list \<Rightarrow> bool" where
  "sl_shape sl as \<longleftrightarrow>
     (let ps = 0 # as; hs = heights sl ps; L = sl_Level sl in
      distinct ps \<and> (\<forall>a \<in> set ps. a < length (sl_nodes sl)) \<and> hs ! 0 = 32 \<and> 1 \<le> L \<and> L \<le> 32 \<and>
      (\<forall>p < length as. 1 \<le> hs ! Suc p \<and> hs ! Suc p \<le> L) \<and>
      (\<forall>p < length ps. \<forall>i < L. i < hs ! p \<longrightarrow> level_at sl (ps ! p) i = link_at hs ps i p) \<and>
      (\<forall>i. L \<le> i \<and> i < 32 \<longrightarrow> fwd sl 0 i = None) \<and>
      (\<forall>p < length as. sn_Backward (sl_nodes sl ! (as ! p)) = (if p = 0 then None else Some (as ! (p - 1)))) \<and>
      sl_Tail sl = (if as = [] then None else Some (last as)) \<and>
      sl_Length sl = int (length as))"

lemma sl_shapeD:
  assumes "sl_shape sl as"
  defines "ps \<equiv> 0 # as"
  shows "distinct ps" and "a \<in> set ps \<Longrightarrow> a < length (sl_nodes sl)" and "heights sl ps ! 0 = 32"
    and "1 \<le> sl_Level sl" and "sl_Level sl \<le> 32"
    and "p < length as \<Longrightarrow> 1 \<le> heights sl ps ! Suc p"
    and "p < length as \<Longrightarrow> heights sl ps ! Suc p \<le> sl_Level sl"
    and "p < length ps \<Longrightarrow> i < sl_Level sl \<Longrightarrow> i < heights sl ps ! p \<Longrightarrow>
      level_at sl (ps ! p) i = link_at (heights sl ps) ps i p"
    and "sl_Level sl \<le> i \<Longrightarrow> i < 32 \<Longrightarrow> fwd sl 0 i = None"
    and "p < length as \<Longrightarrow> sn_Backward (sl_nodes sl ! (as ! p)) = (if p = 0 then None else Some (as ! (p - 1)))"
    and "sl_Tail sl = (if as = [] then None else Some (last as))"
    and "sl_Length sl = int (length as)"
  using assms(1) unfolding sl_shape_def Let_def ps_def by blast+

lemma sl_shapeI:
  assumes "distinct (0 # as)" and "\<And>a. a \<in> set (0 # as) \<Longrightarrow> a < length (sl_nodes sl)"
    and "heights sl (0 # as) = hs" and "hs ! 0 = 32" and "1 \<le> sl_Level sl" and "sl_Level sl \<le> 32"
    and "\<And>p. p < length as \<Longrightarrow> 1 \<le> hs ! Suc p \<and> hs ! Suc p \<le> sl_Level sl"
    and "\<And>p i. p < length (0 # as) \<Longrightarrow> i < sl_Level sl \<Longrightarrow> i < hs ! p \<Longrightarrow>
      level_at sl ((0 # as) ! p) i = link_at hs (0 # as) i p"
    and "\<And>i. sl_Level sl \<le> i \<Longrightarrow> i < 32 \<Longrightarrow> fwd sl 0 i = None"
    and "\<And>p. p < length as \<Longrightarrow> sn_Backward (sl_nodes sl ! (as ! p)) = (if p = 0 then None else Some (as ! (p - 1)))"
    and "sl_Tail sl = (if as = [] then None else Some (last as))"
    and "sl_Length sl = int (length as)"
  shows "sl_shape sl as"
  unfolding sl_shape_def Let_def assms(3) using assms(1,2,4-12) by blast

lemma length_heights [simp]: "length (heights sl ps) = length ps"
  by (simp add: heights_def)

lemma nth_heights: "p < length ps \<Longrightarrow> heights sl ps ! p = length (sn_Level (sl_nodes sl ! (ps ! p)))"
  by (simp add: heights_def)

lemma height_pos:
  assumes "sl_shape sl as" and "p \<le> length as"
  shows "0 < heights sl (0 # as) ! p"
proof (cases p)
  case (Suc j)
  then show ?thesis using sl_shapeD(6) [OF assms(1), of j] assms(2) by simp
qed (simp add: sl_shapeD(3) [OF assms(1)])

subsection \<open>Searching finds the cut\<close>

lemma walk_cut:
  assumes sh: "sl_shape sl as" and i: "i < sl_Level sl" and k: "k \<le> length as"
    and go: "\<And>q. 1 \<le> q \<Longrightarrow> q \<le> length as \<Longrightarrow> go (int q) (sl_nodes sl ! ((0 # as) ! q)) \<longleftrightarrow> q \<le> k"
  shows "p \<le> k \<Longrightarrow> i < heights sl (0 # as) ! p \<Longrightarrow> k - p \<le> f \<Longrightarrow>
    walk f go sl i ((0 # as) ! p) (int p) = ((0 # as) ! cutpos (heights sl (0 # as)) i k, int (cutpos (heights sl (0 # as)) i k))"
proof (induction f arbitrary: p)
  let ?ps = "0 # as" and ?hs = "heights sl (0 # as)"
  have i0: "i < ?hs ! 0" using sl_shapeD(3,5) [OF sh] i by simp
  note C = cut_cutpos [OF i0, of k]
  {
    case 0
    then have "cutpos ?hs i k = p" using C cut_0 [of i ?hs k] by simp
    then show ?case by simp
  next
    case (Suc f)
    have p: "p < length ?ps" using Suc.prems(1) k by simp
    have lv: "level_at sl (?ps ! p) i = link_at ?hs ?ps i p"
      using sl_shapeD(8) [OF sh] p i Suc.prems(2) by simp
    show ?case
    proof (cases "nxt ?hs i p")
      case None
      then have "cut ?hs i k p" using Suc.prems k by (simp add: cut_def nxt_None)
      then have "cutpos ?hs i k = p" using cut_unique C by blast
      then show ?thesis using None lv by (simp add: link_at_def)
    next
      case (Some q)
      note q = nxt_SomeD [OF Some]
      have fw: "fwd sl (?ps ! p) i = Some (?ps ! q)" "int p + span sl (?ps ! p) i = int q"
        using lv Some by (simp_all add: link_at_def)
      have g: "go (int q) (sl_nodes sl ! (?ps ! q)) \<longleftrightarrow> q \<le> k" using go [of q] q by simp
      show ?thesis
      proof (cases "q \<le> k")
        case True
        then show ?thesis using Suc.IH [of q] Suc.prems q fw g by simp
      next
        case False
        then have "cut ?hs i k p" using Suc.prems q by (simp add: cut_def)
        then have "cutpos ?hs i k = p" using cut_unique C by blast
        then show ?thesis using fw g False by simp
      qed
    qed
  }
qed

lemma length_as_nodes:
  assumes "sl_shape sl as" shows "length as < length (sl_nodes sl)"
proof -
  have "set (0 # as) \<subseteq> {0..<length (sl_nodes sl)}" using sl_shapeD(2) [OF assms] by auto
  then have "card (set (0 # as)) \<le> length (sl_nodes sl)" using card_mono [of "{0..<length (sl_nodes sl)}"] by fastforce
  then show ?thesis using distinct_card [OF sl_shapeD(1) [OF assms]] by simp
qed

lemma walk_level_cut:
  assumes sh: "sl_shape sl as" and i: "i < sl_Level sl" and k: "k \<le> length as"
    and go: "\<And>q. 1 \<le> q \<Longrightarrow> q \<le> length as \<Longrightarrow> go (int q) (sl_nodes sl ! ((0 # as) ! q)) \<longleftrightarrow> q \<le> k"
    and p: "p \<le> k" "i < heights sl (0 # as) ! p"
  shows "walk_level go sl i ((0 # as) ! p) (int p) =
    ((0 # as) ! cutpos (heights sl (0 # as)) i k, int (cutpos (heights sl (0 # as)) i k))"
  by (rule walk_cut [OF sh i k go p]) (use length_as_nodes [OF sh] k in simp_all)

lemma descend_cut:
  assumes sh: "sl_shape sl as" and k: "k \<le> length as"
    and go: "\<And>q. 1 \<le> q \<Longrightarrow> q \<le> length as \<Longrightarrow> go (int q) (sl_nodes sl ! ((0 # as) ! q)) \<longleftrightarrow> q \<le> k"
  shows "n \<le> sl_Level sl \<Longrightarrow> p \<le> k \<Longrightarrow> n \<le> heights sl (0 # as) ! p \<Longrightarrow>
    descend go sl n ((0 # as) ! p) (int p) =
      (map (\<lambda>i. (0 # as) ! cutpos (heights sl (0 # as)) i k) [0..<n],
       map (\<lambda>i. int (cutpos (heights sl (0 # as)) i k)) [0..<n])"
proof (induction n arbitrary: p)
  case (Suc n)
  let ?u = "cutpos (heights sl (0 # as)) n k"
  have w: "walk_level go sl n ((0 # as) ! p) (int p) = ((0 # as) ! ?u, int ?u)"
    using walk_level_cut [OF sh _ k go] Suc.prems by simp
  have "n < heights sl (0 # as) ! 0" using sl_shapeD(3,5) [OF sh] Suc.prems(1) by simp
  from cut_cutpos [OF this, of k] have u: "?u \<le> k" "n < heights sl (0 # as) ! ?u" by (simp_all add: cut_def)
  show ?case using Suc.IH [of ?u] Suc.prems(1) u w by simp
qed simp

subsection \<open>Updates of the heap\<close>

text \<open>Everything but the contents of the levels.\<close>

definition same_frame :: "SkipList \<Rightarrow> SkipList \<Rightarrow> bool" where
  "same_frame a b \<longleftrightarrow>
     length (sl_nodes a) = length (sl_nodes b) \<and>
     (\<forall>y < length (sl_nodes b).
        length (sn_Level (sl_nodes a ! y)) = length (sn_Level (sl_nodes b ! y)) \<and>
        sn_Member (sl_nodes a ! y) = sn_Member (sl_nodes b ! y) \<and>
        sn_Score (sl_nodes a ! y) = sn_Score (sl_nodes b ! y) \<and>
        sn_Backward (sl_nodes a ! y) = sn_Backward (sl_nodes b ! y)) \<and>
     sl_Tail a = sl_Tail b \<and> sl_Length a = sl_Length b \<and> sl_Level a = sl_Level b \<and> sl_dict a = sl_dict b"

lemma same_frame_refl [simp]: "same_frame a a"
  by (simp add: same_frame_def)

lemma same_frame_trans: "same_frame a b \<Longrightarrow> same_frame b c \<Longrightarrow> same_frame a c"
  by (simp add: same_frame_def)

lemma same_frame_set_level [simp]: "same_frame (set_level x i l a) b \<longleftrightarrow> same_frame a b"
proof (cases "x < length (sl_nodes a)")
  case True
  then show ?thesis by (auto simp: same_frame_def set_level_def nth_list_update)
qed (simp add: same_frame_def set_level_def list_update_beyond)

lemma level_at_set_level:
  assumes "x < length (sl_nodes a)" and "i < length (sn_Level (sl_nodes a ! x))"
  shows "level_at (set_level x i l a) y j = (if y = x \<and> j = i then l else level_at a y j)"
  using assms by (auto simp: level_at_def set_level_def nth_list_update)

text \<open>A loop over distinct levels whose step works on its own level only.\<close>

lemma fold_levels:
  assumes "\<And>i b. i \<in> set is \<Longrightarrow> same_frame b a \<Longrightarrow>
      same_frame (f i b) a \<and> (\<forall>y j. level_at (f i b) y j = (if j = i then H i (\<lambda>y. level_at b y i) y else level_at b y j))"
    and "distinct is"
  shows "same_frame (fold f is a) a \<and>
    (\<forall>y j. level_at (fold f is a) y j = (if j \<in> set is then H j (\<lambda>y. level_at a y j) y else level_at a y j))"
proof -
  have "same_frame (fold f is b) a \<and>
    (\<forall>y j. level_at (fold f is b) y j = (if j \<in> set is then H j (\<lambda>y. level_at b y j) y else level_at b y j))"
    if "same_frame b a" for b
    using assms that
  proof (induction "is" arbitrary: b)
    case (Cons i "is")
    have step: "same_frame (f i b) a" "\<And>y j. level_at (f i b) y j = (if j = i then H i (\<lambda>y. level_at b y i) y else level_at b y j)"
      using Cons.prems by auto
    have IH: "same_frame (fold f is (f i b)) a \<and>
      (\<forall>y j. level_at (fold f is (f i b)) y j = (if j \<in> set is then H j (\<lambda>y. level_at (f i b) y j) y else level_at (f i b) y j))"
      by (rule Cons.IH) (use Cons.prems step in auto)
    have "i \<notin> set is" using Cons.prems(2) by simp
    then have "level_at (fold f (i # is) b) y j =
        (if j \<in> set (i # is) then H j (\<lambda>y. level_at b y j) y else level_at b y j)" for y j
      using IH step(2) by (cases "j = i") auto
    then show ?case using IH by simp
  qed simp
  then show ?thesis by simp
qed

lemma same_frame_heights:
  assumes "same_frame a b" and "\<And>x. x \<in> set ps \<Longrightarrow> x < length (sl_nodes b)"
  shows "heights a ps = heights b ps"
  using assms by (simp add: heights_def same_frame_def)

lemma open_levels_shape:
  assumes sh: "sl_shape sl as" and lv: "level \<le> 32"
  shows "sl_shape (open_levels level sl) as" and "sl_nodes (open_levels level sl) = sl_nodes (fold open_level [sl_Level sl..<level] sl)"
    and "same_frame (fold open_level [sl_Level sl..<level] sl) sl"
    and "sl_dict (open_levels level sl) = sl_dict sl"
proof -
  let ?L = "sl_Level sl" and ?o = "fold open_level [sl_Level sl..<level] sl" and ?ps = "0 # as"
  note D = sl_shapeD [OF sh]
  have h0: "length (sn_Level (sl_nodes sl ! 0)) = 32" using D(3) by (simp add: heights_def)
  have n0: "0 < length (sl_nodes sl)" using D(2) [of 0] by simp
  have F: "same_frame ?o sl \<and> (\<forall>y j. level_at ?o y j =
      (if j \<in> set [?L..<level] then (\<lambda>i s y. if y = 0 then (fst (s 0), sl_Length sl) else s y) j (\<lambda>y. level_at sl y j) y
       else level_at sl y j))"
  proof (rule fold_levels)
    fix i b assume i: "i \<in> set [?L..<level]" and b: "same_frame b sl"
    have "0 < length (sl_nodes b)" "i < length (sn_Level (sl_nodes b ! 0))" "sl_Length b = sl_Length sl"
      using b n0 h0 i lv by (auto simp: same_frame_def)
    then show "same_frame (open_level i b) sl \<and> (\<forall>y j. level_at (open_level i b) y j =
       (if j = i then (\<lambda>i s y. if y = 0 then (fst (s 0), sl_Length sl) else s y) i (\<lambda>y. level_at b y i) y else level_at b y j))"
      using b by (simp add: open_level_def level_at_set_level)
  qed simp
  then show fr: "same_frame ?o sl" by blast
  show "sl_nodes (open_levels level sl) = sl_nodes ?o" by (simp add: open_levels_def)
  show "sl_dict (open_levels level sl) = sl_dict sl" using fr by (simp add: open_levels_def same_frame_def)
  let ?sl = "open_levels level sl"
  have nodes: "sl_nodes ?sl = sl_nodes ?o" by (simp add: open_levels_def)
  have lev: "level_at ?sl y j = (if y = 0 \<and> ?L \<le> j \<and> j < level then (fst (level_at sl 0 j), sl_Length sl) else level_at sl y j)" for y j
    using F unfolding level_at_def nodes by auto
  have hs: "heights ?sl ?ps = heights sl ?ps"
    using same_frame_heights [OF fr D(2), of ?ps] unfolding heights_def nodes .
  have fields: "sl_Tail ?sl = sl_Tail sl" "sl_Length ?sl = sl_Length sl" "sl_Level ?sl = max ?L level"
    "length (sl_nodes ?sl) = length (sl_nodes sl)"
    "\<And>y. y < length (sl_nodes sl) \<Longrightarrow> sn_Backward (sl_nodes ?sl ! y) = sn_Backward (sl_nodes sl ! y)"
    using fr by (simp_all add: open_levels_def same_frame_def)
  have "level_at ?sl (?ps ! p) i = link_at (heights sl ?ps) ?ps i p"
    if p: "p < length ?ps" "i < max ?L level" "i < heights sl ?ps ! p" for p i
  proof (cases "i < ?L")
    case True
    then show ?thesis using D(8) [OF p(1) True p(3)] lev by simp
  next
    case False
    have small: "heights sl ?ps ! r \<le> i" if "0 < r" "r < length ?ps" for r
      using D(7) [of "r - 1"] that False by (cases r) auto
    have "p = 0" using small [of p] p by (cases p) auto
    moreover have "nxt (heights sl ?ps) i 0 = None" using small by (simp add: nxt_None)
    ultimately show ?thesis
      using False p(2) lev [of 0 i] D(9) [of i] D(12) lv by (simp add: link_at_def less_max_iff_disj)
  qed
  note lk = this
  show "sl_shape ?sl as"
  proof (rule sl_shapeI [OF D(1) _ hs D(3)])
    show "\<And>a. a \<in> set ?ps \<Longrightarrow> a < length (sl_nodes ?sl)" using D(2) fields(4) by simp
    show "1 \<le> sl_Level ?sl" "sl_Level ?sl \<le> 32" using D(4,5) lv fields(3) by auto
    show "\<And>p. p < length as \<Longrightarrow> 1 \<le> heights sl ?ps ! Suc p \<and> heights sl ?ps ! Suc p \<le> sl_Level ?sl"
      using D(6,7) fields(3) le_max_iff_disj by metis
    show "\<And>p i. p < length ?ps \<Longrightarrow> i < sl_Level ?sl \<Longrightarrow> i < heights sl ?ps ! p \<Longrightarrow>
        level_at ?sl (?ps ! p) i = link_at (heights sl ?ps) ?ps i p"
      using lk fields(3) by simp
    show "\<And>i. sl_Level ?sl \<le> i \<Longrightarrow> i < 32 \<Longrightarrow> fwd ?sl 0 i = None" using D(9) lev fields(3) by simp
    show "\<And>p. p < length as \<Longrightarrow> sn_Backward (sl_nodes ?sl ! (as ! p)) = (if p = 0 then None else Some (as ! (p - 1)))"
      using D(10) fields(5) D(2) by simp
  qed (use D(11,12) fields in simp_all)
qed

subsection \<open>Insertion\<close>

lemma link_level_effect:
  assumes "update ! i = u" and "u \<noteq> n" and "u < length (sl_nodes b)" and "n < length (sl_nodes b)"
    and "i < length (sn_Level (sl_nodes b ! u))" and "i < length (sn_Level (sl_nodes b ! n))"
  shows "level_at (link_level update rank n i b) y j =
    (if j = i \<and> y = u then (Some n, rank ! 0 - rank ! i + 1)
     else if j = i \<and> y = n then (fwd b u i, span b u i - (rank ! 0 - rank ! i))
     else level_at b y j)"
proof -
  let ?b = "set_level n i (fwd b u i, span b u i - (rank ! 0 - rank ! i)) b"
  have "u < length (sl_nodes ?b)" "i < length (sn_Level (sl_nodes ?b ! u))"
    using assms by (auto simp: set_level_def)
  then show ?thesis
    using assms by (auto simp: link_level_def Let_def level_at_set_level)
qed

lemma same_frame_link_level [simp]: "same_frame (link_level update rank n i b) a \<longleftrightarrow> same_frame b a"
  by (simp add: link_level_def Let_def)

lemma same_frame_bump_span [simp]: "same_frame (bump_span update i b) a \<longleftrightarrow> same_frame b a"
  by (simp add: bump_span_def)

text \<open>The two loops over the levels, as one map from the old levels to the new ones.\<close>

lemma attach_loops:
  fixes score :: float64 and member :: string and rank :: "int list"
  assumes lv: "level \<le> L" and u: "\<And>i. i < L \<Longrightarrow> update ! i < length (sl_nodes sl)"
    and h: "\<And>i. i < L \<Longrightarrow> i < length (sn_Level (sl_nodes sl ! (update ! i)))"
  defines "n \<equiv> length (sl_nodes sl)" and "sl1 \<equiv> alloc level score member sl"
  defines "sl3 \<equiv> fold (bump_span update) [level..<L] (fold (link_level update rank n) [0..<level] sl1)"
  shows "same_frame sl3 sl1 \<and> level_at sl3 y j =
    (if j < level \<and> y = update ! j then (Some n, rank ! 0 - rank ! j + 1)
     else if j < level \<and> y = n then (fwd sl (update ! j) j, span sl (update ! j) j - (rank ! 0 - rank ! j))
     else if level \<le> j \<and> j < L \<and> y = update ! j then (fwd sl (update ! j) j, span sl (update ! j) j + 1)
     else level_at sl1 y j)"
proof -
  have n1: "sl_nodes sl1 ! x = sl_nodes sl ! x" if "x < n" for x
    using that by (simp add: sl1_def n_def nth_append)
  have len1: "length (sl_nodes sl1) = Suc n" "length (sn_Level (sl_nodes sl1 ! n)) = level"
    by (simp_all add: sl1_def n_def new_node_def)
  have lev1: "level_at sl1 x i = level_at sl x i" if "x < n" for x i
    using n1 [OF that] by (simp add: level_at_def)
  have un: "update ! i < n" if "i < L" for i using u [OF that] by (simp add: n_def)
  let ?sl2 = "fold (link_level update rank n) [0..<level] sl1"
  let ?H = "\<lambda>i s y. if y = update ! i then (Some n, rank ! 0 - rank ! i + 1)
     else if y = n then (fst (s (update ! i)), snd (s (update ! i)) - (rank ! 0 - rank ! i)) else s y"
  have F: "same_frame ?sl2 sl1 \<and> (\<forall>y j. level_at ?sl2 y j =
      (if j \<in> set [0..<level] then ?H j (\<lambda>y. level_at sl1 y j) y else level_at sl1 y j))"
  proof (rule fold_levels)
    fix i b assume i: "i \<in> set [0..<level]" and b: "same_frame b sl1"
    have iL: "i < L" using i lv by simp
    have "level_at (link_level update rank n i b) y j = (if j = i then ?H i (\<lambda>y. level_at b y i) y else level_at b y j)" for y j
      using link_level_effect [of update i "update ! i" n b rank y j] b un [OF iL] h [OF iL] n1 [OF un [OF iL]] i len1
      by (auto simp: same_frame_def)
    then show "same_frame (link_level update rank n i b) sl1 \<and> (\<forall>y j. level_at (link_level update rank n i b) y j =
       (if j = i then ?H i (\<lambda>y. level_at b y i) y else level_at b y j))"
      using b by simp
  qed simp
  let ?B = "\<lambda>i s y. if y = update ! i then (fst (s (update ! i)), snd (s (update ! i)) + 1) else s y"
  have G: "same_frame sl3 ?sl2 \<and> (\<forall>y j. level_at sl3 y j =
      (if j \<in> set [level..<L] then ?B j (\<lambda>y. level_at ?sl2 y j) y else level_at ?sl2 y j))"
    unfolding sl3_def
  proof (rule fold_levels)
    fix i b assume i: "i \<in> set [level..<L]" and b: "same_frame b ?sl2"
    have iL: "i < L" using i by simp
    have "update ! i < length (sl_nodes b)" "i < length (sn_Level (sl_nodes b ! (update ! i)))"
      using b F un [OF iL] h [OF iL] n1 [OF un [OF iL]] len1 by (auto simp: same_frame_def)
    then show "same_frame (bump_span update i b) ?sl2 \<and> (\<forall>y j. level_at (bump_span update i b) y j =
       (if j = i then ?B i (\<lambda>y. level_at b y i) y else level_at b y j))"
      using b by (simp add: bump_span_def level_at_set_level)
  qed simp
  have "same_frame sl3 sl1" using F G same_frame_trans by blast
  moreover have "update ! j \<noteq> n" "level_at sl1 (update ! j) j = level_at sl (update ! j) j" if "j < L"
    using un [OF that] lev1 by auto
  ultimately show ?thesis using F G lv by auto
qed

lemma level_at_set_backward [simp]: "level_at (set_backward x b sl) y j = level_at sl y j"
  by (cases "x < length (sl_nodes sl)")
    (auto simp: level_at_def set_backward_def nth_list_update list_update_beyond)

lemma set_backward_fields [simp]:
  "sl_Tail (set_backward x b sl) = sl_Tail sl" "sl_Length (set_backward x b sl) = sl_Length sl"
  "sl_Level (set_backward x b sl) = sl_Level sl" "sl_dict (set_backward x b sl) = sl_dict sl"
  "length (sl_nodes (set_backward x b sl)) = length (sl_nodes sl)"
  "length (sn_Level (sl_nodes (set_backward x b sl) ! y)) = length (sn_Level (sl_nodes sl ! y))"
  "sn_Member (sl_nodes (set_backward x b sl) ! y) = sn_Member (sl_nodes sl ! y)"
  "sn_Score (sl_nodes (set_backward x b sl) ! y) = sn_Score (sl_nodes sl ! y)"
  by (cases "x < length (sl_nodes sl)";
      auto simp: set_backward_def nth_list_update list_update_beyond)+

lemma Backward_set_backward:
  "x < length (sl_nodes sl) \<Longrightarrow>
   sn_Backward (sl_nodes (set_backward x b sl) ! y) = (if y = x then b else sn_Backward (sl_nodes sl ! y))"
  by (simp add: set_backward_def nth_list_update)

lemma Cons_ins_at: "0 # ins_at k n as = ins_at (Suc k) n (0 # as)"
  by (simp add: ins_at_def)

text \<open>
  The links after an insertion, from the effect of the loops: every level of every node holds what
  its new position asks for.
\<close>

lemma attach_links:
  fixes n :: nat
  assumes sh: "sl_shape sl as" and k: "k \<le> length as" and n: "n \<notin> set (0 # as)" and lv: "level \<le> sl_Level sl"
    and new: "\<And>y j. y \<in> insert n (set (0 # as)) \<Longrightarrow> j < sl_Level sl \<Longrightarrow> lev y j =
     (if j < level \<and> y = (0 # as) ! cutpos (heights sl (0 # as)) j k then
        (Some n, int k - int (cutpos (heights sl (0 # as)) j k) + 1)
      else if j < level \<and> y = n then
        (fwd sl ((0 # as) ! cutpos (heights sl (0 # as)) j k) j,
         span sl ((0 # as) ! cutpos (heights sl (0 # as)) j k) j - (int k - int (cutpos (heights sl (0 # as)) j k)))
      else if level \<le> j \<and> j < sl_Level sl \<and> y = (0 # as) ! cutpos (heights sl (0 # as)) j k then
        (fwd sl ((0 # as) ! cutpos (heights sl (0 # as)) j k) j, span sl ((0 # as) ! cutpos (heights sl (0 # as)) j k) j + 1)
      else if y = n then junk j else level_at sl y j)"
    and p: "p < Suc (length (0 # as))" and i: "i < sl_Level sl"
    and hp: "i < ins_at (Suc k) level (heights sl (0 # as)) ! p"
  shows "lev (ins_at (Suc k) n (0 # as) ! p) i =
    link_at (ins_at (Suc k) level (heights sl (0 # as))) (ins_at (Suc k) n (0 # as)) i p"
proof -
  define ps where "ps = 0 # as"
  define hs where "hs = heights sl ps"
  define u where "u = cutpos hs i k"
  note D = sl_shapeD [OF sh, folded ps_def, folded hs_def]
  have kps: "k < length hs" "k < length ps" using k by (simp_all add: hs_def ps_def)
  have len: "length ps = length hs" by (simp add: hs_def)
  have cut: "cut hs i k u" using cut_cutpos [of i hs k] D(3,5) i by (simp add: u_def)
  then have u: "u \<le> k" "i < hs ! u" by (simp_all add: cut_def)
  have old: "level_at sl (ps ! q) i = link_at hs ps i q" if "q < length ps" "i < hs ! q" for q
    using D(8) [OF that(1) i that(2)] .
  have inj: "ps ! q = ps ! u \<longleftrightarrow> q = u" if "q < length ps" for q
    using D(1) that u kps by (simp add: nth_eq_iff_index_eq)
  have nn: "ps ! q \<noteq> n" if "q < length ps" for q using n nth_mem [OF that] by (auto simp: ps_def)
  have ul: "u < length ps" using u kps by simp
  have nu: "n \<noteq> ps ! u" using nn [OF ul] by simp
  have new': "lev (ps ! u) i = (if i < level then (Some n, int k - int u + 1)
      else (fst (link_at hs ps i u), snd (link_at hs ps i u) + 1))"
    "i < level \<Longrightarrow> lev n i = (fst (link_at hs ps i u), snd (link_at hs ps i u) - (int k - int u))"
    "q < length ps \<Longrightarrow> q \<noteq> u \<Longrightarrow> lev (ps ! q) i = level_at sl (ps ! q) i" for q
    using new [of _ i, folded ps_def, folded hs_def, folded u_def] old [OF ul u(2)] nu i inj nn [of q]
      nth_mem [OF ul] nth_mem [of q ps]
    by simp_all
  consider "p < u" | "p = u" | "u < p" "p \<le> k" | "p = Suc k" | "Suc k < p" using u by linarith
  then show ?thesis
    unfolding ps_def [symmetric] hs_def [symmetric]
  proof cases
    case 1
    then have hpp: "i < hs ! p" using hp u kps by (simp add: nth_ins ps_def hs_def)
    have "nxt hs i p \<noteq> None" "the (nxt hs i p) \<le> u" using nxt_le [OF 1 _ u(2)] u(1) kps by auto
    then have "link_at (ins_at (Suc k) level hs) (ins_at (Suc k) n ps) i p = link_at hs ps i p"
      using link_ins(1) [OF kps(1) len cut 1] by blast
    then show "lev (ins_at (Suc k) n ps ! p) i = link_at (ins_at (Suc k) level hs) (ins_at (Suc k) n ps) i p"
      using 1 u kps new'(3) [of p] old [OF _ hpp] by (simp add: nth_ins)
  next
    case 2
    then show "lev (ins_at (Suc k) n ps ! p) i = link_at (ins_at (Suc k) level hs) (ins_at (Suc k) n ps) i p"
      using u kps new'(1) link_ins(3,5) [OF kps(1) len cut, of level n] by (simp add: nth_ins)
  next
    case 3
    then have "hs ! p \<le> i" using cut by (simp add: cut_def)
    then show "lev (ins_at (Suc k) n ps ! p) i = link_at (ins_at (Suc k) level hs) (ins_at (Suc k) n ps) i p"
      using hp 3 kps by (simp add: nth_ins ps_def hs_def)
  next
    case 4
    then have "i < level" using hp kps by (simp add: nth_ins ps_def hs_def)
    then show "lev (ins_at (Suc k) n ps ! p) i = link_at (ins_at (Suc k) level hs) (ins_at (Suc k) n ps) i p"
      using 4 kps new'(2) link_ins(4) [OF kps(1) len cut, of level n] by (simp add: nth_ins)
  next
    case 5
    then have q: "k < p - 1" "p - 1 < length ps" "p = Suc (p - 1)" using p by (auto simp: ps_def)
    have hpp: "i < hs ! (p - 1)" using hp 5 kps by (simp add: nth_ins ps_def hs_def)
    have "link_at (ins_at (Suc k) level hs) (ins_at (Suc k) n ps) i p = link_at hs ps i (p - 1)"
      using link_ins(2) [OF kps(1) len cut q(1), of level n] q(3) by simp
    then show "lev (ins_at (Suc k) n ps ! p) i = link_at (ins_at (Suc k) level hs) (ins_at (Suc k) n ps) i p"
      using 5 kps u q(1) new'(3) [OF q(2)] old [OF q(2) hpp] by (simp add: nth_ins)
  qed
qed

lemma heights_ins:
  assumes "k \<le> length as" and "\<And>a. a \<in> set (0 # as) \<Longrightarrow> a < length (sl_nodes sl)"
    and "same_frame sl3 (alloc level score member sl)"
  shows "heights sl3 (0 # ins_at k (length (sl_nodes sl)) as) = ins_at (Suc k) level (heights sl (0 # as))"
proof -
  have h: "length (sn_Level (sl_nodes sl3 ! a)) = length (sn_Level (sl_nodes sl ! a))" if "a \<in> set (0 # as)" for a
    using assms(2) [OF that] assms(3) by (simp add: same_frame_def nth_append)
  have n: "length (sn_Level (sl_nodes sl3 ! length (sl_nodes sl))) = level"
    using assms(3) by (simp add: same_frame_def new_node_def)
  have "heights sl3 as = heights sl as" "heights sl3 (take k as) = heights sl (take k as)"
    "heights sl3 (drop k as) = heights sl (drop k as)"
    using h by (auto simp: heights_def dest: in_set_takeD in_set_dropD)
  then show ?thesis
    using h [of 0] n by (simp add: Cons_ins_at) (simp add: ins_at_def heights_def take_map drop_map)
qed

lemma set_ins_at: "set (ins_at k n as) = insert n (set as)"
proof -
  have "set (take k as) \<union> set (drop k as) = set as"
    using set_append [of "take k as" "drop k as"] by simp
  then show ?thesis by (auto simp: ins_at_def)
qed

lemma distinct_ins_at: "distinct (ins_at k n as) \<longleftrightarrow> n \<notin> set as \<and> distinct as"
proof -
  define xs ys where "xs = take k as" and "ys = drop k as"
  then have "as = xs @ ys" by simp
  then show ?thesis unfolding ins_at_def xs_def [symmetric] ys_def [symmetric] by auto
qed

lemma last_ins_at: "k \<le> length as \<Longrightarrow> last (ins_at k n as) = (if k = length as then n else last as)"
  by (simp add: ins_at_def)

text \<open>The node after the new one, read from level 0, and the node before it.\<close>

lemma link_at_0:
  assumes "\<And>q. q < length hs \<Longrightarrow> 0 < hs ! q" and "length ps = length hs" and "p < length hs"
  shows "link_at hs ps 0 p = (if Suc p < length hs then (Some (ps ! Suc p), 1) else (None, 0))"
proof (cases "Suc p < length hs")
  case True
  then have "nxt hs 0 p = Some (Suc p)" using assms(1) by (simp add: nxt_Some)
  then show ?thesis using True by (simp add: link_at_def)
next
  case False
  then have "nxt hs 0 p = None" by (simp add: nxt_None)
  then show ?thesis using False assms by (auto simp: link_at_def)
qed

lemma cutpos_0:
  assumes "\<And>q. q < length hs \<Longrightarrow> 0 < hs ! q" and "k < length hs"
  shows "cutpos hs 0 k = k"
proof -
  have "cut hs 0 k (cutpos hs 0 k)" using cut_cutpos [of 0 hs k] assms(1) [of 0] assms(2) by (cases hs) auto
  then show ?thesis using cut_0 [OF assms(1) [OF assms(2)]] by simp
qed

definition same_data :: "SkipList \<Rightarrow> SkipList \<Rightarrow> bool" where
  "same_data a b \<longleftrightarrow>
     length (sl_nodes a) = length (sl_nodes b) \<and> sl_dict a = sl_dict b \<and> sl_Level a = sl_Level b \<and>
     (\<forall>y < length (sl_nodes b).
        length (sn_Level (sl_nodes a ! y)) = length (sn_Level (sl_nodes b ! y)) \<and>
        sn_Member (sl_nodes a ! y) = sn_Member (sl_nodes b ! y) \<and>
        sn_Score (sl_nodes a ! y) = sn_Score (sl_nodes b ! y))"

lemma fold_link_Level: "sl_Level (fold (link_level update rank n) is sl) = sl_Level sl"
  by (induction "is" arbitrary: sl) (simp_all add: link_level_def Let_def set_level_def)

lemma level_at_fields:
  "level_at (sl\<lparr>sl_Length := l\<rparr>) y j = level_at sl y j" "level_at (sl\<lparr>sl_Tail := t\<rparr>) y j = level_at sl y j"
  "level_at (sl\<lparr>sl_Level := v\<rparr>) y j = level_at sl y j" "level_at (sl\<lparr>sl_dict := d\<rparr>) y j = level_at sl y j"
  by (simp_all add: level_at_def)

lemma finish_attach_shape:
  fixes score :: float64 and member :: string
  assumes sh: "sl_shape sl as" and k: "k \<le> length as" and fr: "same_frame sl3 (alloc level score member sl)"
    and hs3: "heights sl3 (0 # ins_at k (length (sl_nodes sl)) as) = hs" and u: "u = (0 # as) ! k"
    and lv: "1 \<le> level" "level \<le> sl_Level sl"
    and lev: "\<And>p i. p < Suc (length (0 # as)) \<Longrightarrow> i < sl_Level sl \<Longrightarrow> i < hs ! p \<Longrightarrow>
       level_at sl3 ((0 # ins_at k (length (sl_nodes sl)) as) ! p) i = link_at hs (0 # ins_at k (length (sl_nodes sl)) as) i p"
    and hi: "\<And>i. sl_Level sl \<le> i \<Longrightarrow> level_at sl3 0 i = level_at sl 0 i"
    and hd: "hs = ins_at (Suc k) level (heights sl (0 # as))"
  shows "sl_shape (finish_attach (length (sl_nodes sl)) u sl3) (ins_at k (length (sl_nodes sl)) as) \<and>
    same_data (finish_attach (length (sl_nodes sl)) u sl3) (alloc level score member sl)"
proof -
  let ?n = "length (sl_nodes sl)" and ?as = "ins_at k (length (sl_nodes sl)) as"
  let ?fin = "finish_attach ?n u sl3"
  note D = sl_shapeD [OF sh]
  have n3: "length (sl_nodes sl3) = Suc ?n" "sl_Level sl3 = sl_Level sl" "sl_Length sl3 = sl_Length sl"
    "sl_Tail sl3 = sl_Tail sl" "sl_dict sl3 = sl_dict sl"
    using fr by (simp_all add: same_frame_def)
  have nn: "?n \<notin> set (0 # as)" using D(2) by blast
  have lh: "length hs = Suc (length ?as)" using hs3 [symmetric] by simp
  have hsp: "0 < hs ! q" if "q < length hs" for q
    using that k lv(1) height_pos [OF sh, of q] height_pos [OF sh, of "q - 1"] lh
    by (auto simp: hd nth_ins)
  have f0: "fwd sl3 ?n 0 = (if k < length as then Some (as ! k) else None)"
  proof -
    have "level_at sl3 ((0 # ?as) ! Suc k) 0 = link_at hs (0 # ?as) 0 (Suc k)"
      using lev [of "Suc k" 0] hsp [of "Suc k"] lh k D(4) by simp
    moreover have "link_at hs (0 # ?as) 0 (Suc k) =
        (if Suc (Suc k) < length hs then (Some ((0 # ?as) ! Suc (Suc k)), 1) else (None, 0))"
      by (rule link_at_0 [OF hsp]) (use lh k in simp_all)
    ultimately show ?thesis using lh k by (simp add: nth_ins_at)
  qed
  have ak: "as ! k < ?n" if "k < length as" using D(2) nth_mem [OF that] by simp
  define sl4 where "sl4 = set_backward ?n (if u = 0 then None else Some u) sl3"
  have n4: "length (sl_nodes sl4) = Suc ?n" using n3 by (simp add: sl4_def)
  have fin: "?fin = (if k < length as then set_backward (as ! k) (Some ?n) sl4 else sl4\<lparr>sl_Tail := Some ?n\<rparr>)
      \<lparr>sl_Length := sl_Length sl + 1\<rparr>"
    using f0 n3 by (auto simp: finish_attach_def Let_def sl4_def)
  have levf: "level_at ?fin y j = level_at sl3 y j" for y j
    unfolding fin by (simp add: level_at_fields) (simp add: sl4_def)
  have F: "sl_Level ?fin = sl_Level sl" "length (sl_nodes ?fin) = Suc ?n" "sl_dict ?fin = sl_dict sl"
    "sl_Length ?fin = int (length ?as)" "sl_Tail ?fin = (if k < length as then sl_Tail sl else Some ?n)"
    unfolding fin using n3 D(12) by (simp_all add: sl4_def)
  have N: "length (sn_Level (sl_nodes ?fin ! y)) = length (sn_Level (sl_nodes sl3 ! y))"
    "sn_Member (sl_nodes ?fin ! y) = sn_Member (sl_nodes sl3 ! y)"
    "sn_Score (sl_nodes ?fin ! y) = sn_Score (sl_nodes sl3 ! y)" for y
    unfolding fin by (simp_all add: sl4_def)
  have B: "sn_Backward (sl_nodes ?fin ! y) = (if k < length as \<and> y = as ! k then Some ?n
      else if y = ?n then (if u = 0 then None else Some u) else sn_Backward (sl_nodes sl ! y))"
    if "y \<le> ?n" for y
    unfolding fin using ak n4 n3 that fr
    by (auto simp: Backward_set_backward sl4_def same_frame_def nth_append)
  have "same_data ?fin (alloc level score member sl)"
    using fr F N by (simp add: same_data_def same_frame_def)
  moreover have "sl_shape ?fin ?as"
  proof (rule sl_shapeI)
    show "distinct (0 # ?as)" using D(1) nn by (auto simp: distinct_ins_at set_ins_at)
    show "a < length (sl_nodes ?fin)" if "a \<in> set (0 # ?as)" for a
      using that D(2) [of a] F(2) by (auto simp: set_ins_at)
    show "heights ?fin (0 # ?as) = hs" using hs3 N(1) by (simp add: heights_def)
    show "hs ! 0 = 32" using D(3) k by (simp add: hd nth_ins)
    show "1 \<le> sl_Level ?fin" "sl_Level ?fin \<le> 32" using D(4,5) F(1) by simp_all
    show "level_at ?fin ((0 # ?as) ! p) i = link_at hs (0 # ?as) i p"
      if "p < length (0 # ?as)" "i < sl_Level ?fin" "i < hs ! p" for p i
      using lev [of p i] that F(1) levf by simp
    show "sl_Length ?fin = int (length ?as)" by (rule F(4))
    show "1 \<le> hs ! Suc p \<and> hs ! Suc p \<le> sl_Level ?fin" if "p < length ?as" for p
      using that lv k F(1) D(6,7) [of p] D(6,7) [of "p - 1"]
      by (cases p; cases as) (auto simp: hd nth_ins)
    show "sl_Tail ?fin = (if ?as = [] then None else Some (last ?as))"
      using F(5) D(11) k by (auto simp: last_ins_at) (simp_all add: ins_at_def)
    show "fwd ?fin 0 i = None" if "sl_Level ?fin \<le> i" "i < 32" for i
      using that hi levf F(1) D(9) by simp
    show "sn_Backward (sl_nodes ?fin ! (?as ! p)) = (if p = 0 then None else Some (?as ! (p - 1)))"
      if p: "p < length ?as" for p
    proof -
      have inj: "as ! i = as ! k \<longleftrightarrow> i = k" if "i < length as" "k < length as" for i
        using D(1) that by (simp add: nth_eq_iff_index_eq)
      have mem: "as ! i < ?n" "0 < as ! i" if "i < length as" for i
        using D(1) D(2) [of "as ! i"] nth_mem [OF that] by (auto intro!: gr0I)
      consider "p < k" | "p = k" | "p = Suc k" | "Suc k < p" by linarith
      then show ?thesis
      proof cases
        case 1
        then have pl: "p < length as" using k by simp
        have "sn_Backward (sl_nodes ?fin ! (as ! p)) = sn_Backward (sl_nodes sl ! (as ! p))"
          using B [of "as ! p"] mem [OF pl] inj [OF pl] 1 by auto
        then show ?thesis using 1 k by (simp add: D(10) [OF pl] nth_ins_at)
      next
        case 2
        then show ?thesis using B [of ?n] mem [of k] mem [of "k - 1"] u k by (cases k) (auto simp: nth_ins_at)
      next
        case 3
        then show ?thesis using B [of "as ! k"] mem [of k] p k by (simp add: nth_ins_at)
      next
        case 4
        then have pl: "p - 1 < length as" using p by simp
        have "sn_Backward (sl_nodes ?fin ! (as ! (p - 1))) = sn_Backward (sl_nodes sl ! (as ! (p - 1)))"
          using B [of "as ! (p - 1)"] mem [OF pl] inj [OF pl] 4 by auto
        then show ?thesis using 4 k D(10) [OF pl] by (auto simp: nth_ins_at)
      qed
    qed
  qed
  ultimately show ?thesis by blast
qed

lemma attach_shape:
  assumes sh: "sl_shape sl as" and k: "k \<le> length as" and lv: "1 \<le> level" "level \<le> sl_Level sl"
    and upd: "\<And>i. i < sl_Level sl \<Longrightarrow> update ! i = (0 # as) ! cutpos (heights sl (0 # as)) i k"
    and rk: "\<And>i. i < sl_Level sl \<Longrightarrow> rank ! i = int (cutpos (heights sl (0 # as)) i k)"
  shows "sl_shape (attach level score member update rank sl) (ins_at k (length (sl_nodes sl)) as) \<and>
    same_data (attach level score member update rank sl) (alloc level score member sl)"
proof -
  let ?L = "sl_Level sl" and ?ps = "0 # as" and ?n = "length (sl_nodes sl)" and ?as = "ins_at k (length (sl_nodes sl)) as"
  define hs where "hs = heights sl ?ps"
  let ?hs = "ins_at (Suc k) level hs"
  note D = sl_shapeD [OF sh, folded hs_def]
  note upd = upd [folded hs_def] and rk = rk [folded hs_def]
  have hpos: "0 < hs ! q" if "q < length hs" for q
    using height_pos [OF sh, of q] that by (simp add: hs_def)
  have kl: "k < length hs" "length ?ps = length hs" "length hs = Suc (length as)" using k by (simp_all add: hs_def)
  have L0: "0 < ?L" using D(4) by simp
  have cutL: "cut hs i k (cutpos hs i k)" if "i < ?L" for i
    using cut_cutpos [of i hs k] D(3,5) that by simp
  have c0: "cutpos hs 0 k = k" by (rule cutpos_0 [OF hpos kl(1)])
  have u0: "update ! 0 = ?ps ! k" "rank ! 0 = int k" using upd rk L0 c0 by simp_all
  have ul: "update ! i < ?n" "i < length (sn_Level (sl_nodes sl ! (update ! i)))" if "i < ?L" for i
  proof -
    have "cutpos hs i k \<le> k" "i < hs ! cutpos hs i k" using cutL [OF that] by (simp_all add: cut_def)
    moreover from this have "cutpos hs i k < length ?ps" using kl by simp
    ultimately show "update ! i < ?n" "i < length (sn_Level (sl_nodes sl ! (update ! i)))"
      using upd [OF that] D(2) [of "?ps ! cutpos hs i k"] nth_mem [of "cutpos hs i k" ?ps]
      nth_heights [of "cutpos hs i k" ?ps sl, folded hs_def]
      by simp_all
  qed
  define sl1 where "sl1 = alloc level score member sl"
  define sl3 where "sl3 = fold (bump_span update) [level..<?L] (fold (link_level update rank ?n) [0..<level] sl1)"
  have fr: "same_frame sl3 sl1"
    using attach_loops [OF lv(2) ul, of rank score member] by (simp add: sl3_def sl1_def)
  have Lf: "sl_Level (fold (link_level update rank ?n) [0..<level] sl1) = ?L"
    using fold_link_Level [of update rank ?n "[0..<level]" sl1] by (simp add: sl1_def)
  have loops: "level_at sl3 y j =
    (if j < level \<and> y = update ! j then (Some ?n, rank ! 0 - rank ! j + 1)
     else if j < level \<and> y = ?n then (fwd sl (update ! j) j, span sl (update ! j) j - (rank ! 0 - rank ! j))
     else if level \<le> j \<and> j < ?L \<and> y = update ! j then (fwd sl (update ! j) j, span sl (update ! j) j + 1)
     else level_at sl1 y j)" for y j
    using attach_loops [OF lv(2) ul, of rank score member y j] by (simp add: sl3_def sl1_def)
  have nn: "?n \<notin> set ?ps" using D(2) by blast
  have lev: "level_at sl3 (ins_at (Suc k) ?n ?ps ! p) i = link_at ?hs (ins_at (Suc k) ?n ?ps) i p"
    if p: "p < Suc (length ?ps)" "i < ?L" "i < ?hs ! p" for p i
  proof -
    have "level_at sl3 y j =
     (if j < level \<and> y = ?ps ! cutpos hs j k then (Some ?n, int k - int (cutpos hs j k) + 1)
      else if j < level \<and> y = ?n then
        (fwd sl (?ps ! cutpos hs j k) j, span sl (?ps ! cutpos hs j k) j - (int k - int (cutpos hs j k)))
      else if level \<le> j \<and> j < ?L \<and> y = ?ps ! cutpos hs j k then
        (fwd sl (?ps ! cutpos hs j k) j, span sl (?ps ! cutpos hs j k) j + 1)
      else if y = ?n then level_at sl1 ?n j else level_at sl y j)" if y: "y \<in> insert ?n (set ?ps)" and j: "j < ?L" for y j
    proof -
      have "level_at sl1 y j = (if y = ?n then level_at sl1 ?n j else level_at sl y j)"
        using y D(2) [of y] by (auto simp: sl1_def level_at_def nth_append)
      then show ?thesis using loops [of y j] upd [OF j] rk [OF j] u0(2) by simp
    qed
    from attach_links [OF sh k nn lv(2) this [unfolded hs_def] p(1,2) p(3) [unfolded hs_def]]
    show ?thesis by (simp add: hs_def)
  qed
  have att: "attach level score member update rank sl = finish_attach ?n (update ! 0) sl3"
    by (simp add: attach_def Let_def sl3_def sl1_def Lf [unfolded sl1_def])
  have hs3: "heights sl3 (0 # ?as) = ?hs" unfolding hs_def
    by (rule heights_ins [OF k D(2) fr [unfolded sl1_def]])
  have hi: "level_at sl3 0 i = level_at sl 0 i" if "?L \<le> i" for i
    using loops [of 0 i] that lv D(2) [of 0] by (simp add: sl1_def level_at_def nth_append)
  show ?thesis unfolding att
    by (rule finish_attach_shape [OF sh k fr [unfolded sl1_def] hs3 u0(1) lv])
      (use lev hi in \<open>simp_all add: hs_def Cons_ins_at\<close>)
qed

subsection \<open>Deletion\<close>

lemma unlink_level_effect:
  assumes "update ! i = u" and "u < length (sl_nodes b)" and "i < length (sn_Level (sl_nodes b ! u))"
  shows "level_at (unlink_level update target i b) y j =
    (if j = i \<and> y = u then
       (if fwd b u i = Some target then (fwd b target i, span b u i + (span b target i - 1))
        else (fwd b u i, span b u i - 1))
     else level_at b y j)"
  using assms by (auto simp: unlink_level_def Let_def level_at_set_level)

lemma same_frame_unlink_level [simp]: "same_frame (unlink_level update target i b) a \<longleftrightarrow> same_frame b a"
  by (simp add: unlink_level_def Let_def)

lemma detach_loop:
  fixes target :: nat
  assumes u: "\<And>i. i < L \<Longrightarrow> update ! i < length (sl_nodes sl)"
    and h: "\<And>i. i < L \<Longrightarrow> i < length (sn_Level (sl_nodes sl ! (update ! i)))"
  defines "sl1 \<equiv> fold (unlink_level update target) [0..<L] sl"
  shows "same_frame sl1 sl \<and> level_at sl1 y j =
    (if j < L \<and> y = update ! j then
       (if fwd sl (update ! j) j = Some target then
          (fwd sl target j, span sl (update ! j) j + (span sl target j - 1))
        else (fwd sl (update ! j) j, span sl (update ! j) j - 1))
     else level_at sl y j)"
proof -
  let ?H = "\<lambda>i s y. if y = update ! i then
       (if fst (s (update ! i)) = Some target then (fst (s target), snd (s (update ! i)) + (snd (s target) - 1))
        else (fst (s (update ! i)), snd (s (update ! i)) - 1)) else s y"
  have "same_frame sl1 sl \<and> (\<forall>y j. level_at sl1 y j =
      (if j \<in> set [0..<L] then ?H j (\<lambda>y. level_at sl y j) y else level_at sl y j))"
    unfolding sl1_def
  proof (rule fold_levels)
    fix i b assume i: "i \<in> set [0..<L]" and b: "same_frame b sl"
    then have "update ! i < length (sl_nodes b)" "i < length (sn_Level (sl_nodes b ! (update ! i)))"
      using u h by (auto simp: same_frame_def)
    from unlink_level_effect [OF refl this]
    show "same_frame (unlink_level update target i b) sl \<and> (\<forall>y j. level_at (unlink_level update target i b) y j =
       (if j = i then ?H i (\<lambda>y. level_at b y i) y else level_at b y j))"
      using b by simp
  qed simp
  then show ?thesis by auto
qed

lemma ins_del: "k < length xs \<Longrightarrow> ins_at k (xs ! k) (del_at k xs) = xs"
  by (simp add: ins_at_def del_at_def id_take_nth_drop [symmetric])

lemma Cons_del_at: "a # del_at k xs = del_at (Suc k) (a # xs)"
  by (simp add: del_at_def)

lemma set_del_at: "distinct xs \<Longrightarrow> k < length xs \<Longrightarrow> set (del_at k xs) = set xs - {xs ! k} \<and> distinct (del_at k xs)"
  using distinct_ins_at [of k "xs ! k" "del_at k xs"] set_ins_at [of k "xs ! k" "del_at k xs"]
  by (auto simp: ins_del)

lemma last_del_at:
  assumes "k < length xs" and "del_at k xs \<noteq> []"
  shows "last (del_at k xs) = (if Suc k = length xs then xs ! (k - 1) else last xs)"
proof (cases "Suc k = length xs")
  case True
  then have "del_at k xs = take k xs" by (simp add: del_at_def)
  then show ?thesis using True assms by (simp add: last_conv_nth)
next
  case False
  then have "drop (Suc k) xs \<noteq> []" using assms(1) by simp
  then show ?thesis using False by (simp add: del_at_def)
qed

lemma cut_cong: "(\<And>r. r \<le> k \<Longrightarrow> hs ! r = hs' ! r) \<Longrightarrow> cut hs i k u \<longleftrightarrow> cut hs' i k u"
  by (auto simp: cut_def)

text \<open>The links after the loop are the ones of the list without the target.\<close>

lemma detach_links:
  assumes sh: "sl_shape sl as" and k: "k < length as"
    and new: "\<And>y j. y \<in> set (0 # as) \<Longrightarrow> j < sl_Level sl \<Longrightarrow> lev y j =
     (if y = (0 # as) ! cutpos (heights sl (0 # as)) j k then
        (if fwd sl y j = Some (as ! k) then
           (fwd sl (as ! k) j, span sl y j + (span sl (as ! k) j - 1))
         else (fwd sl y j, span sl y j - 1))
      else level_at sl y j)"
    and p: "p < length as" and i: "i < sl_Level sl"
    and hp: "i < del_at (Suc k) (heights sl (0 # as)) ! p"
  shows "lev (del_at (Suc k) (0 # as) ! p) i =
    link_at (del_at (Suc k) (heights sl (0 # as))) (del_at (Suc k) (0 # as)) i p"
proof -
  define ps where "ps = 0 # as"
  define hs where "hs = heights sl ps"
  define u where "u = cutpos hs i k"
  define hs0 ps0 where "hs0 = del_at (Suc k) hs" and "ps0 = del_at (Suc k) ps"
  note D = sl_shapeD [OF sh, folded ps_def, folded hs_def]
  have len: "length ps = Suc (length as)" "length hs = Suc (length as)" "Suc k < length hs" "Suc k < length ps"
    using k by (simp_all add: hs_def ps_def)
  have t: "ps ! Suc k = as ! k" by (simp add: ps_def)
  have hs: "hs = ins_at (Suc k) (hs ! Suc k) hs0" and ps: "ps = ins_at (Suc k) (as ! k) ps0"
    using ins_del [of "Suc k" hs] ins_del [of "Suc k" ps] len t by (simp_all add: hs0_def ps0_def)
  have l0: "length hs0 = length as" "length ps0 = length hs0" "k < length hs0"
    using len k by (simp_all add: hs0_def ps0_def)
  have cut: "cut hs i k u" using cut_cutpos [of i hs k] D(3,5) i by (simp add: u_def)
  then have cut0: "cut hs0 i k u"
    using cut_cong [of k hs hs0] len by (simp add: hs0_def nth_del_at)
  then have u: "u \<le> k" "i < hs ! u" using cut by (simp_all add: cut_def)
  note L = link_ins [OF l0(3,2) cut0, where h = "hs ! Suc k" and n = "as ! k", folded hs ps]
  have old: "level_at sl (ps ! q) i = link_at hs ps i q" if "q < length ps" "i < hs ! q" for q
    using D(8) [OF that(1) i that(2)] .
  have dps: "distinct ps" "as ! k \<notin> set ps0"
    using D(1) set_del_at [OF D(1) len(4)] t by (simp_all add: ps0_def)
  have new': "lev (ps ! q) i = (if q = u then
        (if fwd sl (ps ! u) i = Some (as ! k) then
           (fwd sl (as ! k) i, span sl (ps ! u) i + (span sl (as ! k) i - 1))
         else (fwd sl (ps ! u) i, span sl (ps ! u) i - 1))
      else level_at sl (ps ! q) i)" if q: "q < length ps" for q
  proof -
    have "ps ! q = ps ! u \<longleftrightarrow> q = u" using dps(1) q u(1) len by (simp add: nth_eq_iff_index_eq)
    then show ?thesis using new [of "ps ! q" i, folded ps_def, folded hs_def, folded u_def] nth_mem [OF q] i by simp
  qed
  have hp': "i < hs0 ! p" using hp by (simp add: hs0_def hs_def ps_def)
  consider "p < u" | "p = u" | "u < p" "p \<le> k" | "k < p" using u by linarith
  then show ?thesis
    unfolding ps_def [symmetric] hs_def [symmetric] hs0_def [symmetric] ps0_def [symmetric]
  proof cases
    case 1
    have "nxt hs0 i p \<noteq> None" "the (nxt hs0 i p) \<le> u"
      using nxt_le [OF 1, of hs0 i] u cut0 l0 by (auto simp: cut_def)
    then have "link_at hs ps i p = link_at hs0 ps0 i p" using L(1) 1 by blast
    moreover have "ps0 ! p = ps ! p" "hs0 ! p = hs ! p" using 1 u len by (simp_all add: ps0_def hs0_def nth_del_at)
    ultimately show "lev (ps0 ! p) i = link_at hs0 ps0 i p" using new' [of p] old [of p] 1 u len hp' by simp
  next
    case 2
    have e: "ps0 ! p = ps ! u" using 2 u len by (simp add: ps0_def nth_del_at)
    show "lev (ps0 ! p) i = link_at hs0 ps0 i p"
    proof (cases "i < hs ! Suc k")
      case True
      then show ?thesis using new' [of u] old [of u] old [of "Suc k"] L(3,4) u len t 2 e by simp
    next
      case False
      then have "level_at sl (ps ! u) i = (fst (link_at hs0 ps0 i u), snd (link_at hs0 ps0 i u) + 1)"
        using old [of u] L(5) u len by simp
      moreover have "fst (link_at hs0 ps0 i u) \<noteq> Some (as ! k)"
        using dps(2) l0 by (auto simp: link_at_def in_set_conv_nth split: option.splits dest!: nxt_SomeD(2))
      ultimately show ?thesis using new' [of u] u len 2 e by simp
    qed
  next
    case 3
    then show "lev (ps0 ! p) i = link_at hs0 ps0 i p" using hp' cut0 by (auto simp: cut_def)
  next
    case 4
    then have "ps0 ! p = ps ! Suc p" "hs0 ! p = hs ! Suc p" using len by (simp_all add: ps0_def hs0_def nth_del_at)
    then show "lev (ps0 ! p) i = link_at hs0 ps0 i p"
      using new' [of "Suc p"] old [of "Suc p"] L(2) [OF 4] 4 u len hp' p by simp
  qed
qed

lemma lower_level_spec:
  "lower_level sl l \<le> l \<and> (1 \<le> l \<longrightarrow> 1 \<le> lower_level sl l) \<and>
   (\<forall>i. lower_level sl l \<le> i \<and> i < l \<longrightarrow> fwd sl 0 i = None)"
  by (induction l) (auto simp: less_Suc_eq)

definition same_nodes :: "SkipList \<Rightarrow> SkipList \<Rightarrow> bool" where
  "same_nodes a b \<longleftrightarrow>
     length (sl_nodes a) = length (sl_nodes b) \<and> sl_dict a = sl_dict b \<and>
     (\<forall>y < length (sl_nodes b).
        sn_Member (sl_nodes a ! y) = sn_Member (sl_nodes b ! y) \<and>
        sn_Score (sl_nodes a ! y) = sn_Score (sl_nodes b ! y))"

lemma map_del_at: "map f (del_at k xs) = del_at k (map f xs)"
  by (simp add: del_at_def take_map drop_map)

lemma finish_detach_shape:
  assumes sh: "sl_shape sl as" and k: "k < length as" and fr: "same_frame sl1 sl"
    and lev: "\<And>p i. p < length as \<Longrightarrow> i < sl_Level sl \<Longrightarrow> i < del_at (Suc k) (heights sl (0 # as)) ! p \<Longrightarrow>
       level_at sl1 ((0 # del_at k as) ! p) i =
       link_at (del_at (Suc k) (heights sl (0 # as))) (0 # del_at k as) i p"
    and tg: "fwd sl1 (as ! k) 0 = (if Suc k < length as then Some (as ! Suc k) else None)"
    and hi: "\<And>i. sl_Level sl \<le> i \<Longrightarrow> level_at sl1 0 i = level_at sl 0 i"
  shows "sl_shape (finish_detach (as ! k) sl1) (del_at k as) \<and> same_nodes (finish_detach (as ! k) sl1) sl"
proof -
  let ?fin = "finish_detach (as ! k) sl1" and ?as = "del_at k as" and ?t = "as ! k"
  define hs where "hs = del_at (Suc k) (heights sl (0 # as))"
  note D = sl_shapeD [OF sh]
  have n1: "length (sl_nodes sl1) = length (sl_nodes sl)" "sl_Level sl1 = sl_Level sl" "sl_Length sl1 = sl_Length sl"
    "sl_Tail sl1 = sl_Tail sl" "sl_dict sl1 = sl_dict sl"
    using fr by (simp_all add: same_frame_def)
  have mem: "as ! i < length (sl_nodes sl)" if "i < length as" for i using D(2) nth_mem [OF that] by simp
  have bk: "sn_Backward (sl_nodes sl1 ! ?t) = (if k = 0 then None else Some (as ! (k - 1)))"
    using fr D(10) [OF k] mem [OF k] by (simp add: same_frame_def)
  define b where "b = (if k = 0 then None else Some (as ! (k - 1)))"
  define sl2 where "sl2 = (if Suc k < length as then set_backward (as ! Suc k) b sl1 else sl1\<lparr>sl_Tail := b\<rparr>)"
  have fin: "?fin = sl2\<lparr>sl_Level := lower_level sl2 (sl_Level sl), sl_Length := sl_Length sl - 1\<rparr>"
    using tg bk n1 by (auto simp: finish_detach_def Let_def sl2_def b_def)
  have lev2: "level_at sl2 y j = level_at sl1 y j" for y j
    by (simp add: sl2_def level_at_fields)
  have levf: "level_at ?fin y j = level_at sl1 y j" for y j
    unfolding fin using lev2 by (simp add: level_at_def)
  define L where "L = lower_level sl2 (sl_Level sl)"
  have L: "L \<le> sl_Level sl" "1 \<le> L" "\<And>i. L \<le> i \<Longrightarrow> i < sl_Level sl \<Longrightarrow> fwd sl1 0 i = None"
    using lower_level_spec [of sl2 "sl_Level sl"] D(4) lev2 by (auto simp: L_def)
  have F: "sl_Level ?fin = L" "length (sl_nodes ?fin) = length (sl_nodes sl)" "sl_dict ?fin = sl_dict sl"
    "sl_Length ?fin = int (length ?as)" "sl_Tail ?fin = (if Suc k < length as then sl_Tail sl else b)"
    unfolding fin using n1 D(12) k by (simp_all add: L_def sl2_def)
  have N: "length (sn_Level (sl_nodes ?fin ! y)) = length (sn_Level (sl_nodes sl ! y))"
    "sn_Member (sl_nodes ?fin ! y) = sn_Member (sl_nodes sl ! y)"
    "sn_Score (sl_nodes ?fin ! y) = sn_Score (sl_nodes sl ! y)" if "y < length (sl_nodes sl)" for y
    unfolding fin using that fr by (simp_all add: sl2_def same_frame_def)
  have B: "sn_Backward (sl_nodes ?fin ! y) = (if Suc k < length as \<and> y = as ! Suc k then b
      else sn_Backward (sl_nodes sl ! y))" if "y < length (sl_nodes sl)" for y
    unfolding fin using mem [of "Suc k"] n1 that fr
    by (auto simp: Backward_set_backward sl2_def same_frame_def)
  have das: "distinct as" "0 \<notin> set as" using D(1) by simp_all
  note das0 = set_del_at [OF das(1) k]
  have hs: "heights ?fin (0 # ?as) = hs"
  proof -
    have "heights ?fin (0 # ?as) = heights sl (0 # ?as)"
      using N(1) D(2) das0 by (auto simp: heights_def)
    then show ?thesis by (simp add: hs_def Cons_del_at) (simp add: heights_def map_del_at)
  qed
  have lh: "length hs = length as" using k by (simp add: hs_def)
  have links: "level_at ?fin ((0 # ?as) ! p) i = link_at hs (0 # ?as) i p"
    if "p < length as" "i < sl_Level sl" "i < hs ! p" for p i
    using lev [of p i] that levf by (simp add: hs_def)
  have "same_nodes ?fin sl" using F N by (simp add: same_nodes_def)
  moreover have "sl_shape ?fin ?as"
  proof (rule sl_shapeI [OF _ _ hs])
    show "distinct (0 # ?as)" using das das0 by auto
    show "a < length (sl_nodes ?fin)" if "a \<in> set (0 # ?as)" for a
      using that D(2) [of a] F(2) das0 by auto
    show h0: "hs ! 0 = 32" using D(3) k by (simp add: hs_def nth_del_at)
    show "1 \<le> sl_Level ?fin" "sl_Level ?fin \<le> 32" using D(5) L F(1) by simp_all
    show "level_at ?fin ((0 # ?as) ! p) i = link_at hs (0 # ?as) i p"
      if "p < length (0 # ?as)" "i < sl_Level ?fin" "i < hs ! p" for p i
      using links [of p i] that F(1) L k by simp
    show "sl_Length ?fin = int (length ?as)" by (rule F(4))
    show "1 \<le> hs ! Suc p \<and> hs ! Suc p \<le> sl_Level ?fin" if p: "p < length ?as" for p
    proof -
      have h: "1 \<le> hs ! Suc p" "hs ! Suc p \<le> sl_Level sl"
        using D(6,7) [of p] D(6,7) [of "Suc p"] p k by (auto simp: hs_def nth_del_at)
      have "\<not> L < hs ! Suc p"
      proof
        assume less: "L < hs ! Suc p"
        let ?i = "hs ! Suc p - 1"
        have i: "L \<le> ?i" "?i < sl_Level sl" "?i < hs ! Suc p" using less h by auto
        have "Suc p < length hs" using p k lh by simp
        then obtain q where "nxt hs ?i 0 = Some q" using nxt_le [of 0 "Suc p" hs ?i] i(3) by auto
        then have "fst (link_at hs (0 # ?as) ?i 0) \<noteq> None" by (simp add: link_at_def)
        moreover have "level_at ?fin 0 ?i = link_at hs (0 # ?as) ?i 0"
          using links [of 0 ?i] i(2) h0 D(5) k by (cases as) simp_all
        ultimately show False using L(3) [OF i(1,2)] levf by simp
      qed
      then show ?thesis using h F(1) by simp
    qed
    show "sl_Tail ?fin = (if ?as = [] then None else Some (last ?as))"
    proof (cases "Suc k < length as")
      case True
      then have "?as \<noteq> []" by (simp add: del_at_def)
      then show ?thesis using True F(5) D(11) last_del_at [OF k] k by auto
    next
      case False
      then have "Suc k = length as" using k by simp
      moreover from this have "?as = [] \<longleftrightarrow> k = 0" by (auto simp: del_at_def)
      ultimately show ?thesis using F(5) last_del_at [OF k] by (auto simp: b_def)
    qed
    show "fwd ?fin 0 i = None" if "sl_Level ?fin \<le> i" "i < 32" for i
      using that hi levf F(1) D(9) L(3) by (cases "i < sl_Level sl") simp_all
    show "sn_Backward (sl_nodes ?fin ! (?as ! p)) = (if p = 0 then None else Some (?as ! (p - 1)))"
      if p: "p < length ?as" for p
    proof -
      have inj: "as ! i = as ! Suc k \<longleftrightarrow> i = Suc k" if "i < length as" "Suc k < length as" for i
        using das(1) that by (simp add: nth_eq_iff_index_eq)
      have B': "sn_Backward (sl_nodes ?fin ! (as ! q)) =
          (if q = Suc k then b else if q = 0 then None else Some (as ! (q - 1)))" if q: "q < length as" for q
        using B [OF mem [OF q]] inj [OF q] D(10) [OF q] q by auto
      have pl: "p < length as" "k \<le> p \<Longrightarrow> Suc p < length as" using p k by simp_all
      consider "p < k" | "p = k" | "k < p" by linarith
      then show ?thesis
        by cases (use B' [of p] B' [of "Suc p"] pl k in \<open>auto simp: nth_del_at b_def\<close>)
    qed
  qed
  ultimately show ?thesis by blast
qed

lemma detach_shape:
  assumes sh: "sl_shape sl as" and k: "k < length as"
    and upd: "\<And>i. i < sl_Level sl \<Longrightarrow> update ! i = (0 # as) ! cutpos (heights sl (0 # as)) i k"
  shows "sl_shape (detach update (as ! k) sl) (del_at k as) \<and> same_nodes (detach update (as ! k) sl) sl"
proof -
  let ?L = "sl_Level sl" and ?ps = "0 # as"
  define hs where "hs = heights sl ?ps"
  define sl1 where "sl1 = fold (unlink_level update (as ! k)) [0..<?L] sl"
  note D = sl_shapeD [OF sh, folded hs_def]
  note upd = upd [folded hs_def]
  have u: "update ! i < length (sl_nodes sl)" "i < length (sn_Level (sl_nodes sl ! (update ! i)))"
    "update ! i \<noteq> as ! k" if i: "i < ?L" for i
  proof -
    have c: "cutpos hs i k \<le> k" "i < hs ! cutpos hs i k"
      using cut_cutpos [of i hs k] D(3,5) i by (simp_all add: cut_def)
    then have cl: "cutpos hs i k < length ?ps" using k by simp
    show "update ! i < length (sl_nodes sl)" "i < length (sn_Level (sl_nodes sl ! (update ! i)))"
      using upd [OF i] D(2) [OF nth_mem [OF cl]] c(2) nth_heights [OF cl, of sl, folded hs_def] by simp_all
    have "?ps ! cutpos hs i k \<noteq> ?ps ! Suc k"
      using D(1) cl c(1) k nth_eq_iff_index_eq [OF D(1) cl, of "Suc k"] by simp
    then show "update ! i \<noteq> as ! k" using upd [OF i] by simp
  qed
  have loop: "same_frame sl1 sl" "\<And>y j. level_at sl1 y j =
    (if j < ?L \<and> y = update ! j then
       (if fwd sl (update ! j) j = Some (as ! k) then
          (fwd sl (as ! k) j, span sl (update ! j) j + (span sl (as ! k) j - 1))
        else (fwd sl (update ! j) j, span sl (update ! j) j - 1))
     else level_at sl y j)"
    using detach_loop [OF u(1,2), of ?L "as ! k"] by (simp_all add: sl1_def)
  have lev: "level_at sl1 ((0 # del_at k as) ! p) i = link_at (del_at (Suc k) hs) (0 # del_at k as) i p"
    if "p < length as" "i < ?L" "i < del_at (Suc k) hs ! p" for p i
    unfolding Cons_del_at hs_def
    by (rule detach_links [OF sh k _ that [unfolded hs_def]]) (use loop(2) upd in \<open>simp add: hs_def\<close>)
  have hpos: "0 < hs ! q" if "q < length hs" for q
    using height_pos [OF sh, of q] that by (simp add: hs_def)
  have "level_at sl (?ps ! Suc k) 0 = link_at hs ?ps 0 (Suc k)"
    using D(8) [of "Suc k" 0] hpos [of "Suc k"] D(4) k by (simp add: hs_def)
  then have tg: "fwd sl1 (as ! k) 0 = (if Suc k < length as then Some (as ! Suc k) else None)"
    using loop(2) [of "as ! k" 0] u(3) [of 0] D(4) link_at_0 [OF hpos, of ?ps "Suc k"] k by (simp add: hs_def)
  have hi: "level_at sl1 0 i = level_at sl 0 i" if "?L \<le> i" for i using loop(2) [of 0 i] that by simp
  show ?thesis
    unfolding detach_def sl1_def [symmetric]
    by (rule finish_detach_shape [OF sh k loop(1) lev [unfolded hs_def] tg hi])
qed

section \<open>The sorted list of scored members\<close>

definition entry_less :: "float64 \<times> string \<Rightarrow> float64 \<times> string \<Rightarrow> bool" where
  "entry_less a b \<longleftrightarrow> float_less (fst a) (fst b) \<or> float_eq (fst a) (fst b) \<and> snd a < snd b"

definition z_ok :: "(float64 \<times> string) list \<Rightarrow> bool" where
  "z_ok xs \<longleftrightarrow> sorted_wrt entry_less xs \<and> distinct (map snd xs) \<and> list_all (\<lambda>e. \<not> float_nan (fst e)) xs"

definition z_remove :: "string \<Rightarrow> (float64 \<times> string) list \<Rightarrow> (float64 \<times> string) list" where
  "z_remove m xs = filter (\<lambda>e. snd e \<noteq> m) xs"

definition z_insert :: "float64 \<Rightarrow> string \<Rightarrow> (float64 \<times> string) list \<Rightarrow> (float64 \<times> string) list" where
  "z_insert s m xs =
     (let ys = z_remove m xs
      in filter (\<lambda>e. entry_less e (s, m)) ys @ [(s, m)] @ filter (\<lambda>e. \<not> entry_less e (s, m)) ys)"

lemma entry_less_trans: "entry_less a b \<Longrightarrow> entry_less b c \<Longrightarrow> entry_less a c"
  by (auto simp: entry_less_def float_less_def float_eq_def)

lemma entry_less_irrefl: "\<not> entry_less a a"
  by (simp add: entry_less_def float_less_def)

lemma entry_less_total:
  "\<not> float_nan (fst a) \<Longrightarrow> \<not> float_nan (fst b) \<Longrightarrow> snd a \<noteq> snd b \<Longrightarrow> \<not> entry_less a b \<Longrightarrow> entry_less b a"
  by (auto simp: entry_less_def float_less_def float_eq_def)

lemma z_ok_Nil [simp]: "z_ok []"
  by (simp add: z_ok_def)

lemma z_ok_filter: "z_ok xs \<Longrightarrow> z_ok (filter P xs)"
  by (auto simp: z_ok_def sorted_wrt_filter distinct_map_filter list_all_iff)

lemma z_ok_remove: "z_ok xs \<Longrightarrow> z_ok (z_remove m xs)"
  by (simp add: z_remove_def z_ok_filter)

lemma set_z_insert: "set (z_insert s m xs) = insert (s, m) (set (z_remove m xs))"
  by (auto simp: z_insert_def Let_def)

lemma z_ok_insert:
  assumes "z_ok xs" and "\<not> float_nan s"
  shows "z_ok (z_insert s m xs)"
proof -
  let ?ys = "z_remove m xs" and ?P = "\<lambda>e. entry_less e (s, m)"
  have ys: "z_ok ?ys" "\<And>e. e \<in> set ?ys \<Longrightarrow> snd e \<noteq> m" "\<And>e. e \<in> set ?ys \<Longrightarrow> \<not> float_nan (fst e)"
    using z_ok_remove [OF assms(1), of m] by (simp_all add: z_ok_def list_all_iff) (simp add: z_remove_def)
  have above: "entry_less (s, m) e" if "e \<in> set ?ys" "\<not> ?P e" for e
    using entry_less_total [of e "(s, m)"] that ys(2,3) assms(2) by simp
  have "sorted_wrt entry_less (filter ?P ?ys @ [(s, m)] @ filter (\<lambda>e. \<not> ?P e) ?ys)"
    using ys(1) above by (auto simp: sorted_wrt_append z_ok_def sorted_wrt_filter intro: entry_less_trans)
  moreover have "distinct (map snd (filter ?P ?ys @ [(s, m)] @ filter (\<lambda>e. \<not> ?P e) ?ys))"
    using ys(1,2) by (auto simp: z_ok_def distinct_map_filter distinct_map inj_on_def)
  ultimately show ?thesis
    using ys(3) assms(2) by (auto simp: z_ok_def z_insert_def Let_def list_all_iff)
qed

text \<open>A list in this order is determined by its elements.\<close>

lemma z_ok_unique: "z_ok xs \<Longrightarrow> z_ok ys \<Longrightarrow> set xs = set ys \<Longrightarrow> xs = ys"
proof (induction xs arbitrary: ys)
  case (Cons x xs)
  obtain y ys' where y: "ys = y # ys'" using Cons.prems(3) by (cases ys) auto
  have sx: "\<And>e. e \<in> set xs \<Longrightarrow> entry_less x e" "z_ok xs" "x \<notin> set xs"
    and sy: "\<And>e. e \<in> set ys' \<Longrightarrow> entry_less y e" "z_ok ys'" "y \<notin> set ys'"
    using Cons.prems(1,2) by (auto simp: z_ok_def y entry_less_irrefl)
  have "x = y"
  proof (rule ccontr)
    assume "x \<noteq> y"
    then have "y \<in> set xs" "x \<in> set ys'" using Cons.prems(3) y by auto
    then have "entry_less x y" "entry_less y x" using sx(1) sy(1) by blast+
    then show False using entry_less_trans entry_less_irrefl by blast
  qed
  moreover have "xs = ys'" by (rule Cons.IH [OF sx(2) sy(2)]) (use Cons.prems(3) y \<open>x = y\<close> sx(3) sy(3) in auto)
  ultimately show ?case using y by simp
qed simp

text \<open>In an ascending list a lower set is a prefix.\<close>

lemma lower_filter:
  assumes "sorted_wrt (\<lambda>a b. P b \<longrightarrow> P a) xs"
  shows "filter P xs = take (length (filter P xs)) xs \<and> filter (\<lambda>x. \<not> P x) xs = drop (length (filter P xs)) xs \<and>
    (\<forall>j < length xs. P (xs ! j) \<longleftrightarrow> j < length (filter P xs))"
  using assms
proof (induction xs)
  case (Cons x xs)
  show ?case
  proof (cases "P x")
    case True
    have "P ((x # xs) ! j) \<longleftrightarrow> j < length (filter P (x # xs))" if "j < length (x # xs)" for j
      using Cons that True by (cases j) auto
    then show ?thesis using Cons True by auto
  next
    case False
    then have "\<forall>y \<in> set xs. \<not> P y" using Cons.prems by auto
    then have "filter P (x # xs) = []" using False by (auto simp: filter_empty_conv)
    moreover have "\<not> P ((x # xs) ! j)" if "j < length (x # xs)" for j
      using that False \<open>\<forall>y \<in> set xs. \<not> P y\<close> nth_mem [of "j - 1" xs] by (cases j) auto
    ultimately show ?thesis using \<open>\<forall>y \<in> set xs. \<not> P y\<close> by (auto simp: filter_id_conv)
  qed
qed simp

lemma z_ok_lower: "z_ok xs \<Longrightarrow> sorted_wrt (\<lambda>a b. entry_less b e \<longrightarrow> entry_less a e) xs"
  by (auto simp: z_ok_def intro: sorted_wrt_mono_rel [of _ entry_less] entry_less_trans)

definition z_below :: "(float64 \<times> string) list \<Rightarrow> float64 \<times> string \<Rightarrow> nat" where
  "z_below xs e = length (filter (\<lambda>x. entry_less x e) xs)"

lemma z_below:
  assumes "z_ok xs"
  shows "j < length xs \<Longrightarrow> entry_less (xs ! j) e \<longleftrightarrow> j < z_below xs e"
    and "z_below xs e \<le> length xs"
    and "filter (\<lambda>x. entry_less x e) xs = take (z_below xs e) xs"
    and "filter (\<lambda>x. \<not> entry_less x e) xs = drop (z_below xs e) xs"
  using lower_filter [OF z_ok_lower [OF assms, of e]] by (auto simp: z_below_def)

lemma z_below_nth: "z_ok xs \<Longrightarrow> j < length xs \<Longrightarrow> z_below xs (xs ! j) = j"
proof -
  assume ok: "z_ok xs" and j: "j < length xs"
  have mono: "entry_less (xs ! i) (xs ! j)" if "i < j" for i
    using ok j that by (simp add: z_ok_def sorted_wrt_iff_nth_less)
  have "\<not> j < z_below xs (xs ! j)" using z_below(1) [OF ok j] entry_less_irrefl by blast
  moreover have "\<not> z_below xs (xs ! j) < j"
    using z_below(1) [OF ok, of "z_below xs (xs ! j)" "xs ! j"] mono j by auto
  ultimately show ?thesis by simp
qed

section \<open>The skip list as a sorted list\<close>

definition sl_entry :: "SkipList \<Rightarrow> nat \<Rightarrow> float64 \<times> string" where
  "sl_entry sl a = (sn_Score (sl_nodes sl ! a), sn_Member (sl_nodes sl ! a))"

fun follow :: "nat \<Rightarrow> SkipList \<Rightarrow> nat option \<Rightarrow> nat list" where
  "follow (Suc f) sl (Some x) = x # follow f sl (fwd sl x 0)"
| "follow _ sl _ = []"

definition sl_addrs :: "SkipList \<Rightarrow> nat list" where
  "sl_addrs sl = follow (length (sl_nodes sl)) sl (fwd sl 0 0)"

definition sl_entries :: "SkipList \<Rightarrow> (float64 \<times> string) list" where
  "sl_entries sl = map (sl_entry sl) (sl_addrs sl)"

definition dict_ok :: "(string, float64) gomap \<Rightarrow> (float64 \<times> string) list \<Rightarrow> bool" where
  "dict_ok d xs \<longleftrightarrow> gomap_ok d \<and> (\<forall>m s. gget d m = Some s \<longleftrightarrow> (s, m) \<in> set xs)"

definition sl_wf :: "SkipList \<Rightarrow> bool" where
  "sl_wf sl \<longleftrightarrow>
     sl_shape sl (sl_addrs sl) \<and> z_ok (sl_entries sl) \<and> dict_ok (sl_dict sl) (sl_entries sl) \<and>
     sn_Member (sl_nodes sl ! 0) = []"

lemma fwd_0:
  assumes sh: "sl_shape sl as" and p: "p \<le> length as"
  shows "fwd sl ((0 # as) ! p) 0 = (if p < length as then Some (as ! p) else None)"
proof -
  let ?hs = "heights sl (0 # as)"
  have hpos: "0 < ?hs ! q" if "q < length ?hs" for q using height_pos [OF sh, of q] that by simp
  have "level_at sl ((0 # as) ! p) 0 = link_at ?hs (0 # as) 0 p"
    using sl_shapeD(4,8) [OF sh] hpos [of p] p by simp
  then show ?thesis using link_at_0 [OF hpos, of "0 # as" p] p by simp
qed

lemma follow_shape:
  assumes sh: "sl_shape sl as"
  shows "p \<le> length as \<Longrightarrow> length as - p \<le> f \<Longrightarrow> follow f sl (fwd sl ((0 # as) ! p) 0) = drop p as"
proof (induction f arbitrary: p)
  case (Suc f)
  then show ?case
    using fwd_0 [OF sh Suc.prems(1)] Suc.IH [of "Suc p"] by (cases "p < length as") (auto simp: Cons_nth_drop_Suc)
qed simp

lemma sl_addrs_shape: "sl_shape sl as \<Longrightarrow> sl_addrs sl = as"
  using follow_shape [of sl as 0 "length (sl_nodes sl)"] length_as_nodes [of sl as] by (simp add: sl_addrs_def)

lemma sl_wfI:
  assumes "sl_shape sl as" and "map (sl_entry sl) as = xs" and "z_ok xs" and "dict_ok (sl_dict sl) xs"
    and "sn_Member (sl_nodes sl ! 0) = []"
  shows "sl_wf sl \<and> sl_entries sl = xs"
  using assms sl_addrs_shape [OF assms(1)] by (simp add: sl_wf_def sl_entries_def)

lemma before_below:
  assumes "z_ok (map (sl_entry sl) as)" and "1 \<le> q" and "q \<le> length as"
  shows "before score member r (sl_nodes sl ! ((0 # as) ! q)) \<longleftrightarrow> q \<le> z_below (map (sl_entry sl) as) (score, member)"
  using z_below(1) [OF assms(1), of "q - 1" "(score, member)"] assms(2,3)
  by (simp add: before_def entry_less_def sl_entry_def) linarith

lemma cutpos_high:
  assumes sh: "sl_shape sl as" and "sl_Level sl \<le> i" and "i < 32" and "k \<le> length as"
  shows "cutpos (heights sl (0 # as)) i k = 0"
proof -
  let ?hs = "heights sl (0 # as)"
  have "?hs ! r \<le> i" if "0 < r" "r \<le> k" for r
    using sl_shapeD(7) [OF sh, of "r - 1"] that assms by (cases r) auto
  then have "cut ?hs i k 0" using sl_shapeD(3) [OF sh] assms(3) by (simp add: cut_def)
  then show ?thesis using cut_cutpos [of i ?hs k] sl_shapeD(3) [OF sh] assms(3) cut_unique by auto
qed

lemma entry_ins:
  assumes sd: "same_data sl1 (alloc level score member sl)" and "k \<le> length as"
    and "\<And>a. a \<in> set as \<Longrightarrow> a < length (sl_nodes sl)"
  shows "map (sl_entry sl1) (ins_at k (length (sl_nodes sl)) as) = ins_at k (score, member) (map (sl_entry sl) as)"
proof -
  have "sl_entry sl1 a = sl_entry sl a" if "a \<in> set as" for a
    using sd assms(3) [OF that] by (simp add: same_data_def sl_entry_def nth_append)
  moreover have "sl_entry sl1 (length (sl_nodes sl)) = (score, member)"
    using sd by (simp add: same_data_def sl_entry_def new_node_def)
  ultimately show ?thesis
    by (auto simp: ins_at_def take_map drop_map dest: in_set_takeD in_set_dropD)
qed

lemma open_levels_entry:
  assumes sh: "sl_shape sl as" and lv: "level \<le> 32"
  shows "map (sl_entry (open_levels level sl)) as = map (sl_entry sl) as"
    and "length (sl_nodes (open_levels level sl)) = length (sl_nodes sl)"
    and "heights (open_levels level sl) (0 # as) = heights sl (0 # as)"
    and "sl_Level (open_levels level sl) = max (sl_Level sl) level"
proof -
  note O = open_levels_shape [OF sh lv]
  note D = sl_shapeD(2) [OF sh]
  show "map (sl_entry (open_levels level sl)) as = map (sl_entry sl) as"
    using O(3) D by (auto simp: sl_entry_def O(2) same_frame_def)
  show "length (sl_nodes (open_levels level sl)) = length (sl_nodes sl)"
    using O(3) by (simp add: O(2) same_frame_def)
  show "heights (open_levels level sl) (0 # as) = heights sl (0 # as)"
    using same_frame_heights [OF O(3) D, of "0 # as"] unfolding heights_def O(2) .
qed (simp add: open_levels_def)

lemma sl_shape_dict [simp]: "sl_shape (sl\<lparr>sl_dict := d\<rparr>) as = sl_shape sl as"
  by (simp add: sl_shape_def heights_def level_at_def)

lemma insert_new_refines:
  assumes wf: "sl_wf sl" and new: "member \<notin> snd ` set (sl_entries sl)"
    and nan: "\<not> float_nan score" and lv: "1 \<le> level" "level \<le> 32"
  shows "sl_wf (insert_new level score member sl) \<and>
    sl_entries (insert_new level score member sl) = z_insert score member (sl_entries sl)"
proof -
  define as where "as = sl_addrs sl"
  define xs where "xs = sl_entries sl"
  have sh: "sl_shape sl as" and ok: "z_ok xs" and d: "dict_ok (sl_dict sl) xs" and xs: "xs = map (sl_entry sl) as"
    using wf by (simp_all add: sl_wf_def as_def xs_def sl_entries_def)
  define k where "k = z_below xs (score, member)"
  let ?hs = "heights sl (0 # as)" and ?L = "sl_Level sl" and ?sl = "open_levels level sl" and ?e = "level - sl_Level sl"
  have k: "k \<le> length as" using z_below(2) [OF ok, of "(score, member)"] by (simp add: k_def xs)
  have L32: "?L \<le> ?hs ! 0" using sl_shapeD(3,5) [OF sh] by simp
  have des: "descend (before score member) sl ?L 0 0 =
      (map (\<lambda>i. (0 # as) ! cutpos ?hs i k) [0..<?L], map (\<lambda>i. int (cutpos ?hs i k)) [0..<?L])"
    using descend_cut [OF sh k, of "before score member" ?L 0] before_below [OF ok [unfolded xs]] L32
    by (simp add: k_def xs)
  define update where "update = map (\<lambda>i. (0 # as) ! cutpos ?hs i k) [0..<?L] @ replicate ?e 0"
  define rank where "rank = map (\<lambda>i. int (cutpos ?hs i k)) [0..<?L] @ replicate ?e 0"
  have arr: "update ! i = (0 # as) ! cutpos ?hs i k" "rank ! i = int (cutpos ?hs i k)" if "i < max ?L level" for i
    using that cutpos_high [OF sh _ _ k, of i] lv sl_shapeD(5) [OF sh]
    by (auto simp: update_def rank_def nth_append)
  note O = open_levels_shape [OF sh lv(2)] and E = open_levels_entry [OF sh lv(2)]
  define sl1 where "sl1 = attach level score member update rank ?sl"
  have at: "sl_shape sl1 (ins_at k (length (sl_nodes sl)) as)" "same_data sl1 (alloc level score member ?sl)"
    using attach_shape [OF O(1) k lv(1), of update rank score member] arr E by (simp_all add: sl1_def)
  have ins: "insert_new level score member sl = sl1\<lparr>sl_dict := gput member score (sl_dict sl1)\<rparr>"
    by (simp add: insert_new_def Let_def des sl1_def update_def rank_def)
  have rem: "z_remove member xs = xs" using new by (force simp: z_remove_def xs_def filter_id_conv)
  have en: "map (sl_entry sl1) (ins_at k (length (sl_nodes sl)) as) = z_insert score member xs"
    using entry_ins [OF at(2) k] sl_shapeD(2) [OF O(1)] E(1,2)
    by (simp add: xs [symmetric] z_insert_def rem ins_at_def z_below(3,4) [OF ok] k_def)
  have dict: "sl_dict sl1 = sl_dict sl" using at(2) O(4) by (simp add: same_data_def)
  have hd: "sn_Member (sl_nodes sl1 ! 0) = []"
    using at(2) O(3) wf sl_shapeD(2) [OF sh, of 0] sl_shapeD(2) [OF O(1), of 0]
    by (simp add: same_data_def same_frame_def O(2) nth_append sl_wf_def)
  have "dict_ok (gput member score (sl_dict sl)) (z_insert score member xs)"
    using d new rem by (force simp: dict_ok_def gomap_simps set_z_insert xs_def)
  then show ?thesis
    unfolding ins xs_def [symmetric]
    by (intro sl_wfI [where as = "ins_at k (length (sl_nodes sl)) as"] z_ok_insert)
      (use at(1) en dict ok nan hd in \<open>simp_all add: sl_entry_def [abs_def]\<close>)
qed

lemma dict_ok_get:
  assumes "dict_ok d xs"
  shows "gget d m \<noteq> None \<longleftrightarrow> m \<in> snd ` set xs" and "gget d m = Some s \<longleftrightarrow> (s, m) \<in> set xs"
  using assms by (force simp: dict_ok_def)+

lemma map_entry_del:
  assumes "same_nodes sl1 sl" and "\<And>a. a \<in> set as \<Longrightarrow> a < length (sl_nodes sl)"
  shows "map (sl_entry sl1) (del_at k as) = del_at k (map (sl_entry sl) as)"
proof -
  have "map (sl_entry sl1) as = map (sl_entry sl) as"
    using assms by (auto simp: same_nodes_def sl_entry_def)
  then show ?thesis unfolding map_del_at by (rule arg_cong)
qed

lemma z_remove_nth:
  assumes "z_ok xs" and "k < length xs"
  shows "z_remove (snd (xs ! k)) xs = del_at k xs"
proof -
  have "distinct (map snd (take k xs @ xs ! k # drop (Suc k) xs))"
    using assms(1) unfolding id_take_nth_drop [OF assms(2), symmetric] by (simp add: z_ok_def)
  then have "\<forall>e \<in> set (take k xs) \<union> set (drop (Suc k) xs). snd e \<noteq> snd (xs ! k)"
    by (auto simp del: append_take_drop_id intro: rev_image_eqI)
  then have "filter (\<lambda>e. snd e \<noteq> snd (xs ! k)) (take k xs) = take k xs"
    "filter (\<lambda>e. snd e \<noteq> snd (xs ! k)) (drop (Suc k) xs) = drop (Suc k) xs"
    by (auto simp: filter_id_conv)
  then have "filter (\<lambda>e. snd e \<noteq> snd (xs ! k)) (take k xs @ xs ! k # drop (Suc k) xs) = del_at k xs"
    by (simp add: del_at_def)
  then show ?thesis by (simp add: z_remove_def id_take_nth_drop [OF assms(2), symmetric])
qed

lemma deleteUnsafe_refines:
  assumes wf: "sl_wf sl"
  shows "sl_wf (snd (deleteUnsafe member sl)) \<and>
    sl_entries (snd (deleteUnsafe member sl)) = z_remove member (sl_entries sl) \<and>
    fst (deleteUnsafe member sl) = (member \<in> snd ` set (sl_entries sl))"
proof -
  define as where "as = sl_addrs sl"
  define xs where "xs = sl_entries sl"
  have sh: "sl_shape sl as" and ok: "z_ok xs" and d: "dict_ok (sl_dict sl) xs" and xs: "xs = map (sl_entry sl) as"
    using wf by (simp_all add: sl_wf_def as_def xs_def sl_entries_def)
  show ?thesis
  proof (cases "gget (sl_dict sl) member")
    case None
    then have "member \<notin> snd ` set xs" using dict_ok_get(1) [OF d] by blast
    moreover from this have "z_remove member xs = xs" by (force simp: z_remove_def filter_id_conv)
    ultimately show ?thesis using None wf by (simp add: deleteUnsafe_def xs_def)
  next
    case (Some score)
    then have mem: "(score, member) \<in> set xs" using dict_ok_get(2) [OF d] by blast
    then obtain k where k: "k < length xs" "xs ! k = (score, member)" by (auto simp: in_set_conv_nth)
    have kb: "z_below xs (score, member) = k" using z_below_nth [OF ok k(1)] k(2) by simp
    have kl: "k < length as" using k(1) by (simp add: xs)
    let ?hs = "heights sl (0 # as)" and ?L = "sl_Level sl"
    have L32: "?L \<le> ?hs ! 0" using sl_shapeD(3,5) [OF sh] by simp
    have L0: "0 < ?L" using sl_shapeD(4) [OF sh] by simp
    define update where "update = map (\<lambda>i. (0 # as) ! cutpos ?hs i k) [0..<?L]"
    have des: "fst (descend (before score member) sl ?L 0 0) = update"
      using descend_cut [OF sh less_imp_le [OF kl], of "before score member" ?L 0] before_below [OF ok [unfolded xs]] L32 kb
      by (simp add: xs update_def)
    have hpos: "0 < ?hs ! q" if "q < length ?hs" for q using height_pos [OF sh, of q] that by simp
    have "cutpos ?hs 0 k = k" by (rule cutpos_0 [OF hpos]) (use kl in simp_all)
    then have "update ! 0 = (0 # as) ! k" using L0 by (simp add: update_def)
    then have fw: "fwd sl (update ! 0) 0 = Some (as ! k)" using fwd_0 [OF sh, of k] kl by simp
    have en: "sn_Score (sl_nodes sl ! (as ! k)) = score" "sn_Member (sl_nodes sl ! (as ! k)) = member"
      using k(2) kl by (simp_all add: xs sl_entry_def)
    have nan: "float_eq score score" using ok mem by (auto simp: z_ok_def list_all_iff float_eq_def)
    define sl1 where "sl1 = detach update (as ! k) sl"
    have del: "deleteUnsafe member sl = (True, sl1\<lparr>sl_dict := gdel member (sl_dict sl1)\<rparr>)"
      by (simp add: deleteUnsafe_def Some des fw en nan Let_def sl1_def)
    have dt: "sl_shape sl1 (del_at k as)" "same_nodes sl1 sl"
      using detach_shape [OF sh kl, of update] by (simp_all add: sl1_def update_def)
    have rem: "z_remove member xs = del_at k xs" using z_remove_nth [OF ok k(1)] k(2) by simp
    have es: "map (sl_entry sl1) (del_at k as) = z_remove member xs"
      using map_entry_del [OF dt(2), of as k] sl_shapeD(2) [OF sh] rem by (simp add: xs [symmetric])
    have hd: "sn_Member (sl_nodes sl1 ! 0) = []"
      using dt(2) wf sl_shapeD(2) [OF sh, of 0] by (simp add: same_nodes_def sl_wf_def)
    have "dict_ok (gdel member (sl_dict sl1)) (z_remove member xs)"
      using d dt(2) by (auto simp: dict_ok_def gomap_simps z_remove_def same_nodes_def)
    then have "sl_wf (snd (deleteUnsafe member sl)) \<and> sl_entries (snd (deleteUnsafe member sl)) = z_remove member xs"
      unfolding del snd_conv
      by (intro sl_wfI [where as = "del_at k as"] z_ok_remove)
        (use dt(1) es ok hd in \<open>simp_all add: sl_entry_def [abs_def]\<close>)
    moreover have "member \<in> snd ` set xs" using mem by force
    ultimately show ?thesis by (simp add: del xs_def)
  qed
qed

lemma z_insert_remove [simp]: "z_insert s m (z_remove m xs) = z_insert s m xs"
  by (simp add: z_insert_def z_remove_def)

lemma sl_Insert_correct:
  assumes wf: "sl_wf sl" and nan: "\<not> float_nan score" and lv: "1 \<le> level" "level \<le> 32"
  shows "sl_wf (sl_Insert level score member sl) \<and>
    sl_entries (sl_Insert level score member sl) = z_insert score member (sl_entries sl)"
proof (cases "gget (sl_dict sl) member = None")
  case True
  then have "member \<notin> snd ` set (sl_entries sl)" using dict_ok_get(1) [of "sl_dict sl" _ member] wf unfolding sl_wf_def by blast
  then show ?thesis using insert_new_refines [OF wf _ nan lv] True by (simp add: sl_Insert_def)
next
  case False
  let ?sl = "snd (deleteUnsafe member sl)"
  note del = deleteUnsafe_refines [OF wf, of member]
  then have "member \<notin> snd ` set (sl_entries ?sl)" by (auto simp: z_remove_def)
  then show ?thesis using insert_new_refines [OF _ _ nan lv, of ?sl member] del False
    by (simp add: sl_Insert_def)
qed

lemma sl_wf_New: "sl_wf NewSkipList \<and> sl_entries NewSkipList = []"
proof (rule sl_wfI [where as = "[]"])
  show "sl_shape NewSkipList []"
    by (rule sl_shapeI [where hs = "[32]"])
      (auto simp: NewSkipList_def heights_def SkipListMaxLevel_def level_at_def link_at_def nxt_def)
qed (simp_all add: NewSkipList_def dict_ok_def gomap_ok_def)

subsection \<open>Queries\<close>

lemma element_loop_cut:
  assumes sh: "sl_shape sl as" and k: "k \<le> length as"
  shows "1 \<le> n \<Longrightarrow> n \<le> sl_Level sl \<Longrightarrow> p \<le> k \<Longrightarrow> n \<le> heights sl (0 # as) ! p \<Longrightarrow>
    element_loop (int k) sl n ((0 # as) ! p) (int p) = Some ((0 # as) ! k)"
proof (induction n arbitrary: p)
  case (Suc n)
  let ?hs = "heights sl (0 # as)" and ?u = "cutpos (heights sl (0 # as)) n k"
  have w: "walk_level (\<lambda>t _. t \<le> int k) sl n ((0 # as) ! p) (int p) = ((0 # as) ! ?u, int ?u)"
    by (rule walk_level_cut [OF sh _ k]) (use Suc.prems in simp_all)
  have "n < ?hs ! 0" using sl_shapeD(3,5) [OF sh] Suc.prems(2) by simp
  from cut_cutpos [OF this, of k] have u: "?u \<le> k" "n < ?hs ! ?u" by (simp_all add: cut_def)
  show ?case
  proof (cases "?u = k")
    case False
    have "?u = k" if "n = 0"
      using that cutpos_0 [of ?hs k] height_pos [OF sh] k by simp
    then have "1 \<le> n" using False by (cases n) auto
    then show ?thesis using False w u Suc.IH [of ?u] Suc.prems(2) by simp
  qed (simp add: w)
qed simp

lemma GetElementByRank_shape:
  assumes "sl_shape sl as" and "k \<le> length as"
  shows "GetElementByRank (int k) sl = Some ((0 # as) ! k)"
  using element_loop_cut [OF assms, of "sl_Level sl" 0] sl_shapeD(3-5) [OF assms(1)]
  by (simp add: GetElementByRank_def)

lemma rank_loop_cut:
  assumes sh: "sl_shape sl as" and k: "k \<le> length as"
    and go: "\<And>q. 1 \<le> q \<Longrightarrow> q \<le> length as \<Longrightarrow> go (int q) (sl_nodes sl ! ((0 # as) ! q)) \<longleftrightarrow> q \<le> k"
    and at: "\<And>q. q \<le> length as \<Longrightarrow> sn_Member (sl_nodes sl ! ((0 # as) ! q)) = member \<longleftrightarrow> q = k"
  shows "1 \<le> n \<Longrightarrow> n \<le> sl_Level sl \<Longrightarrow> p \<le> k \<Longrightarrow> n \<le> heights sl (0 # as) ! p \<Longrightarrow>
    rank_loop go member sl n ((0 # as) ! p) (int p) = int k - 1"
proof (induction n arbitrary: p)
  case (Suc n)
  let ?hs = "heights sl (0 # as)" and ?u = "cutpos (heights sl (0 # as)) n k"
  have w: "walk_level go sl n ((0 # as) ! p) (int p) = ((0 # as) ! ?u, int ?u)"
    by (rule walk_level_cut [OF sh _ k go]) (use Suc.prems in simp_all)
  have "n < ?hs ! 0" using sl_shapeD(3,5) [OF sh] Suc.prems(2) by simp
  from cut_cutpos [OF this, of k] have u: "?u \<le> k" "n < ?hs ! ?u" by (simp_all add: cut_def)
  have m: "sn_Member (sl_nodes sl ! ((0 # as) ! ?u)) = member \<longleftrightarrow> ?u = k" using at [of ?u] u k by simp
  show ?case
  proof (cases "?u = k")
    case False
    have "?u = k" if "n = 0"
      using that cutpos_0 [of ?hs k] height_pos [OF sh] k by simp
    then have "1 \<le> n" using False by (cases n) auto
    then show ?thesis using False w u m Suc.IH [of ?u] Suc.prems(2) by simp
  qed (use w m in simp)
qed simp

lemma GetRank_correct:
  assumes wf: "sl_wf sl" and ne: "member \<noteq> []"
  shows "GetRank member sl =
    (case GetScore member sl of None \<Rightarrow> - 1 | Some score \<Rightarrow> int (z_below (sl_entries sl) (score, member)))"
proof (cases "gget (sl_dict sl) member")
  case (Some score)
  define as where "as = sl_addrs sl"
  define xs where "xs = sl_entries sl"
  have sh: "sl_shape sl as" and ok: "z_ok xs" and d: "dict_ok (sl_dict sl) xs" and xs: "xs = map (sl_entry sl) as"
    and hd: "sn_Member (sl_nodes sl ! 0) = []"
    using wf by (simp_all add: sl_wf_def as_def xs_def sl_entries_def)
  have mem: "(score, member) \<in> set xs" using dict_ok_get(2) [OF d] Some by blast
  then obtain k where k: "k < length xs" "xs ! k = (score, member)" by (auto simp: in_set_conv_nth)
  have kb: "z_below xs (score, member) = k" using z_below_nth [OF ok k(1)] k(2) by simp
  have inj: "snd (xs ! j) = member \<longleftrightarrow> j = k" if "j < length xs" for j
    using nth_eq_iff_index_eq [of "map snd xs" j k] ok that k by (auto simp: z_ok_def)
  have go: "upto_member score member r (sl_nodes sl ! ((0 # as) ! q)) \<longleftrightarrow> q \<le> Suc k"
    if q: "1 \<le> q" "q \<le> length as" for q r
  proof -
    have "upto_member score member r (sl_nodes sl ! ((0 # as) ! q)) \<longleftrightarrow>
        entry_less (xs ! (q - 1)) (score, member) \<or>
        float_eq (fst (xs ! (q - 1))) score \<and> snd (xs ! (q - 1)) = member"
    proof -
      have "(0 # as) ! q = as ! (q - 1)" "xs ! (q - 1) = sl_entry sl (as ! (q - 1))"
        using q by (auto simp: xs nth_Cons')
      then show ?thesis by (auto simp: upto_member_def entry_less_def sl_entry_def le_less)
    qed
    moreover have "entry_less (xs ! (q - 1)) (score, member) \<longleftrightarrow> q - 1 < k"
      using z_below(1) [OF ok, of "q - 1" "(score, member)"] kb q by (simp add: xs)
    moreover have "float_eq score score" using ok mem by (auto simp: z_ok_def list_all_iff float_eq_def)
    moreover have "q - 1 < length xs" "q - 1 = k \<or> q - 1 < k \<longleftrightarrow> q \<le> Suc k" using q by (auto simp: xs)
    ultimately show ?thesis using inj [of "q - 1"] k(2) by (cases "q - 1 = k") auto
  qed
  have at: "sn_Member (sl_nodes sl ! ((0 # as) ! q)) = member \<longleftrightarrow> q = Suc k" if "q \<le> length as" for q
    using inj [of "q - 1"] that ne hd by (cases q) (auto simp: xs sl_entry_def)
  have "rank_loop (upto_member score member) member sl (sl_Level sl) 0 0 = int k"
    using rank_loop_cut [OF sh _ go at, of "sl_Level sl" 0] k sl_shapeD(3-5) [OF sh] by (simp add: xs)
  then show ?thesis using Some kb by (simp add: GetRank_def GetScore_def xs_def)
qed (simp add: GetRank_def GetScore_def)

definition swap_entry :: "float64 \<times> string \<Rightarrow> string \<times> float64" where
  "swap_entry e = (snd e, fst e)"

lemma swap_entry [simp]: "swap_entry (sl_entry sl x) = (sn_Member (sl_nodes sl ! x), sn_Score (sl_nodes sl ! x))"
  by (simp add: swap_entry_def sl_entry_def)

lemma collect_forward:
  assumes sh: "sl_shape sl as"
  shows "p \<le> length as \<Longrightarrow> collect (\<lambda>nd. fst (sn_Level nd ! 0)) sl n (fwd sl ((0 # as) ! p) 0) =
    map swap_entry (take n (drop p (map (sl_entry sl) as)))"
proof (induction n arbitrary: p)
  case (Suc n)
  have f: "fst (sn_Level (sl_nodes sl ! x) ! 0) = fwd sl x 0" for x by (simp add: level_at_def)
  show ?case
  proof (cases "p < length as")
    case True
    then have "drop p (map (sl_entry sl) as) = sl_entry sl (as ! p) # drop (Suc p) (map (sl_entry sl) as)"
      by (simp add: Cons_nth_drop_Suc [symmetric])
    then show ?thesis
      using Suc.IH [of "Suc p"] True fwd_0 [OF sh, of p] by (simp add: f Let_def)
  qed (use Suc.prems fwd_0 [OF sh, of p] in simp)
qed simp

lemma collect_backward:
  assumes sh: "sl_shape sl as"
  shows "p \<le> length as \<Longrightarrow> collect sn_Backward sl n (if p = 0 then None else Some (as ! (p - 1))) =
    map swap_entry (take n (rev (take p (map (sl_entry sl) as))))"
proof (induction n arbitrary: p)
  case (Suc n)
  show ?case
  proof (cases p)
    case (Suc q)
    then have "q < length as" using Suc.prems by simp
    then show ?thesis
      using Suc.IH [of q] sl_shapeD(10) [OF sh, of q] \<open>p = Suc q\<close>
      by (simp add: take_Suc_conv_app_nth Let_def)
  qed simp
qed simp

lemma take_cong_len: "min i (length l) = min j (length l) \<Longrightarrow> take i l = take j l"
  by (metis min.commute take_all take_take le_refl)

lemma sl_Range_correct:
  assumes wf: "sl_wf sl"
  shows "sl_Range start stop reverse sl =
    (let ys = (if reverse then rev (sl_entries sl) else sl_entries sl); n = length ys
     in map swap_entry (nths ys {k. norm_index n start \<le> int k \<and> int k \<le> norm_index n stop}))"
proof -
  define as where "as = sl_addrs sl"
  define xs where "xs = sl_entries sl"
  have sh: "sl_shape sl as" and xs: "xs = map (sl_entry sl) as"
    using wf by (simp_all add: sl_wf_def as_def xs_def sl_entries_def)
  have len: "sl_Length sl = int (length xs)" using sl_shapeD(12) [OF sh] by (simp add: xs)
  let ?n = "length xs"
  define a where "a = max 0 (norm_index ?n start)"
  define b where "b = min (norm_index ?n stop) (int ?n - 1)"
  have sl: "nths ys {k. norm_index ?n start \<le> int k \<and> int k \<le> norm_index ?n stop} =
      take (nat (b + 1) - nat a) (drop (nat a) ys)" if "length ys = ?n" for ys :: "(float64 \<times> string) list"
    using that by (auto simp: nths_range a_def b_def min_def max_def intro!: take_cong_len)
  have R: "sl_Range start stop reverse sl = (if a > b \<or> a \<ge> int ?n then []
     else if \<not> reverse then
       collect (\<lambda>nd. fst (sn_Level nd ! 0)) sl (nat (b - a + 1)) (GetElementByRank (a + 1) sl)
     else collect sn_Backward sl (nat (b - a + 1)) (GetElementByRank (int ?n - a) sl))"
    by (auto simp: sl_Range_def Let_def len a_def b_def norm_index_def)
  show ?thesis
  proof (cases "a > b \<or> a \<ge> int ?n")
    case True
    then show ?thesis using sl [of xs] sl [of "rev xs"] R by (auto simp: xs_def [symmetric] Let_def)
  next
    case False
    have a: "0 \<le> a" "nat a < length as" using False by (auto simp: a_def xs)
    have cnt: "nat (b - a + 1) = nat (b + 1) - nat a" using False a by auto
    show ?thesis
    proof (cases reverse)
      case False
      have "GetElementByRank (a + 1) sl = fwd sl ((0 # as) ! nat a) 0"
        using GetElementByRank_shape [OF sh, of "Suc (nat a)"] fwd_0 [OF sh, of "nat a"] a by (simp add: add.commute)
      then show ?thesis
        using R False \<open>\<not> (a > b \<or> a \<ge> int ?n)\<close> collect_forward [OF sh, of "nat a"] a cnt sl [of xs]
        by (simp add: xs_def [symmetric] Let_def xs [symmetric])
    next
      case True
      let ?k = "?n - nat a"
      have k: "0 < ?k" "?k \<le> length as" "int ?n - a = int ?k" using a by (auto simp: xs)
      have "GetElementByRank (int ?n - a) sl = (if ?k = 0 then None else Some (as ! (?k - 1)))"
        using GetElementByRank_shape [OF sh k(2)] k by (simp add: nth_Cons')
      then show ?thesis
        using R True \<open>\<not> (a > b \<or> a \<ge> int ?n)\<close> collect_backward [OF sh k(2)] a cnt sl [of "rev xs"] k
        by (simp add: xs_def [symmetric] Let_def xs [symmetric] rev_take)
    qed
  qed
qed

section \<open>The contract of a sorted set\<close>

text \<open>
  What a client may rely on: the operations act on the ascending list of scored members. The first
  argument of the insertion is the height of the new node, about which the contract says nothing.
\<close>

locale sorted_set =
  fixes empty :: 'z
    and ins :: "'l \<Rightarrow> float64 \<Rightarrow> string \<Rightarrow> 'z \<Rightarrow> 'z"
    and del :: "string \<Rightarrow> 'z \<Rightarrow> 'z"
    and entries :: "'z \<Rightarrow> (float64 \<times> string) list"
    and wf :: "'z \<Rightarrow> bool"
    and lv :: "'l \<Rightarrow> bool"
  assumes wf_empty: "wf empty" and entries_empty: "entries empty = []"
    and ins: "wf z \<Longrightarrow> lv l \<Longrightarrow> \<not> float_nan s \<Longrightarrow> wf (ins l s m z) \<and> entries (ins l s m z) = z_insert s m (entries z)"
    and del: "wf z \<Longrightarrow> wf (del m z) \<and> entries (del m z) = z_remove m (entries z)"
    and z_ok_entries: "wf z \<Longrightarrow> z_ok (entries z)"
begin

lemma ins_overwrites:
  assumes "wf z" and "lv l" and "lv l'" and "\<not> float_nan s" and "\<not> float_nan s'"
  shows "entries (ins l' s' m (ins l s m z)) = entries (ins l' s' m z)"
proof (rule z_ok_unique)
  show "z_ok (entries (ins l' s' m (ins l s m z)))" "z_ok (entries (ins l' s' m z))"
    using assms ins z_ok_entries by blast+
  show "set (entries (ins l' s' m (ins l s m z))) = set (entries (ins l' s' m z))"
    using assms by (simp add: ins set_z_insert) (auto simp: z_remove_def set_z_insert)
qed

text \<open>The list after a run of insertions: each member once, with the last score given for it.\<close>

lemma run_ins:
  assumes "wf z" and "\<forall>(l, s, m) \<in> set ops. lv l \<and> \<not> float_nan s"
  shows "wf (fold (\<lambda>(l, s, m). ins l s m) ops z) \<and>
    set (entries (fold (\<lambda>(l, s, m). ins l s m) ops z)) =
      {(s, m). case map_of (rev (map (\<lambda>(l, s, m). (m, s)) ops)) m of
                 Some s' \<Rightarrow> s = s' | None \<Rightarrow> (s, m) \<in> set (entries z)}"
  using assms
proof (induction ops arbitrary: z)
  case (Cons op ops)
  obtain l s m where op: "op = (l, s, m)" by (cases op)
  have 1: "wf (ins l s m z)" "set (entries (ins l s m z)) = insert (s, m) (set (z_remove m (entries z)))"
    using Cons.prems ins [of z l s m] by (auto simp: op set_z_insert)
  show ?case
    using Cons.IH [OF 1(1)] Cons.prems(2) 1(2)
    by (auto simp: op map_of_append map_add_def z_remove_def split: option.splits)
qed simp

lemma run_determined:
  assumes "\<forall>(l, s, m) \<in> set ops. lv l \<and> \<not> float_nan s" and "\<forall>(l, s, m) \<in> set ops'. lv l \<and> \<not> float_nan s"
    and "map_of (rev (map (\<lambda>(l, s, m). (m, s)) ops)) = map_of (rev (map (\<lambda>(l, s, m). (m, s)) ops'))"
  shows "entries (fold (\<lambda>(l, s, m). ins l s m) ops empty) = entries (fold (\<lambda>(l, s, m). ins l s m) ops' empty)"
proof (rule z_ok_unique)
  note 1 = run_ins [OF wf_empty assms(1)] and 2 = run_ins [OF wf_empty assms(2)]
  show "z_ok (entries (fold (\<lambda>(l, s, m). ins l s m) ops empty))"
    "z_ok (entries (fold (\<lambda>(l, s, m). ins l s m) ops' empty))"
    using 1 2 z_ok_entries by blast+
  show "set (entries (fold (\<lambda>(l, s, m). ins l s m) ops empty)) = set (entries (fold (\<lambda>(l, s, m). ins l s m) ops' empty))"
    using 1 2 assms(3) by simp
qed

end

lemma randomLevel_from_bounds: "lvl < 32 \<Longrightarrow> lvl \<le> randomLevel_from lvl draws \<and> randomLevel_from lvl draws \<le> 32"
  by (induction lvl draws rule: randomLevel_from.induct) (auto simp: SkipListMaxLevel_def Suc_le_eq)

lemma randomLevel_bounds: "1 \<le> randomLevel draws \<and> randomLevel draws \<le> 32"
  using randomLevel_from_bounds [of 1 draws] by (simp add: randomLevel_def)

interpretation zs: sorted_set NewSkipList "\<lambda>draws. sl_Insert (randomLevel draws)" "\<lambda>m sl. snd (sl_Delete m sl)"
  sl_entries sl_wf "\<lambda>_. True"
proof unfold_locales
  show "sl_wf NewSkipList" "sl_entries NewSkipList = []" using sl_wf_New by blast+
  show "sl_wf (sl_Insert (randomLevel draws) s m sl) \<and>
      sl_entries (sl_Insert (randomLevel draws) s m sl) = z_insert s m (sl_entries sl)"
    if "sl_wf sl" "\<not> float_nan s" for sl draws s m
    using sl_Insert_correct [OF that] randomLevel_bounds by blast
  show "sl_wf (snd (sl_Delete m sl)) \<and> sl_entries (snd (sl_Delete m sl)) = z_remove m (sl_entries sl)"
    if "sl_wf sl" for sl m
    using deleteUnsafe_refines [OF that, of m] by (simp add: sl_Delete_def)
  show "z_ok (sl_entries sl)" if "sl_wf sl" for sl using that by (simp add: sl_wf_def)
qed

section \<open>Properties\<close>

text \<open>
  Property C1: inserting a member with a score that is a number, whatever level the generator draws and whether or not the member is
  present, keeps the skip list well formed (forward pointers, spans and backward pointers at every
  level, the tail, the length, the map of scores) and refines insertion into the sorted list.
\<close>

theorem SkipList_Insert_refines:
  assumes "sl_wf sl" and "\<not> float_nan score"
  shows "sl_wf (sl_Insert (randomLevel draws) score member sl)
    \<and> sl_entries (sl_Insert (randomLevel draws) score member sl) = z_insert score member (sl_entries sl)"
  using zs.ins [OF assms(1) TrueI assms(2)] .

theorem SkipList_Insert_refines_witness:
  "sl_wf (sl_Insert (randomLevel [5, 70]) 0 ''a'' NewSkipList)
   \<and> sl_entries (sl_Insert (randomLevel [5, 70]) 0 ''a'' NewSkipList) = [(0, ''a'')]"
proof -
  have "\<not> float_nan 0" by (simp add: float_nan_def float_mag_def)
  then show ?thesis
    using SkipList_Insert_refines [of NewSkipList 0 "[5, 70]" "''a''"] sl_wf_New
    by (simp add: z_insert_def z_remove_def)
qed

text \<open>
  Deleting a member keeps the skip list well formed and refines removal from the sorted
  list; the result tells whether the member was there.
\<close>

theorem SkipList_Delete_refines:
  assumes "sl_wf sl"
  shows "sl_wf (snd (sl_Delete member sl))
    \<and> sl_entries (snd (sl_Delete member sl)) = z_remove member (sl_entries sl)
    \<and> (fst (sl_Delete member sl) \<longleftrightarrow> member \<in> snd ` set (sl_entries sl))
    \<and> GetScore member (snd (sl_Delete member sl)) = None"
proof -
  note D = deleteUnsafe_refines [OF assms, of member]
  have "gget (sl_dict (snd (deleteUnsafe member sl))) member = None"
    using D dict_ok_get(1) [of "sl_dict (snd (deleteUnsafe member sl))" "z_remove member (sl_entries sl)" member]
    by (auto simp: sl_wf_def z_remove_def)
  then show ?thesis using D by (simp add: sl_Delete_def GetScore_def)
qed

theorem SkipList_Delete_refines_witness:
  "sl_entries (snd (sl_Delete ''a'' NewSkipList)) = [] \<and> \<not> fst (sl_Delete ''a'' NewSkipList)"
  using SkipList_Delete_refines [of NewSkipList "''a''"] sl_wf_New by (simp add: z_remove_def)

text \<open>
  Property C22: on a well-formed skip list the score of a member is the one the sorted list holds for it,
  the rank of a member other than the empty string is its position in that list, the rank of an absent
  member is -1, and a range between two ranks, in either direction and with negative bounds counting
  from the end, is that part of the list, whatever it holds.
\<close>

theorem SkipList_rank_range:
  assumes "sl_wf sl"
  shows "(GetScore member sl = Some score \<longleftrightarrow> (score, member) \<in> set (sl_entries sl))
    \<and> (GetScore member sl = None \<longrightarrow> GetRank member sl = - 1)
    \<and> (k < length (sl_entries sl) \<and> sl_entries sl ! k = (score, member) \<and> member \<noteq> [] \<longrightarrow>
         GetRank member sl = int k)
    \<and> sl_Range start stop reverse sl =
        (let ys = (if reverse then rev (sl_entries sl) else sl_entries sl); n = length ys
         in map swap_entry (nths ys {i. norm_index n start \<le> int i \<and> int i \<le> norm_index n stop}))"
proof (intro conjI impI)
  let ?xs = "sl_entries sl"
  have ok: "z_ok ?xs" and d: "dict_ok (sl_dict sl) ?xs" using assms by (simp_all add: sl_wf_def)
  show g: "GetScore member sl = Some score \<longleftrightarrow> (score, member) \<in> set ?xs"
    using dict_ok_get(2) [OF d] by (simp add: GetScore_def)
  show "GetRank member sl = - 1" if "GetScore member sl = None"
    using that by (simp add: GetRank_def GetScore_def)
  show "GetRank member sl = int k" if "k < length ?xs \<and> ?xs ! k = (score, member) \<and> member \<noteq> []"
  proof -
    have "GetScore member sl = Some score" using that g by (metis nth_mem)
    then show ?thesis
      using GetRank_correct [OF assms, of member] z_below_nth [OF ok, of k] that by simp
  qed
qed (rule sl_Range_correct [OF assms])

theorem SkipList_rank_range_witness:
  "GetRank ''b'' (sl_Insert (randomLevel [7]) 1 ''b'' (sl_Insert (randomLevel []) 0 ''a'' NewSkipList)) = 1
   \<and> sl_Range 0 (- 1) True (sl_Insert (randomLevel [7]) 1 ''b'' (sl_Insert (randomLevel []) 0 ''a'' NewSkipList)) =
       [(''b'', 1), (''a'', 0)]"
proof -
  let ?sl1 = "sl_Insert (randomLevel []) 0 ''a'' NewSkipList"
  let ?sl = "sl_Insert (randomLevel [7]) 1 ''b'' ?sl1"
  have nan: "\<not> float_nan 0" "\<not> float_nan 1" by (simp_all add: float_nan_def float_mag_def)
  have 1: "sl_wf ?sl1" "sl_entries ?sl1 = [(0, ''a'')]"
    using zs.ins [of NewSkipList 0 "[]" "''a''"] sl_wf_New nan by (simp_all add: z_insert_def z_remove_def)
  have 2: "z_insert 1 ''b'' [(0, ''a'')] = [(0, ''a''), (1, ''b'')]" by code_simp
  have wf: "sl_wf ?sl" and e: "sl_entries ?sl = [(0, ''a''), (1, ''b'')]"
    using zs.ins [of ?sl1 1 "[7]" "''b''"] 1 nan by (simp_all add: 2)
  note R = SkipList_rank_range [OF wf, of "''b''" 1 1 0 "- 1" True, unfolded e]
  have "nths [(1, ''b''), (0, ''a'')] {i. norm_index 2 0 \<le> int i \<and> int i \<le> norm_index 2 (- 1)} =
      [(1 :: float64, ''b''), (0, ''a'')]"
    by (simp add: nths_Cons norm_index_def)
  then show ?thesis using R by (simp add: swap_entry_def numeral_2_eq_2)
qed

text \<open>
  Property C23: what a sorted set answers after a run of insertions depends only on the last score given
  to each member, not on the order of the insertions nor on the levels drawn: its entries, its length,
  every range, every score and the rank of every member other than the empty string.
\<close>

theorem SkipList_history_independent:
  assumes "\<forall>(draws, s, m) \<in> set ops. \<not> float_nan s" and "\<forall>(draws, s, m) \<in> set ops'. \<not> float_nan s"
    and "map_of (rev (map (\<lambda>(draws, s, m). (m, s)) ops)) = map_of (rev (map (\<lambda>(draws, s, m). (m, s)) ops'))"
    and "sl = fold (\<lambda>(draws, s, m). sl_Insert (randomLevel draws) s m) ops NewSkipList"
    and "sl' = fold (\<lambda>(draws, s, m). sl_Insert (randomLevel draws) s m) ops' NewSkipList"
  shows "sl_entries sl = sl_entries sl' \<and> sl_Len sl = sl_Len sl'
    \<and> sl_Range start stop reverse sl = sl_Range start stop reverse sl'
    \<and> GetScore member sl = GetScore member sl'
    \<and> (member \<noteq> [] \<longrightarrow> GetRank member sl = GetRank member sl')"
proof -
  have e: "sl_entries sl = sl_entries sl'"
    unfolding assms(4,5) by (rule zs.run_determined) (use assms(1-3) in auto)
  have wf: "sl_wf sl" "sl_wf sl'"
    using zs.run_ins [OF zs.wf_empty, of ops] zs.run_ins [OF zs.wf_empty, of ops'] assms by auto
  have len: "sl_Len z = int (length (sl_entries z))" if "sl_wf z" for z
    using that sl_shapeD(12) [of z "sl_addrs z"] by (simp add: sl_wf_def sl_Len_def sl_entries_def)
  have s: "GetScore member z = Some t \<longleftrightarrow> (t, member) \<in> set (sl_entries z)" if "sl_wf z" for z t
    using that dict_ok_get(2) [of "sl_dict z" "sl_entries z"] by (simp add: sl_wf_def GetScore_def)
  have g: "GetScore member sl = GetScore member sl'"
    using s [OF wf(1)] s [OF wf(2)] e by (metis option.exhaust)
  then show ?thesis
    by (auto simp: e wf len sl_Range_correct GetRank_correct split: option.splits)
qed

theorem SkipList_history_independent_witness:
  "GetRank ''b'' (fold (\<lambda>(draws, s, m). sl_Insert (randomLevel draws) s m)
     [([], 0, ''a''), ([1], 1, ''b'')] NewSkipList) =
   GetRank ''b'' (fold (\<lambda>(draws, s, m). sl_Insert (randomLevel draws) s m)
     [([2, 3], 1, ''b''), ([4], 1, ''a''), ([], 0, ''a'')] NewSkipList)"
proof -
  let ?ops = "[([], 0, ''a''), ([1], 1, ''b'')]" and ?ops' = "[([2, 3], 1, ''b''), ([4], 1, ''a''), ([], 0, ''a'')]"
  show ?thesis
    using SkipList_history_independent [OF _ _ _ refl refl, of ?ops ?ops' 0 0 True "''b''"]
    by (auto simp: float_nan_def float_mag_def fun_eq_iff)
qed

text \<open>
  Two corner cases. A score that is not a number breaks the structure: inserting the same
  member twice leaves two nodes for one entry of the map. The empty string is a member like any
  other for the map, but its rank is reported as absent because the header has the empty name.
\<close>

theorem SkipList_corner_cases:
  "sl_Len (sl_Insert 1 0x7FF8000000000001 ''a'' (sl_Insert 1 0x7FF8000000000001 ''a'' NewSkipList)) = 2
   \<and> GetScore [] (sl_Insert 1 0 [] NewSkipList) = Some 0
   \<and> GetRank [] (sl_Insert 1 0 [] (sl_Insert 2 0 ''a'' NewSkipList)) = - 1"
  by code_simp

end
