(* ===== verification/Keyspace.thy ===== *)
theory Keyspace
  imports Skiplist Streams "HOL-Library.Multiset"
begin

unbundle bit_operations_syntax

text \<open>
  The keyspace of src/internal/engine/keyspace.go: 256 shards, each a Go map from keys to entries,
  and a counter of the keys.

  Every operation takes the clock reading it uses and returns its result and the keyspace after
  it. Entries are values: where the source updates an entry through its pointer, the model stores
  the updated entry under its key. Ranging over a shard visits it in the order of its association
  list, and the theorems hold for every such list. The pattern matcher \<open>filepath.Match\<close> and the
  formatting of floating-point numbers are arguments of the operations that use them.

  The lemmas show that the shards together are one map (the interpretation of \<open>go_map\<close>), that a
  run of operations under an advancing clock is a run on one map of live keys, what the key
  counter counts, and what the eviction removes.
\<close>

section \<open>State\<close>

definition NumShards :: nat where
  "NumShards = 256"

datatype EntryType = TypeString | TypeHash | TypeList | TypeSet | TypeZSet | TypeVector | TypeStream

fun type_name :: "EntryType \<Rightarrow> string" where
  "type_name TypeString = ''string''"
| "type_name TypeHash = ''hash''"
| "type_name TypeList = ''list''"
| "type_name TypeSet = ''set''"
| "type_name TypeZSet = ''zset''"
| "type_name TypeVector = ''vector''"
| "type_name TypeStream = ''stream''"

type_synonym float32 = "32 word"

text \<open>Of a vector index only the dimension and the vectors are kept, not the search graph.\<close>

record VectorIndex =
  vi_Dimension :: int
  vi_Vectors :: "(string, float32 list) gomap"

datatype any =
    ANil
  | AString string
  | AHash ghash
  | AList glist
  | ASet gset
  | AZSet SkipList
  | AVector VectorIndex
  | AStream Stream

record Entry =
  en_Type :: EntryType
  en_Value :: any
  en_ExpiresAt :: int
  en_UpdatedAt :: int
  en_LastAccessedAt :: int

definition IsExpired :: "Entry \<Rightarrow> int \<Rightarrow> bool" where
  "IsExpired e nowMilli \<longleftrightarrow> en_ExpiresAt e > 0 \<and> en_ExpiresAt e \<le> nowMilli"

record Keyspace =
  ks_shards :: "(string, Entry) gomap list"
  ks_keyCount :: int

definition NewKeyspace :: Keyspace where
  "NewKeyspace = \<lparr>ks_shards = replicate NumShards [], ks_keyCount = 0\<rparr>"

subsection \<open>The hash\<close>

definition fnv_offset64 :: "64 word" where
  "fnv_offset64 = 14695981039346656037"

definition fnv_prime64 :: "64 word" where
  "fnv_prime64 = 1099511628211"

definition fnv_step :: "64 word \<Rightarrow> char \<Rightarrow> 64 word" where
  "fnv_step hash c = (hash XOR of_nat (byte c)) * fnv_prime64"

text \<open>The unrolled loop, four bytes at a time, and the loop over the rest.\<close>

fun fnv1a_tail :: "64 word \<Rightarrow> string \<Rightarrow> 64 word" where
  "fnv1a_tail hash [] = hash"
| "fnv1a_tail hash (c # s) = fnv1a_tail (fnv_step hash c) s"

fun fnv1a_loop :: "64 word \<Rightarrow> string \<Rightarrow> 64 word" where
  "fnv1a_loop hash (a # b # c # d # s) =
     fnv1a_loop (fnv_step (fnv_step (fnv_step (fnv_step hash a) b) c) d) s"
| "fnv1a_loop hash s = fnv1a_tail hash s"

definition fnv1a :: "string \<Rightarrow> 64 word" where
  "fnv1a s = fnv1a_loop fnv_offset64 s"

definition shard_index :: "string \<Rightarrow> nat" where
  "shard_index key = unat (fnv1a key AND 255)"

subsection \<open>Access to a shard\<close>

definition sh_get :: "string \<Rightarrow> Keyspace \<Rightarrow> Entry option" where
  "sh_get key ks = gget (ks_shards ks ! shard_index key) key"

definition sh_put :: "string \<Rightarrow> Entry \<Rightarrow> Keyspace \<Rightarrow> Keyspace" where
  "sh_put key e ks =
     ks\<lparr>ks_shards := (ks_shards ks)[shard_index key := gput key e (ks_shards ks ! shard_index key)]\<rparr>"

definition sh_del :: "string \<Rightarrow> Keyspace \<Rightarrow> Keyspace" where
  "sh_del key ks =
     ks\<lparr>ks_shards := (ks_shards ks)[shard_index key := gdel key (ks_shards ks ! shard_index key)]\<rparr>"

definition add_count :: "int \<Rightarrow> Keyspace \<Rightarrow> Keyspace" where
  "add_count n ks = ks\<lparr>ks_keyCount := ks_keyCount ks + n\<rparr>"

section \<open>Operations\<close>

text \<open>The expiry check that opens most operations: an expired entry is deleted.\<close>

definition lookup_live :: "int \<Rightarrow> string \<Rightarrow> Keyspace \<Rightarrow> Entry option \<times> Keyspace" where
  "lookup_live now key ks =
     (case sh_get key ks of
        None \<Rightarrow> (None, ks)
      | Some e \<Rightarrow> if IsExpired e now then (None, add_count (- 1) (sh_del key ks)) else (Some e, ks))"

definition ks_Get :: "int \<Rightarrow> string \<Rightarrow> Keyspace \<Rightarrow> Entry option \<times> Keyspace" where
  "ks_Get now key ks =
     (case sh_get key ks of
        None \<Rightarrow> (None, ks)
      | Some entry \<Rightarrow>
          if en_ExpiresAt entry > 0 \<and> IsExpired entry now then
            (None,
             case sh_get key ks of
               Some e \<Rightarrow> if IsExpired e now then add_count (- 1) (sh_del key ks) else ks
             | None \<Rightarrow> ks)
          else (Some entry, ks))"

definition SetString :: "int \<Rightarrow> string \<Rightarrow> string \<Rightarrow> Keyspace \<Rightarrow> Keyspace" where
  "SetString now key val ks =
     (let new = add_count 1 (sh_put key
            \<lparr>en_Type = TypeString, en_Value = AString val, en_ExpiresAt = 0,
             en_UpdatedAt = now, en_LastAccessedAt = now\<rparr> ks)
      in case sh_get key ks of
           Some existing \<Rightarrow>
             if en_Type existing = TypeString then
               sh_put key
                 (existing\<lparr>en_Value := AString val, en_ExpiresAt := 0, en_UpdatedAt := now,
                           en_LastAccessedAt := now\<rparr>) ks
             else new
         | None \<Rightarrow> new)"

definition ks_Set :: "int \<Rightarrow> string \<Rightarrow> Entry \<Rightarrow> Keyspace \<Rightarrow> Keyspace" where
  "ks_Set now key entry ks =
     (let entry = entry\<lparr>en_UpdatedAt := now, en_LastAccessedAt := now\<rparr>;
          ks = (if sh_get key ks = None then add_count 1 ks else ks)
      in sh_put key entry ks)"

definition SetNX :: "int \<Rightarrow> string \<Rightarrow> Entry \<Rightarrow> Keyspace \<Rightarrow> bool \<times> Keyspace" where
  "SetNX now key entry ks =
     (case lookup_live now key ks of
        (Some _, ks) \<Rightarrow> (False, ks)
      | (None, ks) \<Rightarrow>
          (True, add_count 1 (sh_put key (entry\<lparr>en_UpdatedAt := now, en_LastAccessedAt := now\<rparr>) ks)))"

definition WRONGTYPE :: string where
  "WRONGTYPE = ''WRONGTYPE Operation against a key holding the wrong kind of value''"

definition ERR_INT :: string where
  "ERR_INT = ''ERR value is not an integer or out of range''"

definition string_entry :: "int \<Rightarrow> string \<Rightarrow> Entry" where
  "string_entry now val =
     \<lparr>en_Type = TypeString, en_Value = AString val, en_ExpiresAt = 0,
      en_UpdatedAt = now, en_LastAccessedAt = now\<rparr>"

definition ks_IncrBy :: "int \<Rightarrow> string \<Rightarrow> int \<Rightarrow> Keyspace \<Rightarrow> (string + int) \<times> Keyspace" where
  "ks_IncrBy now key delta ks =
     (case lookup_live now key ks of
        (None, ks) \<Rightarrow>
          (let newVal = wrap64 (0 + delta)
           in (Inr newVal, add_count 1 (sh_put key (string_entry now (FormatInt newVal)) ks)))
      | (Some entry, ks) \<Rightarrow>
          if en_Type entry \<noteq> TypeString then (Inl WRONGTYPE, ks)
          else
            (case en_Value entry of
               AString strVal \<Rightarrow>
                 (case ParseInt strVal of
                    None \<Rightarrow> (Inl ERR_INT, ks)
                  | Some current \<Rightarrow>
                      (let newVal = wrap64 (current + delta)
                       in (Inr newVal,
                           sh_put key
                             (entry\<lparr>en_Value := AString (FormatInt newVal), en_UpdatedAt := now,
                                    en_LastAccessedAt := now\<rparr>) ks)))
             | _ \<Rightarrow> (Inl ERR_INT, ks)))"

definition ks_Append :: "int \<Rightarrow> string \<Rightarrow> string \<Rightarrow> Keyspace \<Rightarrow> (string + int) \<times> Keyspace" where
  "ks_Append now key val ks =
     (case lookup_live now key ks of
        (None, ks) \<Rightarrow> (Inr (int (length val)), add_count 1 (sh_put key (string_entry now val) ks))
      | (Some entry, ks) \<Rightarrow>
          if en_Type entry \<noteq> TypeString then (Inl WRONGTYPE, ks)
          else
            (case en_Value entry of
               AString strVal \<Rightarrow>
                 (let newVal = strVal @ val
                  in (Inr (int (length newVal)),
                      sh_put key
                        (entry\<lparr>en_Value := AString newVal, en_UpdatedAt := now,
                               en_LastAccessedAt := now\<rparr>) ks))
             | _ \<Rightarrow> (Inl WRONGTYPE, ks)))"

definition GetOrCreate ::
  "int \<Rightarrow> string \<Rightarrow> EntryType \<Rightarrow> any \<Rightarrow> Keyspace \<Rightarrow> (Entry \<times> bool) \<times> Keyspace" where
  "GetOrCreate now key entryType created ks =
     (case lookup_live now key ks of
        (None, ks) \<Rightarrow>
          (let entry = \<lparr>en_Type = entryType, en_Value = created, en_ExpiresAt = 0,
                        en_UpdatedAt = now, en_LastAccessedAt = now\<rparr>
           in ((entry, True), add_count 1 (sh_put key entry ks)))
      | (Some entry, ks) \<Rightarrow>
          (let entry = entry\<lparr>en_LastAccessedAt := now\<rparr> in ((entry, False), sh_put key entry ks)))"

subsection \<open>Deletion and expiry\<close>

fun ks_Delete :: "string list \<Rightarrow> Keyspace \<Rightarrow> int \<times> Keyspace" where
  "ks_Delete [] ks = (0, ks)"
| "ks_Delete (key # keys) ks =
     (if sh_get key ks \<noteq> None then
        (case ks_Delete keys (add_count (- 1) (sh_del key ks)) of (cnt, ks') \<Rightarrow> (cnt + 1, ks'))
      else ks_Delete keys ks)"

fun ks_Exists :: "int \<Rightarrow> string list \<Rightarrow> Keyspace \<Rightarrow> int \<times> Keyspace" where
  "ks_Exists now [] ks = (0, ks)"
| "ks_Exists now (key # keys) ks =
     (let (e, ks1) = ks_Get now key ks; (cnt, ks2) = ks_Exists now keys ks1
      in (if e \<noteq> None then cnt + 1 else cnt, ks2))"

definition ks_Expire :: "int \<Rightarrow> string \<Rightarrow> int \<Rightarrow> Keyspace \<Rightarrow> bool \<times> Keyspace" where
  "ks_Expire now key ttlMillis ks =
     (case lookup_live now key ks of
        (None, ks) \<Rightarrow> (False, ks)
      | (Some entry, ks) \<Rightarrow>
          (True, sh_put key (entry\<lparr>en_ExpiresAt := wrap64 (now + ttlMillis)\<rparr>) ks))"

text \<open>The clock is read again after the lookup: \<open>now'\<close>.\<close>

definition ks_PTTL :: "int \<Rightarrow> int \<Rightarrow> string \<Rightarrow> Keyspace \<Rightarrow> int \<times> Keyspace" where
  "ks_PTTL now now' key ks =
     (case ks_Get now key ks of
        (None, ks) \<Rightarrow> (- 2, ks)
      | (Some entry, ks) \<Rightarrow>
          if en_ExpiresAt entry = 0 then (- 1, ks)
          else
            let remaining = wrap64 (en_ExpiresAt entry - now')
            in if remaining \<le> 0 then (- 2, ks) else (remaining, ks))"

definition ks_TTL :: "int \<Rightarrow> int \<Rightarrow> string \<Rightarrow> Keyspace \<Rightarrow> int \<times> Keyspace" where
  "ks_TTL now now' key ks =
     (case ks_Get now key ks of
        (None, ks) \<Rightarrow> (- 2, ks)
      | (Some entry, ks) \<Rightarrow>
          if en_ExpiresAt entry = 0 then (- 1, ks)
          else
            let remaining = wrap64 (en_ExpiresAt entry - now')
            in if remaining \<le> 0 then (- 2, ks) else (remaining div 1000, ks))"

definition ks_Persist :: "int \<Rightarrow> string \<Rightarrow> Keyspace \<Rightarrow> bool \<times> Keyspace" where
  "ks_Persist now key ks =
     (case lookup_live now key ks of
        (None, ks) \<Rightarrow> (False, ks)
      | (Some entry, ks) \<Rightarrow>
          if en_ExpiresAt entry = 0 then (False, ks)
          else (True, sh_put key (entry\<lparr>en_ExpiresAt := 0\<rparr>) ks))"

definition TotalKeys :: "Keyspace \<Rightarrow> int" where
  "TotalKeys ks = ks_keyCount ks"

definition FlushDB :: "Keyspace \<Rightarrow> Keyspace" where
  "FlushDB ks = ks\<lparr>ks_shards := replicate NumShards [], ks_keyCount := 0\<rparr>"

subsection \<open>The expiry reaper\<close>

text \<open>One visit of a shard: the first 20 entries of the iteration are checked.\<close>

fun reap_keys :: "int \<Rightarrow> (string \<times> Entry) list \<Rightarrow> nat \<Rightarrow> Keyspace \<Rightarrow> Keyspace" where
  "reap_keys now [] i ks = ks"
| "reap_keys now ((k, entry) # es) i ks =
     reap_keys now es i
       (if IsExpired entry now then
          add_count (- 1) (ks\<lparr>ks_shards := (ks_shards ks)[i := gdel k (ks_shards ks ! i)]\<rparr>)
        else ks)"

definition reap_shard :: "int \<Rightarrow> nat \<Rightarrow> Keyspace \<Rightarrow> Keyspace" where
  "reap_shard now i ks = reap_keys now (take 20 (ks_shards ks ! i)) i ks"

text \<open>One tick: 16 shards, drawn by the random generator.\<close>

definition reaper_tick :: "int \<Rightarrow> nat list \<Rightarrow> Keyspace \<Rightarrow> Keyspace" where
  "reaper_tick now draws ks = fold (\<lambda>r. reap_shard now (r mod NumShards)) (take 16 draws) ks"

subsection \<open>Eviction\<close>

record Candidate =
  ca_Key :: string
  ca_LastAccessed :: int
  ca_ShardIdx :: nat

definition sample_shard :: "Keyspace \<Rightarrow> nat \<Rightarrow> Candidate list" where
  "sample_shard ks i =
     map (\<lambda>(k, e). \<lparr>ca_Key = k, ca_LastAccessed = en_LastAccessedAt e, ca_ShardIdx = i\<rparr>)
       (take 10 (ks_shards ks ! i))"

fun sample :: "Keyspace \<Rightarrow> int \<Rightarrow> nat list \<Rightarrow> Candidate list \<Rightarrow> Candidate list" where
  "sample ks targetCount [] candidates = candidates"
| "sample ks targetCount (i # is) candidates =
     (if int (length candidates) < targetCount * 3 then
        sample ks targetCount is (candidates @ sample_shard ks i)
      else candidates)"

text \<open>The two nested loops that sort by the time of the last access.\<close>

definition exchange :: "nat \<Rightarrow> nat \<Rightarrow> Candidate list \<Rightarrow> Candidate list" where
  "exchange i j cs =
     (if ca_LastAccessed (cs ! j) < ca_LastAccessed (cs ! i) then cs[i := cs ! j, j := cs ! i] else cs)"

definition sort_candidates :: "Candidate list \<Rightarrow> Candidate list" where
  "sort_candidates cs =
     fold (\<lambda>i. fold (exchange i) [i + 1..<length cs]) [0..<length cs] cs"

fun evict_loop :: "int \<Rightarrow> int \<Rightarrow> Candidate list \<Rightarrow> Keyspace \<Rightarrow> int \<times> Keyspace" where
  "evict_loop targetCount evicted [] ks = (evicted, ks)"
| "evict_loop targetCount evicted (c # cs) ks =
     (let i = ca_ShardIdx c; sh = ks_shards ks ! i;
          (evicted, ks) =
            (if gget sh (ca_Key c) \<noteq> None then
               (evicted + 1, add_count (- 1) (ks\<lparr>ks_shards := (ks_shards ks)[i := gdel (ca_Key c) sh]\<rparr>))
             else (evicted, ks))
      in if evicted \<ge> targetCount then (evicted, ks) else evict_loop targetCount evicted cs ks)"

definition EvictLRU :: "int \<Rightarrow> Keyspace \<Rightarrow> int \<times> Keyspace" where
  "EvictLRU targetCount ks =
     (let targetCount = (if targetCount \<le> 0 then 10 else targetCount);
          candidates = sample ks targetCount [0..<NumShards] []
      in if candidates = [] then (0, ks)
         else evict_loop targetCount 0 (sort_candidates candidates) ks)"

subsection \<open>Listings\<close>

definition key_matches :: "(string \<Rightarrow> string \<Rightarrow> bool) \<Rightarrow> string \<Rightarrow> string \<Rightarrow> bool" where
  "key_matches Match pattern k \<longleftrightarrow>
     pattern = ''*'' \<or> pattern = [] \<or> Match pattern k \<or>
     CHR ''*'' \<in> set pattern \<and> HasPrefix k (TrimSuffix pattern ''*'')"

definition ks_Keys :: "(string \<Rightarrow> string \<Rightarrow> bool) \<Rightarrow> int \<Rightarrow> string \<Rightarrow> Keyspace \<Rightarrow> string list" where
  "ks_Keys Match now pattern ks =
     concat (map (\<lambda>sh. map fst (filter (\<lambda>(k, e). \<not> IsExpired e now \<and> key_matches Match pattern k) sh))
       (ks_shards ks))"

record KeyMeta =
  km_Key :: string
  km_Type :: EntryType
  km_TTL :: int
  km_Size :: int
  km_UpdatedAt :: int

definition entry_size :: "Entry \<Rightarrow> int" where
  "entry_size entry =
     (case (en_Type entry, en_Value entry) of
        (TypeString, AString str) \<Rightarrow> int (length str)
      | (TypeHash, AHash h) \<Rightarrow> Hash_Len h
      | (TypeList, AList l) \<Rightarrow> List_Len l
      | (TypeSet, ASet s) \<Rightarrow> Card s
      | (TypeZSet, AZSet z) \<Rightarrow> sl_Length z
      | (TypeVector, AVector v) \<Rightarrow> int (length (vi_Vectors v))
      | (TypeStream, AStream st) \<Rightarrow> Stream_Len st
      | _ \<Rightarrow> 1)"

text \<open>The entry's line of the listing, unless the loop skips it. An entry with a time limit is not
  expired here, so the quotient is of a positive number.\<close>

definition key_meta :: "(string \<Rightarrow> string \<Rightarrow> bool) \<Rightarrow> int \<Rightarrow> string \<Rightarrow> string \<times> Entry \<Rightarrow> KeyMeta option" where
  "key_meta Match now pattern ke =
     (let (k, entry) = ke; matchAll = (pattern = ''*'' \<or> pattern = []);
          ttl = (if en_ExpiresAt entry > 0 then wrap64 (en_ExpiresAt entry - now) div 1000 else - 1)
      in if IsExpired entry now then None
         else if \<not> matchAll \<and> \<not> Match pattern k then None
         else if en_ExpiresAt entry > 0 \<and> ttl < 0 then None
         else Some \<lparr>km_Key = k, km_Type = en_Type entry, km_TTL = ttl, km_Size = entry_size entry,
                    km_UpdatedAt = en_UpdatedAt entry\<rparr>)"

definition ListKeyMetas ::
  "(string \<Rightarrow> string \<Rightarrow> bool) \<Rightarrow> int \<Rightarrow> string \<Rightarrow> int \<Rightarrow> Keyspace \<Rightarrow> KeyMeta list" where
  "ListKeyMetas Match now pattern lim ks =
     (let metas = List.map_filter (key_meta Match now pattern) (concat (ks_shards ks))
      in if lim > 0 then take (nat lim) metas else metas)"

record StreamMeta =
  sm_Key :: string
  sm_Length :: int
  sm_FirstEntryID :: string
  sm_LastEntryID :: string
  sm_ConsumerGroups :: int
  sm_UpdatedAt :: int

definition stream_meta :: "int \<Rightarrow> string \<times> Entry \<Rightarrow> StreamMeta option" where
  "stream_meta now ke =
     (let (k, entry) = ke in
      if IsExpired entry now \<or> en_Type entry \<noteq> TypeStream then None
      else
        (case en_Value entry of
           AStream st \<Rightarrow>
             Some \<lparr>sm_Key = k, sm_Length = Stream_Len st, sm_FirstEntryID = Stream_FirstID st,
                   sm_LastEntryID = Stream_LastID st,
                   sm_ConsumerGroups = int (length (GetGroupsInfo st)), sm_UpdatedAt = en_UpdatedAt entry\<rparr>
         | _ \<Rightarrow> None))"

definition ListStreams :: "int \<Rightarrow> Keyspace \<Rightarrow> StreamMeta list" where
  "ListStreams now ks = List.map_filter (stream_meta now) (concat (ks_shards ks))"

subsection \<open>The dump for a full synchronisation\<close>

definition flat_pairs :: "(string \<times> string) list \<Rightarrow> string list" where
  "flat_pairs ps = concat (map (\<lambda>(f, v). [f, v]) ps)"

text \<open>
  The commands that rebuild one entry. \<open>fmt64\<close> is \<open>strconv.FormatFloat(_, 'f', -1, 64)\<close> and
  \<open>fmt32\<close> is \<open>fmt.Sprintf("%f", _)\<close>.
\<close>

definition dump_entry ::
  "(float64 \<Rightarrow> string) \<Rightarrow> (float32 \<Rightarrow> string) \<Rightarrow> string \<times> Entry \<Rightarrow> string list list" where
  "dump_entry fmt64 fmt32 ke =
     (let (k, entry) = ke in
      (case (en_Type entry, en_Value entry) of
         (TypeString, AString s) \<Rightarrow> [[''SET'', k, s]]
       | (TypeHash, AHash h) \<Rightarrow>
           (let all = Hash_GetAll h in if all \<noteq> [] then [[''HSET'', k] @ flat_pairs all] else [])
       | (TypeList, AList l) \<Rightarrow>
           (let items = List_Range 0 (- 1) l in if items \<noteq> [] then [[''RPUSH'', k] @ items] else [])
       | (TypeSet, ASet s) \<Rightarrow>
           (let members = Members s in if members \<noteq> [] then [[''SADD'', k] @ members] else [])
       | (TypeZSet, AZSet z) \<Rightarrow>
           (let items = sl_Range 0 (- 1) False z
            in if items \<noteq> [] then [[''ZADD'', k] @ flat_pairs (map (\<lambda>(m, s). (fmt64 s, m)) items)] else [])
       | (TypeVector, AVector v) \<Rightarrow> map (\<lambda>(id', vec). [''VADD'', k, id'] @ map fmt32 vec) (vi_Vectors v)
       | (TypeStream, AStream s) \<Rightarrow>
           map (\<lambda>item. [''XADD'', k, se_ID item] @ flat_pairs (se_Fields item)) (Stream_Range ''-'' ''+'' 0 s)
       | _ \<Rightarrow> [])
      @ (if en_ExpiresAt entry > 0 then [[''PEXPIREAT'', k, FormatInt (en_ExpiresAt entry)]] else []))"

definition DumpAllCommands ::
  "(float64 \<Rightarrow> string) \<Rightarrow> (float32 \<Rightarrow> string) \<Rightarrow> int \<Rightarrow> Keyspace \<Rightarrow> string list list" where
  "DumpAllCommands fmt64 fmt32 now ks =
     concat (map (dump_entry fmt64 fmt32) (filter (\<lambda>(k, e). \<not> IsExpired e now) (concat (ks_shards ks))))"

section \<open>The shards are one map\<close>

lemma fnv1a_tail_foldl: "fnv1a_tail h s = foldl fnv_step h s"
  by (induction s arbitrary: h) auto

lemma fnv1a_loop_foldl: "fnv1a_loop h s = foldl fnv_step h s"
  by (induction h s rule: fnv1a_loop.induct) (auto simp: fnv1a_tail_foldl)

lemma shard_index_less [simp]: "shard_index key < NumShards"
proof -
  have "fnv1a key AND 255 \<le> 255" by (rule word_and_le1)
  then have "unat (fnv1a key AND 255) \<le> unat (255 :: 64 word)" by (simp add: word_le_nat_alt)
  then show ?thesis by (simp add: shard_index_def NumShards_def)
qed

definition shard_ok :: "nat \<Rightarrow> (string, Entry) gomap \<Rightarrow> bool" where
  "shard_ok i sh \<longleftrightarrow> gomap_ok sh \<and> (\<forall>k \<in> set (gkeys sh). shard_index k = i)"

definition ks_ok :: "Keyspace \<Rightarrow> bool" where
  "ks_ok ks \<longleftrightarrow> length (ks_shards ks) = NumShards \<and> (\<forall>i < NumShards. shard_ok i (ks_shards ks ! i))"

definition ks_total :: "Keyspace \<Rightarrow> nat" where
  "ks_total ks = length (concat (ks_shards ks))"

abbreviation ks_map :: "Keyspace \<Rightarrow> string \<Rightarrow> Entry option" where
  "ks_map ks \<equiv> \<lambda>k. sh_get k ks"

definition set_shard :: "nat \<Rightarrow> (string, Entry) gomap \<Rightarrow> Keyspace \<Rightarrow> Keyspace" where
  "set_shard i sh ks = ks\<lparr>ks_shards := (ks_shards ks)[i := sh]\<rparr>"

lemma ks_okD:
  assumes "ks_ok ks"
  shows "length (ks_shards ks) = NumShards" and "i < NumShards \<Longrightarrow> shard_ok i (ks_shards ks ! i)"
    and "i < NumShards \<Longrightarrow> gomap_ok (ks_shards ks ! i)"
  using assms by (auto simp: ks_ok_def shard_ok_def)

lemma ks_ok_set_shard: "ks_ok ks \<Longrightarrow> shard_ok i sh \<Longrightarrow> ks_ok (set_shard i sh ks)"
proof -
  assume "ks_ok ks" "shard_ok i sh"
  then have "shard_ok j ((ks_shards ks)[i := sh] ! j)" if "j < NumShards" for j
    using that by (cases "j = i") (auto simp: ks_ok_def)
  then show ?thesis using \<open>ks_ok ks\<close> by (simp add: ks_ok_def set_shard_def)
qed

lemma gkeys_gdel: "set (gkeys (gdel k m)) = set (gkeys m) - {k}"
  by (auto simp: gkeys_def gdel_def)

lemma gkeys_gput: "set (gkeys (gput k v m)) = insert k (set (gkeys m))"
  using dom_gget [of "gput k v m"] dom_gget [of m] by (simp add: gomap_simps)

lemma shard_ok_gput: "shard_ok i sh \<Longrightarrow> shard_index k = i \<Longrightarrow> shard_ok i (gput k e sh)"
  by (auto simp: shard_ok_def gomap_simps gkeys_gput)

lemma shard_ok_gdel: "shard_ok i sh \<Longrightarrow> shard_ok i (gdel k sh)"
  by (auto simp: shard_ok_def gomap_simps gkeys_gdel)

lemma sh_put_set_shard:
  "sh_put key e ks = set_shard (shard_index key) (gput key e (ks_shards ks ! shard_index key)) ks"
  "sh_del key ks = set_shard (shard_index key) (gdel key (ks_shards ks ! shard_index key)) ks"
  by (simp_all add: sh_put_def sh_del_def set_shard_def)

lemma ks_map_set_shard:
  "ks_ok ks \<Longrightarrow> i < NumShards \<Longrightarrow>
   ks_map (set_shard i sh ks) = (\<lambda>k. if shard_index k = i then gget sh k else sh_get k ks)"
  by (auto simp: sh_get_def set_shard_def ks_ok_def)

text \<open>Every key of a shard belongs there, so the entries of all shards are those of the map.\<close>

lemma in_shards:
  assumes "ks_ok ks"
  shows "(k, e) \<in> set (concat (ks_shards ks)) \<longleftrightarrow> sh_get k ks = Some e"
proof
  assume "(k, e) \<in> set (concat (ks_shards ks))"
  then obtain i where i: "i < NumShards" "(k, e) \<in> set (ks_shards ks ! i)"
    using ks_okD(1) [OF assms] by (auto simp: in_set_conv_nth [of _ "ks_shards ks"])
  then have "shard_index k = i" using ks_okD(2) [OF assms i(1)] by (force simp: shard_ok_def gkeys_def)
  then show "sh_get k ks = Some e" using i ks_okD(3) [OF assms i(1)] by (simp add: sh_get_def gget_Some_iff)
next
  assume "sh_get k ks = Some e"
  then have "(k, e) \<in> set (ks_shards ks ! shard_index k)"
    using ks_okD(3) [OF assms, of "shard_index k"] by (simp add: sh_get_def gget_Some_iff)
  then show "(k, e) \<in> set (concat (ks_shards ks))"
    using nth_mem [of "shard_index k" "ks_shards ks"] ks_okD(1) [OF assms] by auto
qed

lemma gomap_ok_shards:
  assumes "ks_ok ks"
  shows "gomap_ok (concat (ks_shards ks))"
proof -
  have "distinct (map fst (concat (take n (ks_shards ks)))) \<and>
      (\<forall>k \<in> set (map fst (concat (take n (ks_shards ks)))). shard_index k < n)" if "n \<le> NumShards" for n
    using that
  proof (induction n)
    case (Suc n)
    have n: "n < length (ks_shards ks)" using Suc.prems ks_okD(1) [OF assms] by simp
    have "shard_ok n (ks_shards ks ! n)" using ks_okD(2) [OF assms] Suc.prems by simp
    then have sh: "distinct (map fst (ks_shards ks ! n))" "\<forall>k \<in> set (map fst (ks_shards ks ! n)). shard_index k = n"
      by (simp_all add: shard_ok_def gomap_ok_def gkeys_def)
    have IH: "distinct (map fst (concat (take n (ks_shards ks))))"
      "\<forall>k \<in> set (map fst (concat (take n (ks_shards ks)))). shard_index k < n" using Suc by simp_all
    have "set (map fst (concat (take n (ks_shards ks)))) \<inter> set (map fst (ks_shards ks ! n)) = {}"
      using IH(2) sh(2) by (metis disjoint_iff less_irrefl)
    then show ?case
      using IH sh by (auto simp: take_Suc_conv_app_nth [OF n] less_Suc_eq simp del: set_concat set_map)
  qed simp
  from this [of NumShards] show ?thesis using ks_okD(1) [OF assms] by (simp add: gomap_ok_def gkeys_def)
qed

interpretation kmap: go_map NewKeyspace ks_map sh_put sh_del ks_total ks_ok
proof unfold_locales
  show "ks_map NewKeyspace = (\<lambda>_. None)" by (simp add: sh_get_def NewKeyspace_def)
  show "ks_ok NewKeyspace" by (simp add: ks_ok_def NewKeyspace_def shard_ok_def gomap_ok_def gkeys_def)
  fix ks k e assume ok: "ks_ok ks"
  show "ks_map (sh_put k e ks) = (ks_map ks)(k \<mapsto> e)" "ks_map (sh_del k ks) = (ks_map ks)(k := None)"
    unfolding sh_put_set_shard
    using ks_map_set_shard [OF ok shard_index_less, of k] by (auto simp: gomap_simps sh_get_def)
  show "ks_ok (sh_put k e ks)" "ks_ok (sh_del k ks)"
    using ks_okD(2) [OF ok]
    by (auto simp: sh_put_set_shard intro!: ks_ok_set_shard [OF ok] shard_ok_gput shard_ok_gdel)
  have "ks_map ks = gget (concat (ks_shards ks))"
  proof
    fix k
    show "sh_get k ks = gget (concat (ks_shards ks)) k"
      using in_shards [OF ok, of k] gget_Some_iff [OF gomap_ok_shards [OF ok], of k]
      by (cases "sh_get k ks"; cases "gget (concat (ks_shards ks)) k") auto
  qed
  then show "finite (dom (ks_map ks))" "ks_total ks = card (dom (ks_map ks))"
    using gm.finite_lookup gm.count_dom gomap_ok_shards [OF ok] by (simp_all add: ks_total_def)
qed

section \<open>The live map\<close>

text \<open>What a client sees at time \<open>now\<close>: the entries whose time limit has not passed.\<close>

definition age :: "int \<Rightarrow> (string \<Rightarrow> Entry option) \<Rightarrow> string \<Rightarrow> Entry option" where
  "age now m = (\<lambda>k. case m k of None \<Rightarrow> None | Some e \<Rightarrow> if IsExpired e now then None else Some e)"

abbreviation live :: "int \<Rightarrow> Keyspace \<Rightarrow> string \<Rightarrow> Entry option" where
  "live now ks \<equiv> age now (ks_map ks)"

lemma age_upd: "age now (m(k \<mapsto> e)) = (age now m)(k := if IsExpired e now then None else Some e)"
  by (auto simp: age_def)

lemma age_None: "age now (m(k := None)) = (age now m)(k := None)"
  by (auto simp: age_def)

lemma IsExpired_mono: "IsExpired e now \<Longrightarrow> now \<le> now' \<Longrightarrow> IsExpired e now'"
  by (simp add: IsExpired_def)

lemma age_age: "now \<le> now' \<Longrightarrow> age now' (age now m) = age now' m"
  by (auto simp: age_def IsExpired_mono split: option.splits)

lemma age_idem [simp]: "age now (age now m) = age now m"
  by (simp add: age_age)

lemma sh_get_add_count [simp]: "sh_get k (add_count n ks) = sh_get k ks"
  by (simp add: sh_get_def add_count_def)

lemma ks_ok_add_count [simp]: "ks_ok (add_count n ks) = ks_ok ks"
  by (simp add: ks_ok_def add_count_def)

lemma ks_total_add_count [simp]: "ks_total (add_count n ks) = ks_total ks"
  by (simp add: ks_total_def add_count_def)

lemma keyCount_simps [simp]:
  "ks_keyCount (add_count n ks) = ks_keyCount ks + n" "ks_keyCount (sh_put k e ks) = ks_keyCount ks"
  "ks_keyCount (sh_del k ks) = ks_keyCount ks"
  by (simp_all add: add_count_def sh_put_def sh_del_def)

lemmas ks_upd = kmap.lookup_insert kmap.lookup_delete kmap.wf_insert kmap.wf_delete age_upd age_None

lemma sh_get_put: "ks_ok ks \<Longrightarrow> sh_get k' (sh_put k e ks) = (if k' = k then Some e else sh_get k' ks)"
  using kmap.lookup_insert [of ks k e] by (auto simp: fun_eq_iff)

lemma sh_get_del: "ks_ok ks \<Longrightarrow> sh_get k' (sh_del k ks) = (if k' = k then None else sh_get k' ks)"
  using kmap.lookup_delete [of ks k] by (auto simp: fun_eq_iff)

text \<open>By how much the counter is off.\<close>

definition ks_drift :: "Keyspace \<Rightarrow> int" where
  "ks_drift ks = ks_keyCount ks - int (ks_total ks)"

lemma drift_new: "ks_ok ks \<Longrightarrow> sh_get k ks = None \<Longrightarrow> ks_drift (add_count 1 (sh_put k e ks)) = ks_drift ks"
  by (simp add: ks_drift_def kmap.count_insert)

lemma drift_over: "ks_ok ks \<Longrightarrow> sh_get k ks \<noteq> None \<Longrightarrow> ks_drift (sh_put k e ks) = ks_drift ks"
  by (auto simp: ks_drift_def kmap.count_insert)

lemma drift_del: "ks_ok ks \<Longrightarrow> sh_get k ks \<noteq> None \<Longrightarrow> ks_drift (add_count (- 1) (sh_del k ks)) = ks_drift ks"
  using kmap.count_delete_Suc [of ks k] by (auto simp: ks_drift_def)

lemma lookup_live_spec:
  assumes "ks_ok ks" and "lookup_live now key ks = (r, ks')"
  shows "r = live now ks key" and "ks_ok ks'" and "live now ks' = live now ks" and "sh_get key ks' = r"
    and "ks_drift ks' = ks_drift ks"
proof -
  have "r = live now ks key \<and> ks_ok ks' \<and> live now ks' = live now ks \<and> sh_get key ks' = r \<and> ks_drift ks' = ks_drift ks"
    using assms
    by (auto simp: lookup_live_def ks_upd drift_del sh_get_del age_def fun_eq_iff split: option.splits if_splits)
  then show "r = live now ks key" "ks_ok ks'" "live now ks' = live now ks" "sh_get key ks' = r"
    "ks_drift ks' = ks_drift ks" by blast+
qed

lemma ks_Get_lookup_live: "ks_Get now key ks = lookup_live now key ks"
  by (auto simp: ks_Get_def lookup_live_def IsExpired_def split: option.splits)

text \<open>An update of a key after the check.\<close>

lemma live_put: "ks_ok ks \<Longrightarrow> live now (sh_put k e ks) = (live now ks)(k := if IsExpired e now then None else Some e)"
  by (simp add: ks_upd)

lemma live_add_count [simp]: "live now (add_count n ks) = live now ks"
  by simp

section \<open>Refinement\<close>

datatype ks_op =
    OpGet string
  | OpSetString string string
  | OpSet string Entry
  | OpSetNX string Entry
  | OpIncrBy string int
  | OpAppend string string
  | OpGetOrCreate string EntryType any
  | OpDelete "string list"
  | OpExists "string list"
  | OpExpire string int
  | OpPersist string
  | OpTTL string int
  | OpPTTL string int
  | OpFlush
  | OpReap "nat list"

datatype ks_res =
    RUnit
  | REntry "Entry option"
  | RBool bool
  | RNum "string + int"
  | RInt int
  | RCreated "Entry \<times> bool"

definition map_res :: "('a \<Rightarrow> ks_res) \<Rightarrow> 'a \<times> Keyspace \<Rightarrow> ks_res \<times> Keyspace" where
  "map_res f p = (f (fst p), snd p)"

fun run_op :: "int \<Rightarrow> ks_op \<Rightarrow> Keyspace \<Rightarrow> ks_res \<times> Keyspace" where
  "run_op now (OpGet k) ks = map_res REntry (ks_Get now k ks)"
| "run_op now (OpSetString k v) ks = (RUnit, SetString now k v ks)"
| "run_op now (OpSet k e) ks = (RUnit, ks_Set now k e ks)"
| "run_op now (OpSetNX k e) ks = map_res RBool (SetNX now k e ks)"
| "run_op now (OpIncrBy k d) ks = map_res RNum (ks_IncrBy now k d ks)"
| "run_op now (OpAppend k v) ks = map_res RNum (ks_Append now k v ks)"
| "run_op now (OpGetOrCreate k t v) ks = map_res RCreated (GetOrCreate now k t v ks)"
| "run_op now (OpDelete keys) ks = map_res RInt (ks_Delete keys ks)"
| "run_op now (OpExists keys) ks = map_res RInt (ks_Exists now keys ks)"
| "run_op now (OpExpire k ttl) ks = map_res RBool (ks_Expire now k ttl ks)"
| "run_op now (OpPersist k) ks = map_res RBool (ks_Persist now k ks)"
| "run_op now (OpTTL k now') ks = map_res RInt (ks_TTL now now' k ks)"
| "run_op now (OpPTTL k now') ks = map_res RInt (ks_PTTL now now' k ks)"
| "run_op now OpFlush ks = (RUnit, FlushDB ks)"
| "run_op now (OpReap draws) ks = (RUnit, reaper_tick now draws ks)"

text \<open>The specification: the same operations on one map of live entries.\<close>

definition touch :: "int \<Rightarrow> Entry \<Rightarrow> Entry" where
  "touch now e = e\<lparr>en_UpdatedAt := now, en_LastAccessedAt := now\<rparr>"

definition str_of :: "string \<Rightarrow> Entry \<Rightarrow> string + string" where
  "str_of err e =
     (if en_Type e \<noteq> TypeString then Inl WRONGTYPE
      else case en_Value e of AString s \<Rightarrow> Inr s | _ \<Rightarrow> Inl err)"

definition ttl_of :: "int \<Rightarrow> Entry option \<Rightarrow> int" where
  "ttl_of now' r =
     (case r of
        None \<Rightarrow> - 2
      | Some e \<Rightarrow>
          if en_ExpiresAt e = 0 then - 1
          else if wrap64 (en_ExpiresAt e - now') \<le> 0 then - 2 else wrap64 (en_ExpiresAt e - now'))"

fun spec_op :: "int \<Rightarrow> ks_op \<Rightarrow> (string \<Rightarrow> Entry option) \<Rightarrow> ks_res \<times> (string \<Rightarrow> Entry option)" where
  "spec_op now (OpGet k) m = (REntry (m k), m)"
| "spec_op now (OpSetString k v) m = (RUnit, m(k \<mapsto> string_entry now v))"
| "spec_op now (OpSet k e) m = (RUnit, m(k \<mapsto> touch now e))"
| "spec_op now (OpSetNX k e) m =
     (if m k = None then (RBool True, m(k \<mapsto> touch now e)) else (RBool False, m))"
| "spec_op now (OpIncrBy k d) m =
     (case m k of
        None \<Rightarrow> (RNum (Inr (wrap64 d)), m(k \<mapsto> string_entry now (FormatInt (wrap64 d))))
      | Some e \<Rightarrow>
          (case str_of ERR_INT e of
             Inl err \<Rightarrow> (RNum (Inl err), m)
           | Inr s \<Rightarrow>
               (case ParseInt s of
                  None \<Rightarrow> (RNum (Inl ERR_INT), m)
                | Some n \<Rightarrow>
                    (RNum (Inr (wrap64 (n + d))),
                     m(k \<mapsto> touch now (e\<lparr>en_Value := AString (FormatInt (wrap64 (n + d)))\<rparr>))))))"
| "spec_op now (OpAppend k v) m =
     (case m k of
        None \<Rightarrow> (RNum (Inr (int (length v))), m(k \<mapsto> string_entry now v))
      | Some e \<Rightarrow>
          (case str_of WRONGTYPE e of
             Inl err \<Rightarrow> (RNum (Inl err), m)
           | Inr s \<Rightarrow>
               (RNum (Inr (int (length (s @ v)))), m(k \<mapsto> touch now (e\<lparr>en_Value := AString (s @ v)\<rparr>)))))"
| "spec_op now (OpGetOrCreate k t v) m =
     (let e = (case m k of
                 None \<Rightarrow> \<lparr>en_Type = t, en_Value = v, en_ExpiresAt = 0, en_UpdatedAt = now, en_LastAccessedAt = now\<rparr>
               | Some e \<Rightarrow> e\<lparr>en_LastAccessedAt := now\<rparr>)
      in (RCreated (e, m k = None), m(k \<mapsto> e)))"
| "spec_op now (OpDelete keys) m = (RInt (int (card (set keys \<inter> dom m))), m |` (- set keys))"
| "spec_op now (OpExists keys) m = (RInt (int (length (filter (\<lambda>k. m k \<noteq> None) keys))), m)"
| "spec_op now (OpExpire k ttl) m =
     (case m k of
        None \<Rightarrow> (RBool False, m)
      | Some e \<Rightarrow> (RBool True, m(k \<mapsto> e\<lparr>en_ExpiresAt := wrap64 (now + ttl)\<rparr>)))"
| "spec_op now (OpPersist k) m =
     (case m k of
        None \<Rightarrow> (RBool False, m)
      | Some e \<Rightarrow>
          if en_ExpiresAt e = 0 then (RBool False, m) else (RBool True, m(k \<mapsto> e\<lparr>en_ExpiresAt := 0\<rparr>)))"
| "spec_op now (OpTTL k now') m =
     (RInt (let t = ttl_of now' (m k) in if t < 0 then t else t div 1000), m)"
| "spec_op now (OpPTTL k now') m = (RInt (ttl_of now' (m k)), m)"
| "spec_op now OpFlush m = (RUnit, Map.empty)"
| "spec_op now (OpReap draws) m = (RUnit, m)"

text \<open>
  Replies agree, except that a deletion counts the given keys that are stored: these are the live ones and those whose
  time limit has passed and that nothing has removed yet.
\<close>

fun reply_ok :: "string set \<Rightarrow> ks_op \<Rightarrow> ks_res \<Rightarrow> ks_res \<Rightarrow> bool" where
  "reply_ok stored (OpDelete keys) r r' \<longleftrightarrow>
     r = RInt (int (card (set keys \<inter> stored))) \<and> (\<exists>n. r' = RInt n \<and> n \<le> int (card (set keys \<inter> stored)))"
| "reply_ok stored op r r' \<longleftrightarrow> r = r'"

definition op_ok :: "int \<Rightarrow> ks_op \<Rightarrow> Keyspace \<Rightarrow> bool" where
  "op_ok now op ks \<longleftrightarrow>
     (let (r, ks') = run_op now op ks; (r', m') = spec_op now op (live now ks)
      in ks_ok ks' \<and> live now ks' = age now m' \<and> reply_ok (dom (ks_map ks)) op r r')"

lemmas op_simps = op_ok_def map_res_def ks_upd touch_def

lemma op_lookup:
  assumes "ks_ok ks"
  obtains ks1 where "lookup_live now k ks = (live now ks k, ks1)" and "ks_ok ks1" and "live now ks1 = live now ks"
    and "sh_get k ks1 = live now ks k" and "ks_drift ks1 = ks_drift ks"
  using lookup_live_spec [OF assms] by (cases "lookup_live now k ks") metis

lemma live_notexp: "live now ks k = Some e \<Longrightarrow> \<not> IsExpired e now"
  by (auto simp: age_def split: option.splits if_splits)

lemma age_live_self: "live now ks k = Some e \<Longrightarrow> (live now ks)(k \<mapsto> e) = live now ks"
  by auto

lemma op_ok_Get: "ks_ok ks \<Longrightarrow> op_ok now (OpGet k) ks"
  by (rule op_lookup [of ks now k]) (auto simp: op_simps ks_Get_lookup_live)

lemma op_ok_SetString: "ks_ok ks \<Longrightarrow> op_ok now (OpSetString k v) ks"
proof -
  assume ok: "ks_ok ks"
  have "sh_get k ks = Some e \<Longrightarrow> en_Type e = TypeString \<Longrightarrow>
      e\<lparr>en_Value := AString v, en_ExpiresAt := 0, en_UpdatedAt := now, en_LastAccessedAt := now\<rparr> = string_entry now v" for e
    by (cases e) (simp add: string_entry_def)
  then show ?thesis using ok
    by (auto simp: op_simps SetString_def Let_def string_entry_def IsExpired_def split: option.splits)
qed

lemma op_ok_Set: "ks_ok ks \<Longrightarrow> op_ok now (OpSet k e) ks"
  by (auto simp: op_simps ks_Set_def Let_def)

lemma op_ok_SetNX: "ks_ok ks \<Longrightarrow> op_ok now (OpSetNX k e) ks"
  by (rule op_lookup [of ks now k]) (auto simp: op_simps SetNX_def split: option.splits)

lemma op_ok_IncrBy: "ks_ok ks \<Longrightarrow> op_ok now (OpIncrBy k d) ks"
  by (rule op_lookup [of ks now k])
    (auto simp: op_simps ks_IncrBy_def Let_def str_of_def string_entry_def split: option.splits any.splits)

lemma op_ok_Append: "ks_ok ks \<Longrightarrow> op_ok now (OpAppend k v) ks"
  by (rule op_lookup [of ks now k])
    (auto simp: op_simps ks_Append_def Let_def str_of_def string_entry_def split: option.splits any.splits)

lemma op_ok_GetOrCreate: "ks_ok ks \<Longrightarrow> op_ok now (OpGetOrCreate k t v) ks"
  by (rule op_lookup [of ks now k]) (auto simp: op_simps GetOrCreate_def Let_def split: option.splits)

lemma op_ok_Expire: "ks_ok ks \<Longrightarrow> op_ok now (OpExpire k ttl) ks"
  by (rule op_lookup [of ks now k]) (auto simp: op_simps ks_Expire_def split: option.splits)

lemma op_ok_Persist: "ks_ok ks \<Longrightarrow> op_ok now (OpPersist k) ks"
  by (rule op_lookup [of ks now k]) (auto simp: op_simps ks_Persist_def split: option.splits)

lemma op_ok_TTL: "ks_ok ks \<Longrightarrow> op_ok now (OpTTL k now') ks" "ks_ok ks \<Longrightarrow> op_ok now (OpPTTL k now') ks"
  by (rule op_lookup [of ks now k];
      auto simp: op_simps ks_TTL_def ks_PTTL_def ks_Get_lookup_live ttl_of_def Let_def split: option.splits)+

lemma op_ok_Flush: "ks_ok ks \<Longrightarrow> op_ok now OpFlush ks"
proof -
  have "FlushDB ks = NewKeyspace" by (simp add: FlushDB_def NewKeyspace_def)
  moreover have "sh_get k NewKeyspace = None" for k by (simp add: sh_get_def NewKeyspace_def)
  ultimately show ?thesis using kmap.wf_empty by (simp add: op_ok_def age_def)
qed

lemma ks_Delete_spec:
  assumes "ks_ok ks" and "ks_Delete keys ks = (n, ks')"
  shows "ks_ok ks' \<and> ks_map ks' = (ks_map ks) |` (- set keys) \<and>
    n = int (card (set keys \<inter> dom (ks_map ks))) \<and> ks_drift ks' = ks_drift ks"
  using assms
proof (induction keys arbitrary: ks n)
  case (Cons key keys)
  show ?case
  proof (cases "sh_get key ks")
    case None
    then have "set (key # keys) \<inter> dom (ks_map ks) = set keys \<inter> dom (ks_map ks)" by auto
    moreover have "(ks_map ks) |` (- set (key # keys)) = (ks_map ks) |` (- set keys)"
      using None by (auto simp: restrict_map_def)
    ultimately show ?thesis using Cons.IH [OF Cons.prems(1)] Cons.prems(2) None by simp
  next
    case (Some e)
    define ks1 where "ks1 = add_count (- 1) (sh_del key ks)"
    have k1: "ks_ok ks1" "ks_map ks1 = (ks_map ks)(key := None)" "ks_drift ks1 = ks_drift ks"
      using Cons.prems(1) Some by (auto simp: ks1_def ks_upd drift_del)
    obtain n1 where del: "ks_Delete keys ks1 = (n1, ks')" "n = n1 + 1"
      using Cons.prems(2) Some by (auto simp: ks1_def split: prod.splits)
    note IH = Cons.IH [OF k1(1) del(1)]
    have fin: "finite (set keys \<inter> dom (ks_map ks1))" by simp
    have dom: "dom (ks_map ks1) = dom (ks_map ks) - {key}" unfolding k1(2) by auto
    have "set (key # keys) \<inter> dom (ks_map ks) = insert key (set keys \<inter> dom (ks_map ks1))"
      unfolding dom using Some by auto
    moreover have "key \<notin> set keys \<inter> dom (ks_map ks1)" unfolding dom by simp
    ultimately have "card (set (key # keys) \<inter> dom (ks_map ks)) = Suc (card (set keys \<inter> dom (ks_map ks1)))"
      using card_insert_disjoint [OF fin] by simp
    moreover have "(ks_map ks1) |` (- set keys) = (ks_map ks) |` (- set (key # keys))"
      unfolding k1(2) by (auto simp: restrict_map_def)
    ultimately show ?thesis using IH k1(3) del(2) by simp
  qed
qed (auto simp: restrict_map_def)

lemma age_restrict: "age now (m |` S) = (age now m) |` S"
  by (auto simp: age_def restrict_map_def)

lemma op_ok_Delete: assumes "ks_ok ks" shows "op_ok now (OpDelete keys) ks"
proof -
  obtain n ks' where d: "ks_Delete keys ks = (n, ks')" by fastforce
  note D = ks_Delete_spec [OF assms d]
  have "dom (live now ks) \<subseteq> dom (ks_map ks)" by (auto simp: age_def split: option.splits)
  then have "card (set keys \<inter> dom (live now ks)) \<le> card (set keys \<inter> dom (ks_map ks))"
    by (intro card_mono) auto
  then show ?thesis using D d by (simp add: op_ok_def map_res_def age_restrict)
qed

lemma ks_Exists_spec:
  assumes "ks_ok ks" and "ks_Exists now keys ks = (n, ks')"
  shows "ks_ok ks' \<and> live now ks' = live now ks \<and> n = int (length (filter (\<lambda>k. live now ks k \<noteq> None) keys)) \<and>
    ks_drift ks' = ks_drift ks"
  using assms
proof (induction keys arbitrary: ks n)
  case (Cons key keys)
  obtain ks1 where k1: "lookup_live now key ks = (live now ks key, ks1)" "ks_ok ks1" "live now ks1 = live now ks"
    "ks_drift ks1 = ks_drift ks"
    using op_lookup [OF Cons.prems(1)] by metis
  obtain n1 where "ks_Exists now keys ks1 = (n1, ks')" "n = (if live now ks key \<noteq> None then n1 + 1 else n1)"
    using Cons.prems(2) k1(1) by (auto simp: ks_Get_lookup_live Let_def split: prod.splits)
  with Cons.IH [OF k1(2), of n1] k1(3,4) show ?case by auto
qed simp

lemma op_ok_Exists: "ks_ok ks \<Longrightarrow> op_ok now (OpExists keys) ks"
  using ks_Exists_spec [of ks now keys] by (cases "ks_Exists now keys ks") (simp add: op_ok_def map_res_def)

text \<open>The reaper only removes what no client sees any more.\<close>

lemma reap_keys_spec:
  assumes "ks_ok ks" and "i < NumShards" and "set es \<subseteq> set (ks_shards ks ! i)" and "distinct (map fst es)"
  shows "ks_ok (reap_keys now es i ks) \<and> live now (reap_keys now es i ks) = live now ks \<and>
    ks_drift (reap_keys now es i ks) = ks_drift ks"
  using assms
proof (induction es arbitrary: ks)
  case (Cons ke es)
  obtain k e where ke: "ke = (k, e)" by fastforce
  have mem: "(k, e) \<in> set (ks_shards ks ! i)" using Cons.prems(3) ke by simp
  then have si: "shard_index k = i" using ks_okD(2) [OF Cons.prems(1,2)] by (force simp: shard_ok_def gkeys_def)
  then have get: "sh_get k ks = Some e"
    using mem ks_okD(3) [OF Cons.prems(1,2)] by (simp add: sh_get_def gget_Some_iff)
  show ?case
  proof (cases "IsExpired e now")
    case False
    then show ?thesis using Cons.IH [OF Cons.prems(1,2)] Cons.prems(3,4) ke by simp
  next
    case True
    define ks1 where "ks1 = add_count (- 1) (sh_del k ks)"
    have k1: "ks_ok ks1" "live now ks1 = live now ks" "ks_drift ks1 = ks_drift ks"
      using Cons.prems(1) get True by (auto simp: ks1_def ks_upd drift_del age_def fun_eq_iff)
    have "ks_shards ks1 ! i = gdel k (ks_shards ks ! i)"
      using ks_okD(1) [OF Cons.prems(1)] Cons.prems(2) si by (simp add: ks1_def add_count_def sh_del_def)
    then have "set es \<subseteq> set (ks_shards ks1 ! i)" using Cons.prems(3,4) ke by (force simp: gdel_def)
    then have "ks_ok (reap_keys now es i ks1) \<and> live now (reap_keys now es i ks1) = live now ks1 \<and>
        ks_drift (reap_keys now es i ks1) = ks_drift ks1"
      using Cons.IH [OF k1(1) Cons.prems(2)] Cons.prems(4) by simp
    moreover have "reap_keys now (ke # es) i ks = reap_keys now es i ks1"
      using True si by (simp add: ke ks1_def sh_del_def)
    ultimately show ?thesis using k1 by simp
  qed
qed simp

lemma reap_shard_spec:
  assumes "ks_ok ks" and "i < NumShards"
  shows "ks_ok (reap_shard now i ks) \<and> live now (reap_shard now i ks) = live now ks \<and>
    ks_drift (reap_shard now i ks) = ks_drift ks"
  unfolding reap_shard_def
  by (rule reap_keys_spec [OF assms])
    (use ks_okD(3) [OF assms] in \<open>auto simp: gomap_ok_def take_map [symmetric] dest: in_set_takeD\<close>)

lemma reaper_tick_spec:
  assumes "ks_ok ks"
  shows "ks_ok (reaper_tick now draws ks) \<and> live now (reaper_tick now draws ks) = live now ks \<and>
    ks_drift (reaper_tick now draws ks) = ks_drift ks"
proof -
  have "ks_ok (fold (\<lambda>r. reap_shard now (r mod NumShards)) rs ks) \<and>
      live now (fold (\<lambda>r. reap_shard now (r mod NumShards)) rs ks) = live now ks \<and>
      ks_drift (fold (\<lambda>r. reap_shard now (r mod NumShards)) rs ks) = ks_drift ks" for rs
    using assms
  proof (induction rs arbitrary: ks)
    case (Cons r rs)
    have "r mod NumShards < NumShards" by (simp add: NumShards_def)
    then show ?case using Cons.IH reap_shard_spec [OF Cons.prems, of "r mod NumShards" now] by simp
  qed simp
  then show ?thesis by (simp add: reaper_tick_def)
qed

lemma op_ok_Reap: "ks_ok ks \<Longrightarrow> op_ok now (OpReap draws) ks"
  using reaper_tick_spec [of ks now draws] by (simp add: op_ok_def)

lemmas op_ok_intros = op_ok_Get op_ok_SetString op_ok_Set op_ok_SetNX op_ok_IncrBy op_ok_Append
  op_ok_GetOrCreate op_ok_Delete op_ok_Exists op_ok_Expire op_ok_Persist op_ok_TTL op_ok_Flush op_ok_Reap

lemma op_ok: "ks_ok ks \<Longrightarrow> op_ok now op ks"
  by (cases op) (simp_all add: op_ok_intros)

section \<open>Properties\<close>

fun run_ops :: "(int \<times> ks_op) list \<Rightarrow> Keyspace \<Rightarrow> ks_res list \<times> Keyspace" where
  "run_ops [] ks = ([], ks)"
| "run_ops ((now, op) # ops) ks =
     (let (r, ks1) = run_op now op ks; (rs, ks2) = run_ops ops ks1 in (r # rs, ks2))"

fun spec_ops :: "(int \<times> ks_op) list \<Rightarrow> (string \<Rightarrow> Entry option) \<Rightarrow> ks_res list \<times> (string \<Rightarrow> Entry option)" where
  "spec_ops [] m = ([], m)"
| "spec_ops ((now, op) # ops) m =
     (let (r, m1) = spec_op now op (age now m); (rs, m2) = spec_ops ops m1 in (r # rs, m2))"

text \<open>The keys that are stored before each operation.\<close>

fun stored_before :: "(int \<times> ks_op) list \<Rightarrow> Keyspace \<Rightarrow> string set list" where
  "stored_before [] ks = []"
| "stored_before ((now, op) # ops) ks = dom (ks_map ks) # stored_before ops (snd (run_op now op ks))"

lemma run_ops_refines:
  assumes "sorted (map fst ops)" and "\<forall>t \<in> fst ` set ops. t0 \<le> t" and "ks_ok ks" and "live t0 ks = age t0 m"
    and "run_ops ops ks = (rs, ks')" and "spec_ops ops m = (rs', m')" and "\<forall>t \<in> fst ` set ops. t \<le> t1" and "t0 \<le> t1"
  shows "ks_ok ks' \<and> live t1 ks' = age t1 m' \<and>
    list_all2 (\<lambda>((now, op), stored) (r, r'). reply_ok stored op r r') (zip ops (stored_before ops ks)) (zip rs rs') \<and> length rs = length rs'"
  using assms
proof (induction ops arbitrary: t0 ks m rs rs')
  case Nil
  then show ?case using age_age [of t0 t1] by (simp, metis)
next
  case (Cons nop ops)
  obtain now op where nop: "nop = (now, op)" by fastforce
  obtain r ks1 rs1 where r: "run_op now op ks = (r, ks1)" "run_ops ops ks1 = (rs1, ks')" "rs = r # rs1"
    using Cons.prems(5) by (auto simp: nop Let_def split: prod.splits)
  obtain r' m1 rs1' where s: "spec_op now op (age now m) = (r', m1)" "spec_ops ops m1 = (rs1', m')" "rs' = r' # rs1'"
    using Cons.prems(6) by (auto simp: nop Let_def split: prod.splits)
  have le: "t0 \<le> now" "now \<le> t1" using Cons.prems(2,7) by (simp_all add: nop)
  have "live now ks = age now m" using Cons.prems(4) age_age [OF le(1)] by metis
  then have step: "ks_ok ks1" "live now ks1 = age now m1" "reply_ok (dom (ks_map ks)) op r r'"
    using op_ok [OF Cons.prems(3), of now op] r(1) s(1) by (auto simp: op_ok_def)
  have "ks_ok ks' \<and> live t1 ks' = age t1 m' \<and>
      list_all2 (\<lambda>((now, op), stored) (r, r'). reply_ok stored op r r') (zip ops (stored_before ops ks1)) (zip rs1 rs1') \<and> length rs1 = length rs1'"
    by (rule Cons.IH [OF _ _ step(1,2) r(2) s(2)]) (use Cons.prems(1,7) le in \<open>auto simp: nop\<close>)
  then show ?case using step(3) by (simp add: nop r s)
qed

text \<open>
  Property C2: the sharded keyspace with passive and active expiry is one map of live keys. Any run of
  operations and reaper ticks from the empty keyspace, under a clock that does not go back, gives
  the replies of the specification, and at the end every client sees the map of the specification. Only the reply of a
  deletion differs: it is the number of the given keys that are stored, which counts expired keys that nothing has removed yet.
\<close>

theorem Keyspace_refines:
  assumes "sorted (map fst ops)" and "run_ops ops NewKeyspace = (rs, ks)" and "spec_ops ops Map.empty = (rs', m)"
    and "\<forall>t \<in> fst ` set ops. t \<le> now"
  shows "ks_ok ks \<and> live now ks = age now m
    \<and> list_all2 (\<lambda>((t, op), stored) (r, r'). reply_ok stored op r r') (zip ops (stored_before ops NewKeyspace)) (zip rs rs')"
proof (cases ops)
  case Nil
  have "sh_get k NewKeyspace = None" for k by (simp add: sh_get_def NewKeyspace_def)
  then show ?thesis using Nil assms kmap.wf_empty by (auto simp: age_def)
next
  case (Cons a ops')
  have e: "live (fst a) NewKeyspace = age (fst a) Map.empty"
    by (rule arg_cong [where f = "age (fst a)"]) (simp add: sh_get_def NewKeyspace_def)
  have "ks_ok ks \<and> live now ks = age now m \<and>
      list_all2 (\<lambda>((now, op), stored) (r, r'). reply_ok stored op r r') (zip ops (stored_before ops NewKeyspace)) (zip rs rs') \<and> length rs = length rs'"
    by (rule run_ops_refines [OF assms(1) _ kmap.wf_empty e assms(2,3,4)]) (use assms(1,4) Cons in auto)
  then show ?thesis by blast
qed

theorem Keyspace_refines_witness:
  "fst (run_ops [(1, OpSetString ''a'' ''1''), (2, OpIncrBy ''a'' 4), (3, OpReap [7])] NewKeyspace) =
     [RUnit, RNum (Inr 5), RUnit]"
proof -
  let ?ops = "[(1 :: int, OpSetString ''a'' ''1''), (2, OpIncrBy ''a'' 4), (3, OpReap [7])]"
  obtain rs ks rs' m where r: "run_ops ?ops NewKeyspace = (rs, ks)" and s: "spec_ops ?ops Map.empty = (rs', m)"
    by (metis surj_pair)
  have spec: "rs' = [RUnit, RNum (Inr 5), RUnit]"
  proof -
    have "ParseInt ''1'' = Some 1" "wrap64 5 = 5" by code_simp+
    then show ?thesis using s by (auto simp: age_def string_entry_def IsExpired_def str_of_def)
  qed
  have len: "length rs = 3" using r by (auto simp: Let_def split: prod.splits)
  have "list_all2 (\<lambda>((t, op), stored) (r, r'). reply_ok stored op r r') (zip ?ops (stored_before ?ops NewKeyspace)) (zip rs rs')"
    using Keyspace_refines [OF _ r s, of 3] by simp
  then show ?thesis using r len spec by (auto simp: list_all2_Cons1 length_Suc_conv eval_nat_numeral)
qed

definition retypes :: "ks_op \<Rightarrow> Keyspace \<Rightarrow> bool" where
  "retypes op ks \<longleftrightarrow>
     (case op of
        OpSetString k v \<Rightarrow> (case sh_get k ks of Some e \<Rightarrow> en_Type e \<noteq> TypeString | None \<Rightarrow> False)
      | _ \<Rightarrow> False)"

lemma drift_lookup:
  assumes "ks_ok ks" and "lookup_live now k ks = (r, ks1)"
  shows "r = None \<Longrightarrow> ks_drift (add_count 1 (sh_put k e ks1)) = ks_drift ks"
    and "r \<noteq> None \<Longrightarrow> ks_drift (sh_put k e ks1) = ks_drift ks" and "ks_drift ks1 = ks_drift ks"
  using lookup_live_spec [OF assms] by (simp_all add: drift_new drift_over)

lemmas drift_defs = SetNX_def ks_IncrBy_def ks_Append_def GetOrCreate_def ks_Expire_def ks_Persist_def
  ks_TTL_def ks_PTTL_def ks_Get_lookup_live

lemma drift_lookup_ops:
  assumes "ks_ok ks"
  shows "ks_drift (snd (ks_Get now k ks)) = ks_drift ks" "ks_drift (snd (SetNX now k e ks)) = ks_drift ks"
    "ks_drift (snd (ks_IncrBy now k d ks)) = ks_drift ks" "ks_drift (snd (ks_Append now k v ks)) = ks_drift ks"
    "ks_drift (snd (GetOrCreate now k t c ks)) = ks_drift ks" "ks_drift (snd (ks_Expire now k ttl ks)) = ks_drift ks"
    "ks_drift (snd (ks_Persist now k ks)) = ks_drift ks" "ks_drift (snd (ks_TTL now now' k ks)) = ks_drift ks"
    "ks_drift (snd (ks_PTTL now now' k ks)) = ks_drift ks"
  using drift_lookup [OF assms, of now k]
  by (cases "lookup_live now k ks"; auto simp: drift_defs Let_def split: option.splits any.splits)+



text \<open>
  A time limit set on a live key holds exactly: as long as the clock has not reached it the
  key is found, from then on it is not. A limit that falls before the epoch is taken as no limit.
\<close>

theorem Expire_deadline:
  assumes "ks_ok ks" and "fst (ks_Get now k ks) \<noteq> None" and "now \<le> t" and "in_int64 (now + ttl)"
  shows "fst (ks_Expire now k ttl ks)
    \<and> (fst (ks_Get t k (snd (ks_Expire now k ttl ks))) \<noteq> None \<longleftrightarrow> t < now + ttl \<or> now + ttl \<le> 0)"
proof -
  obtain ks1 where l: "lookup_live now k ks = (live now ks k, ks1)" "ks_ok ks1" "sh_get k ks1 = live now ks k"
    using op_lookup [OF assms(1)] by metis
  then obtain e where e: "live now ks k = Some e" using assms(2) by (auto simp: ks_Get_lookup_live)
  have w: "wrap64 (now + ttl) = now + ttl" using assms(4) by (simp add: wrap64_id)
  let ?e = "e\<lparr>en_ExpiresAt := now + ttl\<rparr>"
  have x: "ks_Expire now k ttl ks = (True, sh_put k ?e ks1)" by (simp add: ks_Expire_def l e w)
  have "sh_get k (sh_put k ?e ks1) = Some ?e" using l(2) by (simp add: sh_get_put)
  then show ?thesis by (auto simp: x ks_Get_lookup_live lookup_live_def IsExpired_def)
qed

theorem Expire_deadline_witness:
  "fst (ks_Get 15 ''a'' (snd (ks_Expire 5 ''a'' 10 (SetString 5 ''a'' ''x'' NewKeyspace)))) = None"
proof -
  let ?ks = "SetString 5 ''a'' ''x'' NewKeyspace"
  have "op_ok 5 (OpSetString ''a'' ''x'') NewKeyspace" by (rule op_ok [OF kmap.wf_empty])
  then have ok: "ks_ok ?ks" and "live 5 ?ks ''a'' = Some (string_entry 5 ''x'')"
    by (simp_all add: op_ok_def age_upd string_entry_def IsExpired_def)
  then have "fst (ks_Get 5 ''a'' ?ks) \<noteq> None"
    using op_lookup [OF ok, of 5 "''a''"] by (metis fst_conv ks_Get_lookup_live option.simps(3))
  then show ?thesis using Expire_deadline [OF ok, of 5 "''a''" 15 10] by (simp add: in_int64_def)
qed

text \<open>A listing holds each live key that matches the pattern once, and no other.\<close>

theorem Keys_spec:
  assumes "ks_ok ks"
  shows "set (ks_Keys Match now pattern ks) = {k \<in> dom (live now ks). key_matches Match pattern k}
    \<and> distinct (ks_Keys Match now pattern ks)"
proof -
  let ?P = "\<lambda>(k, e). \<not> IsExpired e now \<and> key_matches Match pattern k"
  have eq: "ks_Keys Match now pattern ks = map fst (filter ?P (concat (ks_shards ks)))"
    unfolding ks_Keys_def by (induction "ks_shards ks") (simp_all add: filter_concat map_concat o_def)
  have "set (map fst (filter ?P (concat (ks_shards ks)))) = {k \<in> dom (live now ks). key_matches Match pattern k}"
    using in_shards [OF assms] by (force simp: age_def simp del: set_concat split: option.splits)
  moreover have "distinct (map fst (filter ?P (concat (ks_shards ks))))"
    using gomap_ok_shards [OF assms] by (simp add: gomap_ok_def gkeys_def distinct_map_filter)
  ultimately show ?thesis by (simp add: eq)
qed

theorem Keys_spec_witness: "ks_Keys (\<lambda>p k. p = k) 7 ''*'' NewKeyspace = []"
proof -
  have "live 7 NewKeyspace = Map.empty" by (simp add: age_def sh_get_def NewKeyspace_def fun_eq_iff)
  then have "set (ks_Keys (\<lambda>p k. p = k) 7 ''*'' NewKeyspace) = {}"
    using Keys_spec [OF kmap.wf_empty, of "\<lambda>p k. p = k" 7 "''*''"] by auto
  then show ?thesis by simp
qed

text \<open>
  The unrolled hash is the byte-by-byte FNV-1a hash, and the shard it selects exists.
\<close>

theorem fnv1a_unrolled: "fnv1a s = foldl fnv_step fnv_offset64 s \<and> shard_index s < NumShards"
  by (simp add: fnv1a_def fnv1a_loop_foldl)

subsection \<open>Eviction\<close>

abbreviation ca_le :: "Candidate \<Rightarrow> Candidate \<Rightarrow> bool" where
  "ca_le a b \<equiv> ca_LastAccessed a \<le> ca_LastAccessed b"

lemma exchange_length [simp]: "length (exchange i j cs) = length cs"
  by (simp add: exchange_def)

lemma exchange_mset: "i < length cs \<Longrightarrow> j < length cs \<Longrightarrow> mset (exchange i j cs) = mset cs"
  by (simp add: exchange_def mset_swap)

lemma inner_loop:
  assumes "i < length cs" and "m \<le> length cs"
  defines "cs' \<equiv> fold (exchange i) [Suc i..<m] cs"
  shows "length cs' = length cs \<and> mset cs' = mset cs \<and> (\<forall>p < i. cs' ! p = cs ! p) \<and>
    (\<forall>q. i < q \<and> q < m \<longrightarrow> ca_le (cs' ! i) (cs' ! q))"
  using assms(2) unfolding cs'_def
proof (induction m)
  case (Suc m)
  show ?case
  proof (cases "i < m")
    case True
    let ?c = "fold (exchange i) [Suc i..<m] cs"
    have IH: "length ?c = length cs" "mset ?c = mset cs" "\<forall>p < i. ?c ! p = cs ! p"
      "\<forall>q. i < q \<and> q < m \<longrightarrow> ca_le (?c ! i) (?c ! q)" using Suc by simp_all
    have "fold (exchange i) [Suc i..<Suc m] cs = exchange i m ?c" using True by (simp add: Suc_le_eq)
    moreover have "mset (exchange i m ?c) = mset cs" using exchange_mset [of i ?c m] IH Suc.prems assms(1) by simp
    moreover have "\<forall>p < i. exchange i m ?c ! p = cs ! p" using IH(1,3) True by (simp add: exchange_def)
    moreover have "ca_le (exchange i m ?c ! i) (exchange i m ?c ! q)" if "i < q" "q < Suc m" for q
      using IH(1,4) that True Suc.prems by (cases "q = m") (auto simp: exchange_def nth_list_update)
    ultimately show ?thesis using IH(1) by simp
  qed simp
qed simp

lemma mset_drop: "mset (drop k xs) = mset xs - mset (take k xs)"
proof -
  have "mset xs = mset (take k xs @ drop k xs)" by simp
  also have "\<dots> = mset (take k xs) + mset (drop k xs)" by (rule mset_append)
  finally show ?thesis by (simp del: append_take_drop_id)
qed

lemma outer_loop:
  assumes "k \<le> length cs"
  defines "cs' \<equiv> fold (\<lambda>i. fold (exchange i) [i + 1..<length cs]) [0..<k] cs"
  shows "length cs' = length cs \<and> mset cs' = mset cs \<and>
    (\<forall>p q. p < k \<and> p < q \<and> q < length cs \<longrightarrow> ca_le (cs' ! p) (cs' ! q))"
  using assms(1) unfolding cs'_def
proof (induction k)
  case (Suc k)
  let ?c = "fold (\<lambda>i. fold (exchange i) [i + 1..<length cs]) [0..<k] cs"
  let ?d = "fold (exchange k) [Suc k..<length cs] ?c"
  have IH: "length ?c = length cs" "mset ?c = mset cs"
    "\<forall>p q. p < k \<and> p < q \<and> q < length cs \<longrightarrow> ca_le (?c ! p) (?c ! q)" using Suc by simp_all
  note I = inner_loop [of k ?c "length cs"]
  have I: "length ?d = length cs" "mset ?d = mset cs" "\<forall>p < k. ?d ! p = ?c ! p"
    "\<forall>q. k < q \<and> q < length cs \<longrightarrow> ca_le (?d ! k) (?d ! q)"
    using I Suc.prems IH(1,2) by simp_all
  have "take k ?d = take k ?c" using I(1,3) IH(1) Suc.prems by (intro nth_equalityI) auto
  then have "mset (drop k ?d) = mset (drop k ?c)" using I(2) IH(2) by (simp add: mset_drop)
  then have tail: "set (drop k ?d) = set (drop k ?c)" by (rule mset_eq_setD)
  have "ca_le (?d ! p) (?d ! q)" if "p < Suc k" "p < q" "q < length cs" for p q
  proof (cases "p = k")
    case False
    then have pk: "p < k" using that by simp
    show ?thesis
    proof (cases "q < k")
      case True
      then show ?thesis using I(3) IH(3) that pk by simp
    next
      case False
      then have "?d ! q \<in> set (drop k ?d)" using that I(1) by (auto simp: in_set_conv_nth intro!: exI [of _ "q - k"])
      then obtain r where r: "r < length cs - k" "?d ! q = ?c ! (k + r)"
        unfolding tail using IH(1) by (auto simp: in_set_conv_nth)
      then show ?thesis using IH(3) pk I(3) by simp
    qed
  qed (use I(4) that in simp)
  then show ?case using I(1,2) by simp
qed simp

lemma sort_candidates_spec:
  "mset (sort_candidates cs) = mset cs \<and> sorted (map ca_LastAccessed (sort_candidates cs))"
proof -
  have eq: "sort_candidates cs = fold (\<lambda>i. fold (exchange i) [i + 1..<length cs]) [0..<length cs] cs"
    by (simp add: sort_candidates_def)
  show ?thesis
    unfolding eq using outer_loop [of "length cs" cs] by (auto simp: sorted_iff_nth_mono_less)
qed

definition ca_ok :: "Keyspace \<Rightarrow> Candidate \<Rightarrow> bool" where
  "ca_ok ks c \<longleftrightarrow> ca_ShardIdx c = shard_index (ca_Key c) \<and> sh_get (ca_Key c) ks \<noteq> None"

lemma sample_shard_ok:
  assumes "ks_ok ks" and "i < NumShards"
  shows "distinct (map ca_Key (sample_shard ks i)) \<and>
    (\<forall>c \<in> set (sample_shard ks i). ca_ok ks c \<and> shard_index (ca_Key c) = i)"
proof -
  have sh: "gomap_ok (ks_shards ks ! i)" "\<forall>k \<in> set (gkeys (ks_shards ks ! i)). shard_index k = i"
    using ks_okD(2) [OF assms] by (simp_all add: shard_ok_def)
  have "map ca_Key (sample_shard ks i) = take 10 (map fst (ks_shards ks ! i))"
    by (simp add: sample_shard_def o_def case_prod_beta take_map)
  moreover have "ca_ok ks c \<and> shard_index (ca_Key c) = i" if c: "c \<in> set (sample_shard ks i)" for c
  proof -
    obtain k e where "(k, e) \<in> set (ks_shards ks ! i)" "ca_Key c = k" "ca_ShardIdx c = i"
      using c by (auto simp: sample_shard_def dest!: in_set_takeD)
    moreover from this have "shard_index k = i" using sh(2) by (force simp: gkeys_def)
    ultimately show ?thesis using sh(1) gget_Some_iff [of "ks_shards ks ! i" k e]
      by (simp add: ca_ok_def sh_get_def)
  qed
  ultimately show ?thesis using sh(1) by (simp add: gomap_ok_def gkeys_def)
qed

lemma sample_prefix:
  "\<exists>m \<le> n. sample ks t [i..<i + n] cs = cs @ concat (map (sample_shard ks) [i..<i + m])"
proof (induction n arbitrary: i cs)
  case (Suc n)
  have up: "[i..<i + Suc n] = i # [Suc i..<Suc i + n]" by (simp add: upt_conv_Cons)
  show ?case
  proof (cases "int (length cs) < t * 3")
    case True
    obtain m where "m \<le> n" "sample ks t [Suc i..<Suc i + n] (cs @ sample_shard ks i) =
        (cs @ sample_shard ks i) @ concat (map (sample_shard ks) [Suc i..<Suc i + m])"
      using Suc by blast
    moreover have "[i..<i + Suc m] = i # [Suc i..<Suc i + m]" by (simp add: upt_conv_Cons)
    ultimately show ?thesis unfolding up using True
      by (intro exI [of _ "Suc m"]) (simp del: upt_Suc add_Suc_right)
  next
    case False
    then show ?thesis unfolding up by (intro exI [of _ 0]) simp
  qed
qed simp

lemma sample_ok:
  assumes "ks_ok ks"
  shows "distinct (map ca_Key (sample ks t [0..<NumShards] [])) \<and> (\<forall>c \<in> set (sample ks t [0..<NumShards] []). ca_ok ks c)"
proof -
  have "distinct (map ca_Key (concat (map (sample_shard ks) [0..<m]))) \<and>
      (\<forall>c \<in> set (concat (map (sample_shard ks) [0..<m])). ca_ok ks c \<and> shard_index (ca_Key c) < m)"
    if "m \<le> NumShards" for m
    using that
  proof (induction m)
    case (Suc m)
    have S: "distinct (map ca_Key (sample_shard ks m))"
      "\<And>c. c \<in> set (sample_shard ks m) \<Longrightarrow> ca_ok ks c \<and> shard_index (ca_Key c) = m"
      using sample_shard_ok [OF assms, of m] Suc.prems by simp_all
    have IH: "distinct (map ca_Key (concat (map (sample_shard ks) [0..<m])))"
      "\<And>c. c \<in> set (concat (map (sample_shard ks) [0..<m])) \<Longrightarrow> ca_ok ks c \<and> shard_index (ca_Key c) < m"
      using Suc.IH [OF Suc_leD [OF Suc.prems]] by blast+
    define xs where "xs = concat (map (sample_shard ks) [0..<m])"
    define ys where "ys = sample_shard ks m"
    note IH = IH [folded xs_def] and S = S [folded ys_def]
    have "ca_Key c \<noteq> ca_Key d" if "c \<in> set xs" "d \<in> set ys" for c d
      using IH(2) [OF that(1)] S(2) [OF that(2)] by auto
    then have "distinct (map ca_Key (xs @ ys))" using S(1) IH(1) by fastforce
    moreover have "ca_ok ks c \<and> shard_index (ca_Key c) < Suc m" if "c \<in> set (xs @ ys)" for c
      using that S(2) [of c] IH(2) [of c] by auto
    moreover have e: "concat (map (sample_shard ks) [0..<Suc m]) = xs @ ys" by (simp add: xs_def ys_def)
    ultimately show ?case unfolding e by blast
  qed simp
  moreover obtain m where "m \<le> NumShards"
    and e: "sample ks t [0..<NumShards] [] = concat (map (sample_shard ks) [0..<m])"
    using sample_prefix [of NumShards ks t 0 "[]"] by auto
  ultimately show ?thesis unfolding e by blast
qed

lemma evict_loop_spec:
  assumes "ks_ok ks" and "distinct (map ca_Key cs)" and "\<forall>c \<in> set cs. ca_ok ks c" and "ev < t"
    and "evict_loop t ev cs ks = (n, ks')"
  shows "ks_ok ks' \<and> n = min t (ev + int (length cs)) \<and> ks_drift ks' = ks_drift ks \<and>
    ks_map ks' = (ks_map ks) |` (- ca_Key ` set (take (nat (t - ev)) cs))"
  using assms
proof (induction cs arbitrary: ev ks)
  case (Cons c cs)
  let ?k = "ca_Key c"
  define ks1 where "ks1 = add_count (- 1) (sh_del ?k ks)"
  have c: "ca_ShardIdx c = shard_index ?k" "sh_get ?k ks \<noteq> None" using Cons.prems(3) by (simp_all add: ca_ok_def)
  have k1: "ks_ok ks1" "ks_map ks1 = (ks_map ks)(?k := None)" "ks_drift ks1 = ks_drift ks"
    using Cons.prems(1) c(2) by (auto simp: ks1_def ks_upd drift_del)
  have ok: "\<forall>d \<in> set cs. ca_ok ks1 d"
  proof
    fix d assume d: "d \<in> set cs"
    then have "ca_Key d \<noteq> ?k" using Cons.prems(2) by (auto intro: rev_image_eqI)
    then show "ca_ok ks1 d" using Cons.prems(3) d fun_cong [OF k1(2), of "ca_Key d"] by (simp add: ca_ok_def)
  qed
  have step: "evict_loop t ev (c # cs) ks = (if ev + 1 \<ge> t then (ev + 1, ks1) else evict_loop t (ev + 1) cs ks1)"
    using c by (simp add: Let_def ks1_def sh_del_def sh_get_def)
  have restr: "(ks_map ks1) |` (- S) = (ks_map ks) |` (- insert ?k S)" for S
    unfolding k1(2) by (auto simp: restrict_map_def)
  show ?case
  proof (cases "ev + 1 \<ge> t")
    case True
    then have one: "nat (t - ev) = 1" using Cons.prems(4) by simp
    have "n = ev + 1" "ks' = ks1" using Cons.prems(5) True unfolding step by simp_all
    moreover have "ks_map ks1 = (ks_map ks) |` (- ca_Key ` set (take (nat (t - ev)) (c # cs)))"
      unfolding one k1(2) by (auto simp: restrict_map_def)
    ultimately show ?thesis using k1(1,3) True Cons.prems(4) by simp
  next
    case False
    have more: "nat (t - ev) = Suc (nat (t - (ev + 1)))" using False by simp
    have "evict_loop t (ev + 1) cs ks1 = (n, ks')" using Cons.prems(5) False unfolding step by simp
    moreover have "ev + 1 < t" "distinct (map ca_Key cs)" using False Cons.prems(2) by simp_all
    ultimately have "ks_ok ks'" "n = min t (ev + 1 + int (length cs))" "ks_drift ks' = ks_drift ks1"
      "ks_map ks' = (ks_map ks1) |` (- ca_Key ` set (take (nat (t - (ev + 1))) cs))"
      using Cons.IH [OF k1(1) _ ok, of "ev + 1"] by blast+
    then show ?thesis unfolding more restr k1(3) by simp
  qed
qed (auto simp: restrict_map_def)

lemma sample_skip:
  "\<forall>i \<in> set is. sample_shard ks i = [] \<Longrightarrow> sample ks t (is @ js) acc = sample ks t js acc"
proof (induction "is")
  case (Cons i "is")
  then show ?case by (cases js) auto
qed simp



end
