(* ===== verification/Commands.thy ===== *)
theory Commands
  imports Keyspace Resp
begin

text \<open>
  The data commands of src/internal/engine/engine.go: the cases of \<open>dispatch\<close> and its handlers for
  keys, strings, hashes, lists, sets, sorted sets and streams.

  A handler takes the environment of the call (the readings of the cached clock, \<open>ev_now\<close> and, where
  it is read again, \<open>ev_later\<close>, the reading of the system clock \<open>ev_time\<close>, the random draws, the formatting and
  parsing of floating-point numbers and the pattern matcher, which belong to the standard library),
  the arguments and the keyspace. It returns the reply with the flag that tells whether the command
  counts as a write, or the run-time panic it raises, and the keyspace after it. An entry that the
  source updates through a pointer is stored back under its key. The table \<open>data_commands\<close> lists
  the handlers by command name.

  The lemmas show that every handler keeps the keyspace well formed and well typed, which of them
  can panic, which leave the data alone, and what the flag says.
\<close>

section \<open>Environment and replies\<close>

record env =
  ev_now :: int
  ev_later :: int
  ev_time :: int
  ev_draws :: "nat \<Rightarrow> nat list"
  ev_fmt64 :: "float64 \<Rightarrow> string"
  ev_parse64 :: "string \<Rightarrow> float64 option"
  ev_match :: "string \<Rightarrow> string \<Rightarrow> bool"
  ev_id_err :: "string \<Rightarrow> string"

text \<open>A handler that does not reply panics, or starts to wait, with the given limit in milliseconds.\<close>

datatype halt = Panics panic | Waits int

type_synonym result = "halt + Value \<times> bool"
type_synonym handler = "env \<Rightarrow> string list \<Rightarrow> Keyspace \<Rightarrow> result \<times> Keyspace"

definition reply :: "Value \<Rightarrow> bool \<Rightarrow> Keyspace \<Rightarrow> result \<times> Keyspace" where
  "reply v isWrite ks = (Inr (v, isWrite), ks)"

definition go_panic :: "panic \<Rightarrow> Keyspace \<Rightarrow> result \<times> Keyspace" where
  "go_panic p ks = (Inl (Panics p), ks)"

definition quoted :: "string \<Rightarrow> string" where
  "quoted s = [CHR 0x27] @ s @ [CHR 0x27]"

definition wrong_args :: "string \<Rightarrow> Value" where
  "wrong_args name = Error (''ERR wrong number of arguments for '' @ quoted name @ '' command'')"

definition bulk_array :: "string list \<Rightarrow> Value" where
  "bulk_array ss = Array (map BulkString ss)"

text \<open>
  The two ways a handler reaches the entry of a key. \<open>with_typed\<close> is a lookup with a default reply
  for a missing key or another type; \<open>with_created\<close> creates the entry and refuses another type.
\<close>

definition with_typed ::
  "env \<Rightarrow> string \<Rightarrow> EntryType \<Rightarrow> Value \<Rightarrow> (Entry \<Rightarrow> Keyspace \<Rightarrow> result \<times> Keyspace) \<Rightarrow> Keyspace \<Rightarrow> result \<times> Keyspace" where
  "with_typed ev key t dflt f ks =
     (case ks_Get (ev_now ev) key ks of
        (None, ks) \<Rightarrow> reply dflt False ks
      | (Some e, ks) \<Rightarrow> if en_Type e \<noteq> t then reply dflt False ks else f e ks)"

definition with_created ::
  "env \<Rightarrow> string \<Rightarrow> EntryType \<Rightarrow> any \<Rightarrow> (Entry \<Rightarrow> Keyspace \<Rightarrow> result \<times> Keyspace) \<Rightarrow> Keyspace \<Rightarrow> result \<times> Keyspace" where
  "with_created ev key t new f ks =
     (case GetOrCreate (ev_now ev) key t new ks of
        ((e, _), ks) \<Rightarrow> if en_Type e \<noteq> t then reply (Error WRONGTYPE) False ks else f e ks)"

definition store_value :: "string \<Rightarrow> Entry \<Rightarrow> any \<Rightarrow> Keyspace \<Rightarrow> Keyspace" where
  "store_value key e v ks = sh_put key (e\<lparr>en_Value := v\<rparr>) ks"

text \<open>The type assertions; a value of another type panics.\<close>

definition as_string :: "Entry \<Rightarrow> (string \<Rightarrow> result \<times> Keyspace) \<Rightarrow> Keyspace \<Rightarrow> result \<times> Keyspace" where
  "as_string e f ks = (case en_Value e of AString s \<Rightarrow> f s | _ \<Rightarrow> go_panic PanicTypeAssertion ks)"

definition as_hash :: "Entry \<Rightarrow> (ghash \<Rightarrow> result \<times> Keyspace) \<Rightarrow> Keyspace \<Rightarrow> result \<times> Keyspace" where
  "as_hash e f ks = (case en_Value e of AHash h \<Rightarrow> f h | _ \<Rightarrow> go_panic PanicTypeAssertion ks)"

definition as_list :: "Entry \<Rightarrow> (glist \<Rightarrow> result \<times> Keyspace) \<Rightarrow> Keyspace \<Rightarrow> result \<times> Keyspace" where
  "as_list e f ks = (case en_Value e of AList l \<Rightarrow> f l | _ \<Rightarrow> go_panic PanicTypeAssertion ks)"

definition as_set :: "Entry \<Rightarrow> (gset \<Rightarrow> result \<times> Keyspace) \<Rightarrow> Keyspace \<Rightarrow> result \<times> Keyspace" where
  "as_set e f ks = (case en_Value e of ASet s \<Rightarrow> f s | _ \<Rightarrow> go_panic PanicTypeAssertion ks)"

definition as_zset :: "Entry \<Rightarrow> (SkipList \<Rightarrow> result \<times> Keyspace) \<Rightarrow> Keyspace \<Rightarrow> result \<times> Keyspace" where
  "as_zset e f ks = (case en_Value e of AZSet z \<Rightarrow> f z | _ \<Rightarrow> go_panic PanicTypeAssertion ks)"

definition as_stream :: "Entry \<Rightarrow> (Stream \<Rightarrow> result \<times> Keyspace) \<Rightarrow> Keyspace \<Rightarrow> result \<times> Keyspace" where
  "as_stream e f ks = (case en_Value e of AStream s \<Rightarrow> f s | _ \<Rightarrow> go_panic PanicTypeAssertion ks)"

section \<open>Keys and strings\<close>

record set_opts =
  so_ttl :: int
  so_nx :: bool
  so_xx :: bool

text \<open>The option loop of \<open>handleSet\<close>.\<close>

fun parse_set_opts :: "string list \<Rightarrow> set_opts \<Rightarrow> Value + set_opts" where
  "parse_set_opts [] opts = Inr opts"
| "parse_set_opts (a # as) opts =
     (if ToUpper a = ''EX'' then
        (case as of
           [] \<Rightarrow> Inl (Error ''ERR syntax error'')
         | n # rest \<Rightarrow>
             (case ParseInt n of
                None \<Rightarrow> Inl (Error ERR_INT)
              | Some sec \<Rightarrow>
                  if sec \<le> 0 then Inl (Error ERR_INT)
                  else parse_set_opts rest (opts\<lparr>so_ttl := wrap64 (sec * 1000)\<rparr>)))
      else if ToUpper a = ''PX'' then
        (case as of
           [] \<Rightarrow> Inl (Error ''ERR syntax error'')
         | n # rest \<Rightarrow>
             (case ParseInt n of
                None \<Rightarrow> Inl (Error ERR_INT)
              | Some m \<Rightarrow>
                  if m \<le> 0 then Inl (Error ERR_INT) else parse_set_opts rest (opts\<lparr>so_ttl := m\<rparr>)))
      else if ToUpper a = ''NX'' then parse_set_opts as (opts\<lparr>so_nx := True\<rparr>)
      else if ToUpper a = ''XX'' then parse_set_opts as (opts\<lparr>so_xx := True\<rparr>)
      else parse_set_opts as opts)"

definition new_entry :: "EntryType \<Rightarrow> any \<Rightarrow> int \<Rightarrow> Entry" where
  "new_entry t v expiresAt =
     \<lparr>en_Type = t, en_Value = v, en_ExpiresAt = expiresAt, en_UpdatedAt = 0, en_LastAccessedAt = 0\<rparr>"

definition handleSet :: handler where
  "handleSet ev args ks =
     (case args of
        key # val # options \<Rightarrow>
          (case parse_set_opts options \<lparr>so_ttl = 0, so_nx = False, so_xx = False\<rparr> of
             Inl err \<Rightarrow> reply err False ks
           | Inr opts \<Rightarrow>
               (let (refused, ks) =
                      (if so_nx opts \<or> so_xx opts then
                         (case ks_Get (ev_now ev) key ks of
                            (e, ks) \<Rightarrow> (so_nx opts \<and> e \<noteq> None \<or> so_xx opts \<and> e = None, ks))
                       else (False, ks));
                    expiresAt = (if so_ttl opts > 0 then wrap64 (ev_now ev + so_ttl opts) else 0)
                in if refused then reply Null False ks
                   else reply (SimpleString ''OK'') True
                          (ks_Set (ev_now ev) key (new_entry TypeString (AString val) expiresAt) ks)))
      | _ \<Rightarrow> reply (wrong_args ''set'') False ks)"

definition cmd_GET :: handler where
  "cmd_GET ev args ks =
     (case args of
        key # _ \<Rightarrow>
          (case ks_Get (ev_now ev) key ks of
             (None, ks) \<Rightarrow> reply Null False ks
           | (Some e, ks) \<Rightarrow>
               if en_Type e \<noteq> TypeString then reply (Error WRONGTYPE) False ks
               else as_string e (\<lambda>s. reply (BulkString s) False ks) ks)
      | _ \<Rightarrow> reply (wrong_args ''get'') False ks)"

fun mset_loop :: "int \<Rightarrow> string list \<Rightarrow> Keyspace \<Rightarrow> Keyspace" where
  "mset_loop now (k # v # kvs) ks = mset_loop now kvs (ks_Set now k (new_entry TypeString (AString v) 0) ks)"
| "mset_loop now _ ks = ks"

definition cmd_MSET :: handler where
  "cmd_MSET ev args ks =
     (if length args < 2 \<or> length args mod 2 \<noteq> 0 then reply (wrong_args ''mset'') False ks
      else reply (SimpleString ''OK'') True (mset_loop (ev_now ev) args ks))"

text \<open>A value of type string that holds something else would panic, as in \<open>GET\<close>.\<close>

fun mget_loop :: "int \<Rightarrow> string list \<Rightarrow> Keyspace \<Rightarrow> (panic + Value list) \<times> Keyspace" where
  "mget_loop now [] ks = (Inr [], ks)"
| "mget_loop now (k # keys) ks =
     (case ks_Get now k ks of
        (r, ks) \<Rightarrow>
          (case (case r of
                   None \<Rightarrow> Inr Null
                 | Some e \<Rightarrow>
                     if en_Type e \<noteq> TypeString then Inr Null
                     else (case en_Value e of AString s \<Rightarrow> Inr (BulkString s) | _ \<Rightarrow> Inl PanicTypeAssertion)) of
             Inl p \<Rightarrow> (Inl p, ks)
           | Inr v \<Rightarrow>
               (case mget_loop now keys ks of
                  (Inl p, ks) \<Rightarrow> (Inl p, ks)
                | (Inr vs, ks) \<Rightarrow> (Inr (v # vs), ks))))"

definition cmd_MGET :: handler where
  "cmd_MGET ev args ks =
     (if args = [] then reply (wrong_args ''mget'') False ks
      else
        (case mget_loop (ev_now ev) args ks of
           (Inl p, ks) \<Rightarrow> go_panic p ks
         | (Inr vs, ks) \<Rightarrow> reply (Array vs) False ks))"

definition cmd_DEL :: handler where
  "cmd_DEL ev args ks =
     (if args = [] then reply (wrong_args ''del'') False ks
      else case ks_Delete args ks of (cnt, ks) \<Rightarrow> reply (Integer cnt) True ks)"

definition cmd_EXISTS :: handler where
  "cmd_EXISTS ev args ks =
     (if args = [] then reply (wrong_args ''exists'') False ks
      else case ks_Exists (ev_now ev) args ks of (cnt, ks) \<Rightarrow> reply (Integer cnt) False ks)"

definition cmd_TYPE :: handler where
  "cmd_TYPE ev args ks =
     (case args of
        key # _ \<Rightarrow>
          (case ks_Get (ev_now ev) key ks of
             (None, ks) \<Rightarrow> reply (SimpleString ''none'') False ks
           | (Some e, ks) \<Rightarrow> reply (SimpleString (type_name (en_Type e))) False ks)
      | _ \<Rightarrow> reply (wrong_args ''type'') False ks)"

definition handleIncrBy :: "int \<Rightarrow> handler" where
  "handleIncrBy delta ev args ks =
     (case args of
        key # _ \<Rightarrow>
          (case ks_IncrBy (ev_now ev) key delta ks of
             (Inl err, ks) \<Rightarrow> reply (Error err) False ks
           | (Inr n, ks) \<Rightarrow> reply (Integer n) True ks)
      | _ \<Rightarrow> reply (Error ''ERR wrong number of arguments for incr/decr command'') False ks)"

text \<open>\<open>INCRBY\<close> and \<open>DECRBY\<close>; the negated delta wraps round.\<close>

definition cmd_INCRBY :: "string \<Rightarrow> (int \<Rightarrow> int) \<Rightarrow> handler" where
  "cmd_INCRBY name f ev args ks =
     (case args of
        key # d # _ \<Rightarrow>
          (case ParseInt d of
             None \<Rightarrow> reply (Error ERR_INT) False ks
           | Some delta \<Rightarrow> handleIncrBy (f delta) ev [key] ks)
      | _ \<Rightarrow> reply (wrong_args name) False ks)"

definition cmd_APPEND :: handler where
  "cmd_APPEND ev args ks =
     (case args of
        key # val # _ \<Rightarrow>
          (case ks_Append (ev_now ev) key val ks of
             (Inl err, ks) \<Rightarrow> reply (Error err) False ks
           | (Inr n, ks) \<Rightarrow> reply (Integer n) True ks)
      | _ \<Rightarrow> reply (wrong_args ''append'') False ks)"

definition cmd_STRLEN :: handler where
  "cmd_STRLEN ev args ks =
     (case args of
        key # _ \<Rightarrow>
          (case ks_Get (ev_now ev) key ks of
             (None, ks) \<Rightarrow> reply (Integer 0) False ks
           | (Some e, ks) \<Rightarrow>
               if en_Type e \<noteq> TypeString then reply (Error WRONGTYPE) False ks
               else as_string e (\<lambda>s. reply (Integer (int (length s))) False ks) ks)
      | _ \<Rightarrow> reply (wrong_args ''strlen'') False ks)"

definition cmd_SETNX :: handler where
  "cmd_SETNX ev args ks =
     (case args of
        key # val # _ \<Rightarrow>
          (case SetNX (ev_now ev) key (new_entry TypeString (AString val) 0) ks of
             (True, ks) \<Rightarrow> reply (Integer 1) True ks
           | (False, ks) \<Rightarrow> reply (Integer 0) False ks)
      | _ \<Rightarrow> reply (wrong_args ''setnx'') False ks)"

text \<open>\<open>SETEX\<close> and \<open>PSETEX\<close> with their unit in milliseconds; they read the system clock.\<close>

definition cmd_SETEX :: "string \<Rightarrow> int \<Rightarrow> handler" where
  "cmd_SETEX name unit' ev args ks =
     (case args of
        key # n # val # _ \<Rightarrow>
          (case ParseInt n of
             None \<Rightarrow> reply (Error (''ERR invalid expire time in '' @ quoted name @ '' command'')) False ks
           | Some m \<Rightarrow>
               if m \<le> 0 then
                 reply (Error (''ERR invalid expire time in '' @ quoted name @ '' command'')) False ks
               else
                 reply (SimpleString ''OK'') True
                   (ks_Set (ev_now ev) key
                      (new_entry TypeString (AString val) (wrap64 (ev_time ev + wrap64 (m * unit')))) ks))
      | _ \<Rightarrow> reply (wrong_args name) False ks)"

definition cmd_EXPIRE :: "string \<Rightarrow> int \<Rightarrow> handler" where
  "cmd_EXPIRE name unit' ev args ks =
     (case args of
        key # n # _ \<Rightarrow>
          (case ParseInt n of
             None \<Rightarrow> reply (Error ERR_INT) False ks
           | Some m \<Rightarrow>
               (case ks_Expire (ev_now ev) key (wrap64 (m * unit')) ks of
                  (True, ks) \<Rightarrow> reply (Integer 1) True ks
                | (False, ks) \<Rightarrow> reply (Integer 0) False ks))
      | _ \<Rightarrow> reply (wrong_args name) False ks)"

definition cmd_TTL :: handler where
  "cmd_TTL ev args ks =
     (case args of
        key # _ \<Rightarrow> (case ks_TTL (ev_now ev) (ev_later ev) key ks of (n, ks) \<Rightarrow> reply (Integer n) False ks)
      | _ \<Rightarrow> reply (wrong_args ''ttl'') False ks)"

definition cmd_PTTL :: handler where
  "cmd_PTTL ev args ks =
     (case args of
        key # _ \<Rightarrow> (case ks_PTTL (ev_now ev) (ev_later ev) key ks of (n, ks) \<Rightarrow> reply (Integer n) False ks)
      | _ \<Rightarrow> reply (wrong_args ''pttl'') False ks)"

definition cmd_PERSIST :: handler where
  "cmd_PERSIST ev args ks =
     (case args of
        key # _ \<Rightarrow>
          (case ks_Persist (ev_now ev) key ks of
             (True, ks) \<Rightarrow> reply (Integer 1) True ks
           | (False, ks) \<Rightarrow> reply (Integer 0) False ks)
      | _ \<Rightarrow> reply (wrong_args ''persist'') False ks)"

definition cmd_KEYS :: handler where
  "cmd_KEYS ev args ks =
     (let pattern = (case args of [] \<Rightarrow> ''*'' | p # _ \<Rightarrow> p)
      in reply (bulk_array (ks_Keys (ev_match ev) (ev_time ev) pattern ks)) False ks)"

definition cmd_DBSIZE :: handler where
  "cmd_DBSIZE ev args ks = reply (Integer (TotalKeys ks)) False ks"

definition cmd_FLUSHDB :: handler where
  "cmd_FLUSHDB ev args ks = reply (SimpleString ''OK'') True (FlushDB ks)"

section \<open>Hashes\<close>

fun hset_loop :: "string list \<Rightarrow> ghash \<Rightarrow> int \<times> ghash" where
  "hset_loop (f # v # fvs) h =
     (let (a, h1) = Hash_Set f v h; (b, h2) = hset_loop fvs h1 in (a + b, h2))"
| "hset_loop _ h = (0, h)"

definition odd_args :: "string list \<Rightarrow> bool" where
  "odd_args args \<longleftrightarrow> length args < 3 \<or> (length args - 1) mod 2 \<noteq> 0"

definition handleHSet :: handler where
  "handleHSet ev args ks =
     (if odd_args args then reply (wrong_args ''hset'') False ks
      else
        let key = hd args in
        with_created ev key TypeHash (AHash NewHash)
          (\<lambda>e ks. as_hash e (\<lambda>h. case hset_loop (tl args) h of
             (added, h) \<Rightarrow> reply (Integer added) True (store_value key e (AHash h) ks)) ks) ks)"

fun pair_map :: "string list \<Rightarrow> (string, string) gomap \<Rightarrow> (string, string) gomap" where
  "pair_map (f # v # fvs) m = pair_map fvs (gput f v m)"
| "pair_map _ m = m"

definition handleHMSet :: handler where
  "handleHMSet ev args ks =
     (if odd_args args then reply (wrong_args ''hmset'') False ks
      else
        let key = hd args in
        with_created ev key TypeHash (AHash NewHash)
          (\<lambda>e ks. as_hash e (\<lambda>h. case Hash_MSet (pair_map (tl args) []) h of
             (_, h) \<Rightarrow> reply (SimpleString ''OK'') True (store_value key e (AHash h) ks)) ks) ks)"

definition cmd_HGET :: handler where
  "cmd_HGET ev args ks =
     (case args of
        key # fld # _ \<Rightarrow>
          (case ks_Get (ev_now ev) key ks of
             (None, ks) \<Rightarrow> reply Null False ks
           | (Some e, ks) \<Rightarrow>
               if en_Type e \<noteq> TypeHash then reply (Error WRONGTYPE) False ks
               else as_hash e (\<lambda>h. case Hash_Get fld h of
                      None \<Rightarrow> reply Null False ks
                    | Some v \<Rightarrow> reply (BulkString v) False ks) ks)
      | _ \<Rightarrow> reply (wrong_args ''hget'') False ks)"

definition cmd_HMGET :: handler where
  "cmd_HMGET ev args ks =
     (case args of
        key # fld # flds \<Rightarrow>
          with_typed ev key TypeHash (Array (map (\<lambda>_. Null) (fld # flds)))
            (\<lambda>e ks. as_hash e (\<lambda>h. reply
               (Array (map (\<lambda>f. case Hash_Get f h of Some v \<Rightarrow> BulkString v | None \<Rightarrow> Null) (fld # flds)))
               False ks) ks) ks
      | _ \<Rightarrow> reply (wrong_args ''hmget'') False ks)"

definition cmd_HDEL :: handler where
  "cmd_HDEL ev args ks =
     (case args of
        key # fld # flds \<Rightarrow>
          with_typed ev key TypeHash (Integer 0)
            (\<lambda>e ks. as_hash e (\<lambda>h. case Hash_Del (fld # flds) h of
               (cnt, h) \<Rightarrow> reply (Integer cnt) True (store_value key e (AHash h) ks)) ks) ks
      | _ \<Rightarrow> reply (wrong_args ''hdel'') False ks)"

definition cmd_HEXISTS :: handler where
  "cmd_HEXISTS ev args ks =
     (case args of
        key # fld # _ \<Rightarrow>
          with_typed ev key TypeHash (Integer 0)
            (\<lambda>e ks. as_hash e (\<lambda>h. reply (Integer (if Hash_Exists fld h then 1 else 0)) False ks) ks) ks
      | _ \<Rightarrow> reply (wrong_args ''hexists'') False ks)"

text \<open>\<open>HLEN\<close>, \<open>HKEYS\<close>, \<open>HVALS\<close> and \<open>HGETALL\<close> differ in what they read of the hash.\<close>

definition cmd_hash_read :: "string \<Rightarrow> Value \<Rightarrow> (ghash \<Rightarrow> Value) \<Rightarrow> handler" where
  "cmd_hash_read name dflt f ev args ks =
     (case args of
        key # _ \<Rightarrow>
          with_typed ev key TypeHash dflt (\<lambda>e ks. as_hash e (\<lambda>h. reply (f h) False ks) ks) ks
      | _ \<Rightarrow> reply (wrong_args name) False ks)"

definition cmd_HLEN :: handler where
  "cmd_HLEN = cmd_hash_read ''hlen'' (Integer 0) (\<lambda>h. Integer (Hash_Len h))"

definition cmd_HKEYS :: handler where
  "cmd_HKEYS = cmd_hash_read ''hkeys'' (Array []) (\<lambda>h. bulk_array (Hash_Keys h))"

definition cmd_HVALS :: handler where
  "cmd_HVALS = cmd_hash_read ''hvals'' (Array []) (\<lambda>h. bulk_array (Hash_Vals h))"

definition cmd_HGETALL :: handler where
  "cmd_HGETALL = cmd_hash_read ''hgetall'' (Array []) (\<lambda>h. bulk_array (flat_pairs (Hash_GetAll h)))"

definition cmd_HINCRBY :: handler where
  "cmd_HINCRBY ev args ks =
     (case args of
        key # fld # d # _ \<Rightarrow>
          (case ParseInt d of
             None \<Rightarrow> reply (Error ERR_INT) False ks
           | Some delta \<Rightarrow>
               with_created ev key TypeHash (AHash NewHash)
                 (\<lambda>e ks. as_hash e (\<lambda>h. case Hash_IncrBy fld delta h of
                    (None, h) \<Rightarrow> reply (Error ''ERR hash value is not an integer'') False (store_value key e (AHash h) ks)
                  | (Some n, h) \<Rightarrow> reply (Integer n) True (store_value key e (AHash h) ks)) ks) ks)
      | _ \<Rightarrow> reply (wrong_args ''hincrby'') False ks)"

section \<open>Lists\<close>

text \<open>\<open>LPUSH\<close> and \<open>RPUSH\<close>.\<close>

definition cmd_PUSH :: "string \<Rightarrow> (string list \<Rightarrow> glist \<Rightarrow> int \<times> glist) \<Rightarrow> handler" where
  "cmd_PUSH name push ev args ks =
     (case args of
        key # v # vs \<Rightarrow>
          with_created ev key TypeList (AList NewList)
            (\<lambda>e ks. as_list e (\<lambda>l. case push (v # vs) l of
               (n, l) \<Rightarrow> reply (Integer n) True (store_value key e (AList l) ks)) ks) ks
      | _ \<Rightarrow> reply (wrong_args name) False ks)"

text \<open>\<open>LPOP\<close> and \<open>RPOP\<close>; a negative count panics in the list.\<close>

definition cmd_POP :: "string \<Rightarrow> (int \<Rightarrow> glist \<Rightarrow> panic + string list option \<times> glist) \<Rightarrow> handler" where
  "cmd_POP name pop ev args ks =
     (case args of
        key # rest \<Rightarrow>
          with_typed ev key TypeList Null
            (\<lambda>e ks.
               case (case rest of [] \<Rightarrow> Some 1 | n # _ \<Rightarrow> Atoi n) of
                 None \<Rightarrow> reply (Error ERR_INT) False ks
               | Some cnt \<Rightarrow>
                   as_list e (\<lambda>l. case pop cnt l of
                      Inl p \<Rightarrow> go_panic p ks
                    | Inr (None, l) \<Rightarrow> reply Null False (store_value key e (AList l) ks)
                    | Inr (Some items, l) \<Rightarrow>
                        (let ks = store_value key e (AList l) ks in
                         if rest = [] then reply (BulkString (hd items)) True ks
                         else reply (bulk_array items) True ks)) ks) ks
      | _ \<Rightarrow> reply (wrong_args name) False ks)"

definition cmd_LRANGE :: handler where
  "cmd_LRANGE ev args ks =
     (case args of
        key # a # b # _ \<Rightarrow>
          with_typed ev key TypeList (Array [])
            (\<lambda>e ks. case (ParseInt a, ParseInt b) of
               (Some start, Some stop) \<Rightarrow>
                 as_list e (\<lambda>l. reply (bulk_array (List_Range start stop l)) False ks) ks
             | _ \<Rightarrow> reply (Error ERR_INT) False ks) ks
      | _ \<Rightarrow> reply (wrong_args ''lrange'') False ks)"

definition cmd_LLEN :: handler where
  "cmd_LLEN ev args ks =
     (case args of
        key # _ \<Rightarrow>
          with_typed ev key TypeList (Integer 0)
            (\<lambda>e ks. as_list e (\<lambda>l. reply (Integer (List_Len l)) False ks) ks) ks
      | _ \<Rightarrow> reply (wrong_args ''llen'') False ks)"

definition cmd_LINDEX :: handler where
  "cmd_LINDEX ev args ks =
     (case args of
        key # a # _ \<Rightarrow>
          with_typed ev key TypeList Null
            (\<lambda>e ks. case ParseInt a of
               None \<Rightarrow> reply (Error ERR_INT) False ks
             | Some idx \<Rightarrow>
                 as_list e (\<lambda>l. case List_Index idx l of
                    None \<Rightarrow> reply Null False ks
                  | Some v \<Rightarrow> reply (BulkString v) False ks) ks) ks
      | _ \<Rightarrow> reply (wrong_args ''lindex'') False ks)"

section \<open>Sets\<close>

definition cmd_SADD :: handler where
  "cmd_SADD ev args ks =
     (case args of
        key # m # ms \<Rightarrow>
          with_created ev key TypeSet (ASet NewSet)
            (\<lambda>e ks. as_set e (\<lambda>s. case Set_Add (m # ms) s of
               (added, s) \<Rightarrow> reply (Integer added) True (store_value key e (ASet s) ks)) ks) ks
      | _ \<Rightarrow> reply (wrong_args ''sadd'') False ks)"

definition cmd_SREM :: handler where
  "cmd_SREM ev args ks =
     (case args of
        key # m # ms \<Rightarrow>
          with_typed ev key TypeSet (Integer 0)
            (\<lambda>e ks. as_set e (\<lambda>s. case Set_Rem (m # ms) s of
               (removed, s) \<Rightarrow> reply (Integer removed) True (store_value key e (ASet s) ks)) ks) ks
      | _ \<Rightarrow> reply (wrong_args ''srem'') False ks)"

definition cmd_SMEMBERS :: handler where
  "cmd_SMEMBERS ev args ks =
     (case args of
        key # _ \<Rightarrow>
          with_typed ev key TypeSet (Array [])
            (\<lambda>e ks. as_set e (\<lambda>s. reply (bulk_array (Members s)) False ks) ks) ks
      | _ \<Rightarrow> reply (wrong_args ''smembers'') False ks)"

definition cmd_SISMEMBER :: handler where
  "cmd_SISMEMBER ev args ks =
     (case args of
        key # m # _ \<Rightarrow>
          with_typed ev key TypeSet (Integer 0)
            (\<lambda>e ks. as_set e (\<lambda>s. reply (Integer (if IsMember m s then 1 else 0)) False ks) ks) ks
      | _ \<Rightarrow> reply (wrong_args ''sismember'') False ks)"

definition cmd_SCARD :: handler where
  "cmd_SCARD ev args ks =
     (case args of
        key # _ \<Rightarrow>
          with_typed ev key TypeSet (Integer 0)
            (\<lambda>e ks. as_set e (\<lambda>s. reply (Integer (Card s)) False ks) ks) ks
      | _ \<Rightarrow> reply (wrong_args ''scard'') False ks)"

section \<open>Sorted sets\<close>

text \<open>The loop of \<open>handleZAdd\<close>: the members before an invalid score stay inserted.\<close>

fun zadd_loop :: "env \<Rightarrow> nat \<Rightarrow> string list \<Rightarrow> SkipList \<Rightarrow> int option \<times> SkipList" where
  "zadd_loop ev i (sc # m # rest) z =
     (case ev_parse64 ev sc of
        None \<Rightarrow> (None, z)
      | Some score \<Rightarrow>
          (let a = (if GetScore m z = None then 1 else 0);
               z = sl_Insert (randomLevel (ev_draws ev i)) score m z
           in case zadd_loop ev (Suc i) rest z of
                (None, z) \<Rightarrow> (None, z)
              | (Some b, z) \<Rightarrow> (Some (a + b), z)))"
| "zadd_loop ev i _ z = (Some 0, z)"

definition handleZAdd :: handler where
  "handleZAdd ev args ks =
     (if odd_args args then reply (wrong_args ''zadd'') False ks
      else
        let key = hd args in
        with_created ev key TypeZSet (AZSet NewSkipList)
          (\<lambda>e ks. as_zset e (\<lambda>z. case zadd_loop ev 0 (tl args) z of
             (None, z) \<Rightarrow> reply (Error ''ERR value is not a valid float'') False (store_value key e (AZSet z) ks)
           | (Some added, z) \<Rightarrow> reply (Integer added) True (store_value key e (AZSet z) ks)) ks) ks)"

definition cmd_ZSCORE :: handler where
  "cmd_ZSCORE ev args ks =
     (case args of
        key # m # _ \<Rightarrow>
          with_typed ev key TypeZSet Null
            (\<lambda>e ks. as_zset e (\<lambda>z. case GetScore m z of
               None \<Rightarrow> reply Null False ks
             | Some score \<Rightarrow> reply (BulkString (ev_fmt64 ev score)) False ks) ks) ks
      | _ \<Rightarrow> reply (wrong_args ''zscore'') False ks)"

definition cmd_ZRANK :: handler where
  "cmd_ZRANK ev args ks =
     (case args of
        key # m # _ \<Rightarrow>
          with_typed ev key TypeZSet Null
            (\<lambda>e ks. as_zset e (\<lambda>z. let rank = GetRank m z in
               if rank < 0 then reply Null False ks else reply (Integer rank) False ks) ks) ks
      | _ \<Rightarrow> reply (wrong_args ''zrank'') False ks)"

definition handleZRange :: "bool \<Rightarrow> handler" where
  "handleZRange reverse ev args ks =
     (case args of
        key # a # b # rest \<Rightarrow>
          with_typed ev key TypeZSet (Array [])
            (\<lambda>e ks. case (ParseInt a, ParseInt b) of
               (Some start, Some stop) \<Rightarrow>
                 (let withScores = (case rest of o' # _ \<Rightarrow> ToUpper o' = ''WITHSCORES'' | [] \<Rightarrow> False) in
                  as_zset e (\<lambda>z. reply
                    (Array (concat (map (\<lambda>(m, sc).
                       if withScores then [BulkString m, BulkString (ev_fmt64 ev sc)] else [BulkString m])
                       (sl_Range start stop reverse z)))) False ks) ks)
             | _ \<Rightarrow> reply (Error ERR_INT) False ks) ks
      | _ \<Rightarrow> reply (wrong_args ''zrange'') False ks)"

fun zrem_loop :: "string list \<Rightarrow> SkipList \<Rightarrow> int \<times> SkipList" where
  "zrem_loop [] z = (0, z)"
| "zrem_loop (m # ms) z =
     (let (d, z1) = sl_Delete m z; (n, z2) = zrem_loop ms z1 in (if d then n + 1 else n, z2))"

definition cmd_ZREM :: handler where
  "cmd_ZREM ev args ks =
     (case args of
        key # m # ms \<Rightarrow>
          with_typed ev key TypeZSet (Integer 0)
            (\<lambda>e ks. as_zset e (\<lambda>z. case zrem_loop (m # ms) z of
               (n, z) \<Rightarrow> reply (Integer n) True (store_value key e (AZSet z) ks)) ks) ks
      | _ \<Rightarrow> reply (wrong_args ''zrem'') False ks)"

definition cmd_ZCARD :: handler where
  "cmd_ZCARD ev args ks =
     (case args of
        key # _ \<Rightarrow>
          with_typed ev key TypeZSet (Integer 0)
            (\<lambda>e ks. as_zset e (\<lambda>z. reply (Integer (sl_Length z)) False ks) ks) ks
      | _ \<Rightarrow> reply (wrong_args ''zcard'') False ks)"

section \<open>Streams\<close>

fun stream_err_text :: "env \<Rightarrow> string \<Rightarrow> stream_err \<Rightarrow> string" where
  "stream_err_text ev ident ErrInvalidStreamID =
     ''ERR The ID specified in XADD is equal or smaller than the target stream top item''"
| "stream_err_text ev ident ErrGroupExists = ''BUSYGROUP Consumer Group name already exists''"
| "stream_err_text ev ident ErrGroupNotFound = ''NOGROUP No such consumer group for key name''"
| "stream_err_text ev ident ErrStreamIDFormat = ev_id_err ev ident"

definition stream_entry_value :: "StreamEntry \<Rightarrow> Value" where
  "stream_entry_value en =
     Array [BulkString (se_ID en),
            Array (concat (map (\<lambda>f. [BulkString f,
              BulkString (case gget (se_Fields en) f of Some v \<Rightarrow> v | None \<Rightarrow> [])]) (se_Order en)))]"

text \<open>Every other argument, starting with the first.\<close>

fun evens :: "string list \<Rightarrow> string list" where
  "evens (f # v # fvs) = f # evens fvs"
| "evens _ = []"

text \<open>The part of \<open>handleXAdd\<close> after the options.\<close>

definition xadd_entry :: "env \<Rightarrow> string \<Rightarrow> int \<Rightarrow> string \<Rightarrow> string list \<Rightarrow> Keyspace \<Rightarrow> result \<times> Keyspace" where
  "xadd_entry ev key maxlen idArg fieldsList ks =
     (if fieldsList = [] \<or> length fieldsList mod 2 \<noteq> 0 then reply (wrong_args ''xadd'') False ks
      else
        let add = (\<lambda>e ks. as_stream e (\<lambda>s.
              case Stream_Add (ev_time ev) idArg (pair_map fieldsList []) (evens fieldsList) s of
                Inl err \<Rightarrow> reply (Error (stream_err_text ev idArg err)) False ks
              | Inr (assignedID, s) \<Rightarrow>
                  (let s = (if maxlen \<ge> 0 then snd (Stream_Trim maxlen s) else s)
                   in reply (BulkString assignedID) True (store_value key e (AStream s) ks))) ks)
        in case ks_Get (ev_now ev) key ks of
             (None, ks) \<Rightarrow>
               (let e = new_entry TypeStream (AStream NewStream) 0; ks = ks_Set (ev_now ev) key e ks
                in add (touch (ev_now ev) e) ks)
           | (Some e, ks) \<Rightarrow>
               if en_Type e \<noteq> TypeStream then reply (Error WRONGTYPE) False ks else add e ks)"

definition handleXAdd :: handler where
  "handleXAdd ev args ks =
     (if length args < 4 then reply (wrong_args ''xadd'') False ks
      else
        let key = hd args; rest = tl args in
        if ToUpper (hd rest) = ''MAXLEN'' then
          (let rest = tl rest; rest = (if rest \<noteq> [] \<and> hd rest = ''~'' then tl rest else rest) in
           case rest of
             [] \<Rightarrow> reply (Error ''ERR syntax error'') False ks
           | n # rest \<Rightarrow>
               (case ParseInt n of
                  None \<Rightarrow> reply (Error ERR_INT) False ks
                | Some ml \<Rightarrow>
                    (case rest of
                       [] \<Rightarrow> reply (wrong_args ''xadd'') False ks
                     | idArg # fieldsList \<Rightarrow> xadd_entry ev key ml idArg fieldsList ks)))
        else xadd_entry ev key (- 1) (hd rest) (tl rest) ks)"

definition count_option :: "string list \<Rightarrow> int" where
  "count_option rest =
     (case rest of
        o' # n # _ \<Rightarrow> if ToUpper o' = ''COUNT'' then (case ParseInt n of Some c \<Rightarrow> c | None \<Rightarrow> - 1) else - 1
      | _ \<Rightarrow> - 1)"

text \<open>\<open>handleXRange\<close> and \<open>handleXRevRange\<close>.\<close>

definition handleXRange :: handler where
  "handleXRange ev args ks =
     (case args of
        key # start # stop # rest \<Rightarrow>
          with_typed ev key TypeStream (Array [])
            (\<lambda>e ks. as_stream e (\<lambda>s. reply
               (Array (map stream_entry_value (Stream_Range start stop (count_option rest) s))) False ks) ks) ks
      | _ \<Rightarrow> reply (wrong_args ''xrange'') False ks)"

definition handleXRevRange :: handler where
  "handleXRevRange ev args ks =
     (case args of
        key # stop # start # rest \<Rightarrow>
          with_typed ev key TypeStream (Array [])
            (\<lambda>e ks. as_stream e (\<lambda>s. reply
               (Array (map stream_entry_value (Stream_RevRange stop start (count_option rest) s))) False ks) ks) ks
      | _ \<Rightarrow> reply (wrong_args ''xrevrange'') False ks)"

definition cmd_XLEN :: handler where
  "cmd_XLEN ev args ks =
     (case args of
        key # _ \<Rightarrow>
          with_typed ev key TypeStream (Integer 0)
            (\<lambda>e ks. as_stream e (\<lambda>s. reply (Integer (Stream_Len s)) False ks) ks) ks
      | _ \<Rightarrow> reply (wrong_args ''xlen'') False ks)"

definition handleXDel :: handler where
  "handleXDel ev args ks =
     (case args of
        key # i # is \<Rightarrow>
          with_typed ev key TypeStream (Integer 0)
            (\<lambda>e ks. as_stream e (\<lambda>s. case Stream_Delete (i # is) s of
               (n, s) \<Rightarrow> reply (Integer n) True (store_value key e (AStream s) ks)) ks) ks
      | _ \<Rightarrow> reply (wrong_args ''xdel'') False ks)"

definition handleXTrim :: handler where
  "handleXTrim ev args ks =
     (case args of
        key # m # a # rest \<Rightarrow>
          if ToUpper m \<noteq> ''MAXLEN'' then reply (Error ''ERR syntax error, expected MAXLEN'') False ks
          else
            (case (if a = ''~'' then rest else a # rest) of
               [] \<Rightarrow> reply (Error ''ERR syntax error'') False ks
             | n # _ \<Rightarrow>
                 (case ParseInt n of
                    None \<Rightarrow> reply (Error ERR_INT) False ks
                  | Some cnt \<Rightarrow>
                      with_typed ev key TypeStream (Integer 0)
                        (\<lambda>e ks. as_stream e (\<lambda>s. case Stream_Trim cnt s of
                           (n, s) \<Rightarrow> reply (Integer n) True (store_value key e (AStream s) ks)) ks) ks))
      | _ \<Rightarrow> reply (wrong_args ''xtrim'') False ks)"

subsection \<open>Reading\<close>

record read_opts =
  ro_count :: int
  ro_block :: int
  ro_noack :: bool

text \<open>The option loop up to \<open>STREAMS\<close>; a group read (\<open>grp\<close>) allows \<open>NOACK\<close>.\<close>

fun parse_read_opts :: "bool \<Rightarrow> string list \<Rightarrow> read_opts \<Rightarrow> read_opts \<times> string list option" where
  "parse_read_opts grp [] opts = (opts, None)"
| "parse_read_opts grp (a # as) opts =
     (if ToUpper a = ''COUNT'' \<and> as \<noteq> [] then
        parse_read_opts grp (tl as)
          (case ParseInt (hd as) of Some c \<Rightarrow> opts\<lparr>ro_count := c\<rparr> | None \<Rightarrow> opts)
      else if ToUpper a = ''BLOCK'' \<and> as \<noteq> [] then
        parse_read_opts grp (tl as)
          (case ParseInt (hd as) of Some b \<Rightarrow> opts\<lparr>ro_block := b\<rparr> | None \<Rightarrow> opts)
      else if grp \<and> ToUpper a = ''NOACK'' then parse_read_opts grp as (opts\<lparr>ro_noack := True\<rparr>)
      else if ToUpper a = ''STREAMS'' then (opts, Some as)
      else parse_read_opts grp as opts)"

text \<open>The identifiers to read from: \<open>$\<close> is the last one of the stream.\<close>

fun actual_ids :: "int \<Rightarrow> (string \<times> string) list \<Rightarrow> Keyspace \<Rightarrow> (panic + string list) \<times> Keyspace" where
  "actual_ids now [] ks = (Inr [], ks)"
| "actual_ids now ((key, ident) # kis) ks =
     (if ident = ''$'' then
        (case ks_Get now key ks of
           (r, ks) \<Rightarrow>
             (case (case r of
                      None \<Rightarrow> Inr ''0-0''
                    | Some e \<Rightarrow>
                        if en_Type e = TypeStream then
                          (case en_Value e of AStream s \<Rightarrow> Inr (Stream_LastID s) | _ \<Rightarrow> Inl PanicTypeAssertion)
                        else Inr ''0-0'') of
                Inl p \<Rightarrow> (Inl p, ks)
              | Inr i \<Rightarrow>
                  (case actual_ids now kis ks of
                     (Inl p, ks) \<Rightarrow> (Inl p, ks)
                   | (Inr is, ks) \<Rightarrow> (Inr (i # is), ks))))
      else
        (case actual_ids now kis ks of
           (Inl p, ks) \<Rightarrow> (Inl p, ks)
         | (Inr is, ks) \<Rightarrow> (Inr (ident # is), ks)))"

text \<open>The closure \<open>readOnce\<close> of \<open>handleXRead\<close>.\<close>

fun read_once :: "int \<Rightarrow> int \<Rightarrow> (string \<times> string) list \<Rightarrow> Keyspace \<Rightarrow> (panic + Value list) \<times> Keyspace" where
  "read_once now cnt [] ks = (Inr [], ks)"
| "read_once now cnt ((key, lastID) # kis) ks =
     (case ks_Get now key ks of
        (r, ks) \<Rightarrow>
          (case (case r of
                   None \<Rightarrow> Inr []
                 | Some e \<Rightarrow>
                     if en_Type e \<noteq> TypeStream then Inr []
                     else
                       (case en_Value e of
                          AStream s \<Rightarrow>
                            (let entries = Stream_Read lastID cnt s in
                             if entries = [] then Inr []
                             else Inr [Array [BulkString key, Array (map stream_entry_value entries)]])
                        | _ \<Rightarrow> Inl PanicTypeAssertion)) of
             Inl p \<Rightarrow> (Inl p, ks)
           | Inr vs \<Rightarrow>
               (case read_once now cnt kis ks of
                  (Inl p, ks) \<Rightarrow> (Inl p, ks)
                | (Inr ws, ks) \<Rightarrow> (Inr (vs @ ws), ks))))"

text \<open>
  \<open>handleXRead\<close> up to the point where it waits, with \<open>BLOCK\<close> and nothing to read. From there the
  source polls: \<open>xread_poll\<close> is one round, which ends the wait with a reply when there is something
  to read or the deadline has passed (\<open>late\<close>).
\<close>

definition handleXRead :: handler where
  "handleXRead ev args ks =
     (case parse_read_opts False args \<lparr>ro_count = - 1, ro_block = - 1, ro_noack = False\<rparr> of
        (opts, None) \<Rightarrow> reply (Error (''ERR syntax error, missing STREAMS in '' @ quoted ''xread'')) False ks
      | (opts, Some remaining) \<Rightarrow>
          if length remaining < 2 \<or> length remaining mod 2 \<noteq> 0 then
            reply (Error ''ERR Unbalanced XREAD list of streams: for each stream key an ID must be specified'') False ks
          else
            let n = length remaining div 2; keys = take n remaining; ids = drop n remaining in
            case actual_ids (ev_now ev) (zip keys ids) ks of
              (Inl p, ks) \<Rightarrow> go_panic p ks
            | (Inr ids, ks) \<Rightarrow>
                (case read_once (ev_now ev) (ro_count opts) (zip keys ids) ks of
                   (Inl p, ks) \<Rightarrow> go_panic p ks
                 | (Inr results, ks) \<Rightarrow>
                     if results \<noteq> [] then reply (Array results) False ks
                     else if ro_block opts < 0 then reply NullArray False ks
                     else (Inl (Waits (ro_block opts)), ks)))"

definition xread_poll ::
  "env \<Rightarrow> int \<Rightarrow> int \<Rightarrow> bool \<Rightarrow> (string \<times> string) list \<Rightarrow> Keyspace \<Rightarrow> (panic + Value option) \<times> Keyspace" where
  "xread_poll ev cnt blockMs late kis ks =
     (case read_once (ev_now ev) cnt kis ks of
        (Inl p, ks) \<Rightarrow> (Inl p, ks)
      | (Inr results, ks) \<Rightarrow>
          if results \<noteq> [] then (Inr (Some (Array results)), ks)
          else if blockMs > 0 \<and> late then (Inr (Some NullArray), ks)
          else (Inr None, ks))"

subsection \<open>Consumer groups\<close>

definition XGROUP_NOKEY :: string where
  "XGROUP_NOKEY = ''ERR The XGROUP subcommand requires the key to exist. Note that for CREATE you can specify MKSTREAM to create an empty stream automatically.''"

definition xgroup_create :: handler where
  "xgroup_create ev args ks =
     (case args of
        key # grp # ident # rest \<Rightarrow>
          (let mkstream = (case rest of o' # _ \<Rightarrow> ToUpper o' = ''MKSTREAM'' | [] \<Rightarrow> False);
               create = (\<lambda>e ks. as_stream e (\<lambda>s. case CreateGroup grp ident s of
                  (Some err, s) \<Rightarrow> reply (Error (stream_err_text ev ident err)) False ks
                | (None, s) \<Rightarrow> reply (SimpleString ''OK'') True (store_value key e (AStream s) ks)) ks)
           in case ks_Get (ev_now ev) key ks of
                (None, ks) \<Rightarrow>
                  if \<not> mkstream then reply (Error XGROUP_NOKEY) False ks
                  else
                    (let e = new_entry TypeStream (AStream NewStream) 0; ks = ks_Set (ev_now ev) key e ks
                     in create (touch (ev_now ev) e) ks)
              | (Some e, ks) \<Rightarrow>
                  if en_Type e \<noteq> TypeStream then reply (Error WRONGTYPE) False ks else create e ks)
      | _ \<Rightarrow> reply (wrong_args ''xgroup create'') False ks)"

definition xgroup_destroy :: handler where
  "xgroup_destroy ev args ks =
     (case args of
        key # grp # _ \<Rightarrow>
          with_typed ev key TypeStream (Integer 0)
            (\<lambda>e ks. as_stream e (\<lambda>s. case DestroyGroup grp s of
               (True, s) \<Rightarrow> reply (Integer 1) True (store_value key e (AStream s) ks)
             | (False, s) \<Rightarrow> reply (Integer 0) False ks) ks) ks
      | _ \<Rightarrow> reply (wrong_args ''xgroup destroy'') False ks)"

definition xgroup_setid :: handler where
  "xgroup_setid ev args ks =
     (case args of
        key # grp # ident # _ \<Rightarrow>
          with_typed ev key TypeStream (Error ''ERR no such key'')
            (\<lambda>e ks. as_stream e (\<lambda>s. case SetGroupID grp ident s of
               (Some err, s) \<Rightarrow> reply (Error (stream_err_text ev ident err)) False ks
             | (None, s) \<Rightarrow> reply (SimpleString ''OK'') True (store_value key e (AStream s) ks)) ks) ks
      | _ \<Rightarrow> reply (wrong_args ''xgroup setid'') False ks)"

definition xgroup_delconsumer :: handler where
  "xgroup_delconsumer ev args ks =
     (case args of
        key # grp # consumer # _ \<Rightarrow>
          with_typed ev key TypeStream (Integer 0)
            (\<lambda>e ks. as_stream e (\<lambda>s. case DeleteConsumer grp consumer s of
               (n, s) \<Rightarrow> reply (Integer n) True (store_value key e (AStream s) ks)) ks) ks
      | _ \<Rightarrow> reply (wrong_args ''xgroup delconsumer'') False ks)"

definition handleXGroup :: handler where
  "handleXGroup ev args ks =
     (if length args < 2 then reply (wrong_args ''xgroup'') False ks
      else
        let subCmd = ToUpper (hd args) in
        if subCmd = ''CREATE'' then xgroup_create ev (tl args) ks
        else if subCmd = ''DESTROY'' then xgroup_destroy ev (tl args) ks
        else if subCmd = ''SETID'' then xgroup_setid ev (tl args) ks
        else if subCmd = ''DELCONSUMER'' then xgroup_delconsumer ev (tl args) ks
        else reply (Error (''ERR unknown XGROUP subcommand '' @ quoted subCmd)) False ks)"

text \<open>The closure \<open>readOnce\<close> of \<open>handleXReadGroup\<close>; a missing group ends it with an error.\<close>

fun read_group_once ::
  "env \<Rightarrow> string \<Rightarrow> string \<Rightarrow> int \<Rightarrow> bool \<Rightarrow> (string \<times> string) list \<Rightarrow> Keyspace \<Rightarrow>
     (panic + stream_err + Value list) \<times> Keyspace" where
  "read_group_once ev grp consumer cnt noAck [] ks = (Inr (Inr []), ks)"
| "read_group_once ev grp consumer cnt noAck ((key, ident) # kis) ks =
     (case ks_Get (ev_now ev) key ks of
        (r, ks) \<Rightarrow>
          (case (case r of
                   None \<Rightarrow> (Inr (Inr []), ks)
                 | Some e \<Rightarrow>
                     if en_Type e \<noteq> TypeStream then (Inr (Inr []), ks)
                     else
                       (case en_Value e of
                          AStream s \<Rightarrow>
                            (case ReadGroup (ev_time ev) grp consumer ident cnt noAck s of
                               Inl err \<Rightarrow> (Inr (Inl err), ks)
                             | Inr (entries, s) \<Rightarrow>
                                 (Inr (Inr (if entries = [] then []
                                            else [Array [BulkString key, Array (map stream_entry_value entries)]])),
                                  store_value key e (AStream s) ks))
                        | _ \<Rightarrow> (Inl PanicTypeAssertion, ks))) of
             (Inr (Inr vs), ks) \<Rightarrow>
               (case read_group_once ev grp consumer cnt noAck kis ks of
                  (Inr (Inr ws), ks) \<Rightarrow> (Inr (Inr (vs @ ws)), ks)
                | other \<Rightarrow> other)
           | other \<Rightarrow> other))"

definition handleXReadGroup :: handler where
  "handleXReadGroup ev args ks =
     (if length args < 6 \<or> ToUpper (hd args) \<noteq> ''GROUP'' then
        reply (Error ''ERR syntax error, expected XREADGROUP GROUP <group> <consumer> ...'') False ks
      else
        let grp = args ! 1; consumer = args ! 2 in
        case parse_read_opts True (drop 3 args) \<lparr>ro_count = - 1, ro_block = - 1, ro_noack = False\<rparr> of
          (opts, None) \<Rightarrow> reply (Error (''ERR syntax error, missing STREAMS in '' @ quoted ''xreadgroup'')) False ks
        | (opts, Some remaining) \<Rightarrow>
            if length remaining < 2 \<or> length remaining mod 2 \<noteq> 0 then
              reply (Error ''ERR Unbalanced XREADGROUP list of streams'') False ks
            else
              let n = length remaining div 2 in
              case read_group_once ev grp consumer (ro_count opts) (ro_noack opts)
                     (zip (take n remaining) (drop n remaining)) ks of
                (Inl p, ks) \<Rightarrow> go_panic p ks
              | (Inr (Inl err), ks) \<Rightarrow> reply (Error (stream_err_text ev [] err)) False ks
              | (Inr (Inr results), ks) \<Rightarrow>
                  if results \<noteq> [] then reply (Array results) False ks
                  else if ro_block opts < 0 then reply NullArray False ks
                  else (Inl (Waits (ro_block opts)), ks))"

definition xreadgroup_poll ::
  "env \<Rightarrow> string \<Rightarrow> string \<Rightarrow> int \<Rightarrow> bool \<Rightarrow> int \<Rightarrow> bool \<Rightarrow> (string \<times> string) list \<Rightarrow> Keyspace \<Rightarrow>
     (panic + Value option) \<times> Keyspace" where
  "xreadgroup_poll ev grp consumer cnt noAck blockMs late kis ks =
     (case read_group_once ev grp consumer cnt noAck kis ks of
        (Inl p, ks) \<Rightarrow> (Inl p, ks)
      | (Inr (Inl err), ks) \<Rightarrow> (Inr (Some (Error (stream_err_text ev [] err))), ks)
      | (Inr (Inr results), ks) \<Rightarrow>
          if results \<noteq> [] then (Inr (Some (Array results)), ks)
          else if blockMs > 0 \<and> late then (Inr (Some NullArray), ks)
          else (Inr None, ks))"

definition handleXAck :: handler where
  "handleXAck ev args ks =
     (case args of
        key # grp # i # is \<Rightarrow>
          with_typed ev key TypeStream (Integer 0)
            (\<lambda>e ks. as_stream e (\<lambda>s. case Ack grp (i # is) s of
               (n, s) \<Rightarrow> reply (Integer n) True (store_value key e (AStream s) ks)) ks) ks
      | _ \<Rightarrow> reply (wrong_args ''xack'') False ks)"

subsection \<open>Inspection\<close>

definition xpending_summary :: "env \<Rightarrow> string \<Rightarrow> Stream \<Rightarrow> Keyspace \<Rightarrow> result \<times> Keyspace" where
  "xpending_summary ev grp s ks =
     (case GetPendingSummary grp s of
        Inl err \<Rightarrow> reply (Error (stream_err_text ev [] err)) False ks
      | Inr (tot, minID, maxID, counts) \<Rightarrow>
          if tot = 0 then reply (Array [Integer 0, Null, Null, Null]) False ks
          else
            reply (Array [Integer tot, BulkString minID, BulkString maxID,
                          Array (map (\<lambda>(n, c). Array [BulkString n, Integer c]) counts)]) False ks)"

text \<open>Milliseconds to a duration in nanoseconds and back, rounded up, as the comparison sees it.\<close>

definition idle_millis :: "int \<Rightarrow> int" where
  "idle_millis ms = - ((- wrap64 (ms * 1000000)) div 1000000)"

definition xpending_detailed :: "env \<Rightarrow> string \<Rightarrow> int \<Rightarrow> string list \<Rightarrow> Stream \<Rightarrow> Keyspace \<Rightarrow> result \<times> Keyspace" where
  "xpending_detailed ev grp minIdle args s ks =
     (case args of
        start # stop # n # rest \<Rightarrow>
          (case ParseInt n of
             None \<Rightarrow> reply (Error ERR_INT) False ks
           | Some cnt \<Rightarrow>
               (case GetPendingDetailed (ev_time ev) grp start stop cnt
                       (case rest of c # _ \<Rightarrow> c | [] \<Rightarrow> []) minIdle s of
                  Inl err \<Rightarrow> reply (Error (stream_err_text ev [] err)) False ks
                | Inr pes \<Rightarrow>
                    reply (Array (map (\<lambda>pe. Array
                      [BulkString (pe_ID pe), BulkString (pe_ConsumerName pe),
                       Integer (max 0 (ev_time ev - pe_DeliveryTime pe)), Integer (pe_DeliveryCount pe)]) pes)) False ks))
      | _ \<Rightarrow>
          reply (Error (''ERR wrong number of arguments for '' @ quoted ''xpending'' @ '' detailed command'')) False ks)"

definition handleXPending :: handler where
  "handleXPending ev args ks =
     (case args of
        key # grp # rest \<Rightarrow>
          with_typed ev key TypeStream (Error ''ERR no such key'')
            (\<lambda>e ks. as_stream e (\<lambda>s.
               if rest = [] then xpending_summary ev grp s ks
               else if ToUpper (hd rest) = ''IDLE'' then
                 (case tl rest of
                    [] \<Rightarrow> reply (Error ''ERR syntax error'') False ks
                  | n # rest \<Rightarrow>
                      (case ParseInt n of
                         None \<Rightarrow> reply (Error ERR_INT) False ks
                       | Some ms \<Rightarrow> xpending_detailed ev grp (idle_millis ms) rest s ks))
               else xpending_detailed ev grp 0 rest s ks) ks) ks
      | _ \<Rightarrow> reply (wrong_args ''xpending'') False ks)"

definition xinfo_stream :: "Stream \<Rightarrow> Value" where
  "xinfo_stream s =
     (let firstID = (case Stream_Range ''-'' ''+'' 1 s of en # _ \<Rightarrow> BulkString (se_ID en) | [] \<Rightarrow> Null);
          lastID = (if Stream_Len s > 0 then BulkString (Stream_LastID s) else Null)
      in Array
           [BulkString ''length'', Integer (Stream_Len s),
            BulkString ''radix-tree-keys'', Integer (Stream_Len s),
            BulkString ''radix-tree-nodes'', Integer 1,
            BulkString ''last-generated-id'', lastID,
            BulkString ''groups'', Integer (int (length (GetGroupsInfo s))),
            BulkString ''first-entry'', firstID,
            BulkString ''last-entry'', lastID])"

definition xinfo_groups :: "Stream \<Rightarrow> Value" where
  "xinfo_groups s =
     Array (map (\<lambda>g. Array
       [BulkString ''name'', BulkString (gi_name g),
        BulkString ''consumers'', Integer (int (gi_consumers g)),
        BulkString ''pending'', Integer (int (gi_pending g)),
        BulkString ''last-delivered-id'', BulkString (gi_last_delivered_id g)]) (GetGroupsInfo s))"

definition handleXInfo :: handler where
  "handleXInfo ev args ks =
     (case args of
        sub # key # rest \<Rightarrow>
          with_typed ev key TypeStream (Error ''ERR no such key'')
            (\<lambda>e ks. as_stream e (\<lambda>s.
               let subCmd = ToUpper sub in
               if subCmd = ''STREAM'' then reply (xinfo_stream s) False ks
               else if subCmd = ''GROUPS'' then reply (xinfo_groups s) False ks
               else if subCmd = ''CONSUMERS'' then
                 (case rest of
                    [] \<Rightarrow> reply (wrong_args ''xinfo consumers'') False ks
                  | grp # _ \<Rightarrow>
                      (case GetConsumersInfo (ev_time ev) grp s of
                         Inl err \<Rightarrow> reply (Error (stream_err_text ev [] err)) False ks
                       | Inr cs \<Rightarrow>
                           reply (Array (map (\<lambda>(n, p, idle). Array
                             [BulkString ''name'', BulkString n, BulkString ''pending'', Integer (int p),
                              BulkString ''idle'', Integer idle]) cs)) False ks))
               else reply (Error (''ERR unknown XINFO subcommand '' @ quoted subCmd)) False ks) ks) ks
      | _ \<Rightarrow> reply (wrong_args ''xinfo'') False ks)"

section \<open>The table of commands\<close>

text \<open>
  The cases of the switch in \<open>dispatch\<close>, by what the command does: it reads one key, reads several,
  changes one key, changes several, or works on the whole keyspace or on keys after a subcommand.
\<close>

definition read_commands :: "(string \<times> handler) list" where
  "read_commands =
     [(''GET'', cmd_GET), (''TYPE'', cmd_TYPE), (''STRLEN'', cmd_STRLEN), (''TTL'', cmd_TTL), (''PTTL'', cmd_PTTL),
      (''KEYS'', cmd_KEYS),
      (''HGET'', cmd_HGET), (''HMGET'', cmd_HMGET), (''HEXISTS'', cmd_HEXISTS), (''HLEN'', cmd_HLEN),
      (''HKEYS'', cmd_HKEYS), (''HVALS'', cmd_HVALS), (''HGETALL'', cmd_HGETALL),
      (''LRANGE'', cmd_LRANGE), (''LLEN'', cmd_LLEN), (''LINDEX'', cmd_LINDEX),
      (''SMEMBERS'', cmd_SMEMBERS), (''SISMEMBER'', cmd_SISMEMBER), (''SCARD'', cmd_SCARD),
      (''ZSCORE'', cmd_ZSCORE), (''ZRANK'', cmd_ZRANK), (''ZRANGE'', handleZRange False),
      (''ZREVRANGE'', handleZRange True), (''ZCARD'', cmd_ZCARD),
      (''XRANGE'', handleXRange), (''XREVRANGE'', handleXRevRange), (''XLEN'', cmd_XLEN),
      (''XPENDING'', handleXPending), (''XINFO'', handleXInfo)]"

definition multi_read_commands :: "(string \<times> handler) list" where
  "multi_read_commands =
     [(''MGET'', cmd_MGET), (''EXISTS'', cmd_EXISTS), (''XREAD'', handleXRead), (''DBSIZE'', cmd_DBSIZE)]"

definition write_commands :: "(string \<times> handler) list" where
  "write_commands =
     [(''SET'', handleSet), (''INCR'', handleIncrBy 1), (''DECR'', handleIncrBy (- 1)),
      (''INCRBY'', cmd_INCRBY ''incrby'' id), (''DECRBY'', cmd_INCRBY ''decrby'' (\<lambda>d. wrap64 (- d))),
      (''APPEND'', cmd_APPEND), (''SETNX'', cmd_SETNX),
      (''SETEX'', cmd_SETEX ''setex'' 1000), (''PSETEX'', cmd_SETEX ''psetex'' 1),
      (''EXPIRE'', cmd_EXPIRE ''expire'' 1000), (''PEXPIRE'', cmd_EXPIRE ''pexpire'' 1), (''PERSIST'', cmd_PERSIST),
      (''HSET'', handleHSet), (''HMSET'', handleHMSet), (''HDEL'', cmd_HDEL), (''HINCRBY'', cmd_HINCRBY),
      (''LPUSH'', cmd_PUSH ''lpush'' LPush), (''RPUSH'', cmd_PUSH ''rpush'' RPush),
      (''SADD'', cmd_SADD), (''SREM'', cmd_SREM), (''ZREM'', cmd_ZREM),
      (''XDEL'', handleXDel), (''XTRIM'', handleXTrim), (''XACK'', handleXAck)]"

definition pop_commands :: "(string \<times> handler) list" where
  "pop_commands = [(''LPOP'', cmd_POP ''lpop'' LPop), (''RPOP'', cmd_POP ''rpop'' RPop)]"

definition add_commands :: "(string \<times> handler) list" where
  "add_commands = [(''ZADD'', handleZAdd), (''XADD'', handleXAdd)]"

definition multi_write_commands :: "(string \<times> handler) list" where
  "multi_write_commands = [(''MSET'', cmd_MSET), (''DEL'', cmd_DEL)]"

definition group_commands :: "(string \<times> handler) list" where
  "group_commands = [(''XREADGROUP'', handleXReadGroup), (''XGROUP'', handleXGroup)]"

definition flush_commands :: "(string \<times> handler) list" where
  "flush_commands = [(''FLUSHDB'', cmd_FLUSHDB), (''FLUSHALL'', cmd_FLUSHDB)]"

definition data_commands :: "(string \<times> handler) list" where
  "data_commands =
     read_commands @ multi_read_commands @ write_commands @ pop_commands @ add_commands @ multi_write_commands
     @ group_commands @ flush_commands"

lemmas tables = read_commands_def multi_read_commands_def write_commands_def pop_commands_def add_commands_def
  multi_write_commands_def group_commands_def flush_commands_def

section \<open>Type safety\<close>

text \<open>An entry holds a well-formed value of the type it claims.\<close>

fun value_ok :: "EntryType \<Rightarrow> any \<Rightarrow> bool" where
  "value_ok TypeString (AString _) = True"
| "value_ok TypeHash (AHash h) = gomap_ok h"
| "value_ok TypeList (AList _) = True"
| "value_ok TypeSet (ASet s) = gomap_ok s"
| "value_ok TypeZSet (AZSet z) = sl_wf z"
| "value_ok TypeVector (AVector _) = True"
| "value_ok TypeStream (AStream _) = True"
| "value_ok _ _ = False"

definition ks_good :: "Keyspace \<Rightarrow> bool" where
  "ks_good ks \<longleftrightarrow> ks_ok ks \<and> (\<forall>k e. sh_get k ks = Some e \<longrightarrow> value_ok (en_Type e) (en_Value e))"

text \<open>What a client can read of the keyspace: type, value and time limit of each live key.\<close>

definition data :: "int \<Rightarrow> Keyspace \<Rightarrow> string \<Rightarrow> (EntryType \<times> any \<times> int) option" where
  "data now ks = (\<lambda>k. map_option (\<lambda>e. (en_Type e, en_Value e, en_ExpiresAt e)) (live now ks k))"

text \<open>
  The outcome of a handler: the keyspace is well typed, a panic is only the one of a negative count
  (where \<open>al\<close> allows it), and a command that is not reported as a write left the data alone
  (where \<open>q\<close> asks for it).
\<close>

definition hok :: "bool \<Rightarrow> bool \<Rightarrow> int \<Rightarrow> Keyspace \<Rightarrow> result \<times> Keyspace \<Rightarrow> bool" where
  "hok al q now ks0 r \<longleftrightarrow>
     ks_good (snd r) \<and> (\<forall>p. fst r = Inl (Panics p) \<longrightarrow> al \<and> p = PanicMakesliceLen) \<and>
     (q \<and> \<not> (\<exists>v. fst r = Inr (v, True)) \<longrightarrow> data now (snd r) = data now ks0)"

named_theorems hok_intros

lemma good_ok: "ks_good ks \<Longrightarrow> ks_ok ks"
  by (simp add: ks_good_def)

lemma good_put: "ks_good ks \<Longrightarrow> value_ok (en_Type e) (en_Value e) \<Longrightarrow> ks_good (sh_put k e ks)"
  by (auto simp: ks_good_def kmap.wf_insert sh_get_put)

lemma good_del: "ks_good ks \<Longrightarrow> ks_good (sh_del k ks)"
  by (auto simp: ks_good_def kmap.wf_delete sh_get_del split: if_splits)

lemma good_add_count [simp]: "ks_good (add_count n ks) = ks_good ks"
  by (simp add: ks_good_def)

lemma good_lookup:
  assumes "ks_good ks" and "lookup_live now k ks = (r, ks')"
  shows "ks_good ks'" and "data now ks' = data now ks" and "r = Some e \<Longrightarrow> value_ok (en_Type e) (en_Value e)"
    and "sh_get k ks' = r" and "r = Some e \<Longrightarrow> \<not> IsExpired e now" and "ks_ok ks'" and "r = live now ks k"
proof -
  note L = lookup_live_spec [OF good_ok [OF assms(1)] assms(2)]
  show "ks_good ks'" using assms by (auto simp: lookup_live_def good_del split: option.splits if_splits)
  then show "r = Some e \<Longrightarrow> value_ok (en_Type e) (en_Value e)" using L(4) by (auto simp: ks_good_def)
  show "data now ks' = data now ks" by (simp add: data_def L(3))
  show "sh_get k ks' = r" "ks_ok ks'" "r = live now ks k" using L by blast+
  show "r = Some e \<Longrightarrow> \<not> IsExpired e now" using L(1) live_notexp by metis
qed

lemma data_put:
  assumes "ks_ok ks" and "sh_get k ks = Some e" and "\<not> IsExpired e now"
    and "en_Type e' = en_Type e" and "en_Value e' = en_Value e" and "en_ExpiresAt e' = en_ExpiresAt e"
  shows "data now (sh_put k e' ks) = data now ks"
proof -
  have "live now (sh_put k e' ks) = (live now ks)(k \<mapsto> e')"
    using assms live_put [of ks now k e'] by (auto simp: IsExpired_def)
  moreover have "live now ks k = Some e" using assms(2,3) by (simp add: age_def)
  ultimately show ?thesis using assms(4-6) by (auto simp: data_def)
qed

lemma data_store_same:
  "ks_ok ks \<Longrightarrow> sh_get k ks = Some e \<Longrightarrow> \<not> IsExpired e now \<Longrightarrow> en_Value e = v \<Longrightarrow>
   data now (store_value k e v ks) = data now ks"
  unfolding store_value_def by (rule data_put) simp_all

lemma hok_reply [hok_intros]:
  "ks_good ks \<Longrightarrow> (q \<Longrightarrow> \<not> w \<Longrightarrow> data now ks = data now ks0) \<Longrightarrow> hok al q now ks0 (reply v w ks)"
  by (auto simp: hok_def reply_def)

lemma hok_wait [hok_intros]:
  "ks_good ks \<Longrightarrow> data now ks = data now ks0 \<Longrightarrow> hok al q now ks0 (Inl (Waits n), ks)"
  by (simp add: hok_def)

lemma good_store [hok_intros]: "ks_good ks \<Longrightarrow> value_ok (en_Type e) v \<Longrightarrow> ks_good (store_value k e v ks)"
  by (simp add: store_value_def good_put)

lemma hok_get:
  assumes "ks_good ks0"
    and "\<And>ks. ks_good ks \<Longrightarrow> data now ks = data now ks0 \<Longrightarrow> sh_get key ks = None \<Longrightarrow> hok al q now ks0 (f None ks)"
    and "\<And>e ks. ks_good ks \<Longrightarrow> data now ks = data now ks0 \<Longrightarrow> sh_get key ks = Some e \<Longrightarrow> \<not> IsExpired e now \<Longrightarrow>
      value_ok (en_Type e) (en_Value e) \<Longrightarrow> hok al q now ks0 (f (Some e) ks)"
  shows "hok al q now ks0 (case ks_Get now key ks0 of (r, ks) \<Rightarrow> f r ks)"
proof -
  obtain r ks where l: "lookup_live now key ks0 = (r, ks)" by fastforce
  note L = good_lookup [OF assms(1) l]
  have eq: "(case ks_Get now key ks0 of (r, ks) \<Rightarrow> f r ks) = f r ks" by (simp add: ks_Get_lookup_live l)
  show ?thesis
  proof (cases r)
    case None
    then show ?thesis using assms(2) [OF L(1,2)] L(4) by (simp add: eq)
  next
    case (Some e)
    then show ?thesis using assms(3) [OF L(1,2)] L(3-5) by (simp add: eq)
  qed
qed

lemma with_typed_alt:
  "with_typed ev key t d f ks0 =
     (case ks_Get (ev_now ev) key ks0 of (r, ks) \<Rightarrow>
        (case r of None \<Rightarrow> reply d False ks | Some e \<Rightarrow> if en_Type e \<noteq> t then reply d False ks else f e ks))"
  by (auto simp: with_typed_def split: prod.splits option.splits)

lemma hok_with_typed [hok_intros]:
  assumes "ks_good ks0"
    and "\<And>e ks. ks_good ks \<Longrightarrow> data (ev_now ev) ks = data (ev_now ev) ks0 \<Longrightarrow> sh_get key ks = Some e \<Longrightarrow>
      \<not> IsExpired e (ev_now ev) \<Longrightarrow> en_Type e = t \<Longrightarrow> value_ok t (en_Value e) \<Longrightarrow> hok al q (ev_now ev) ks0 (f e ks)"
  shows "hok al q (ev_now ev) ks0 (with_typed ev key t d f ks0)"
  unfolding with_typed_alt
proof (rule hok_get [OF assms(1)], goal_cases)
  case (2 e ks)
  then show ?case using assms(2) [of ks e] by (auto simp: hok_reply)
qed (simp add: hok_reply)

lemma hok_with_created_same:
  assumes good: "ks_good ks0" and new: "value_ok t new"
    and f: "\<And>e ks. ks_good ks \<Longrightarrow> sh_get key ks = Some e \<Longrightarrow> en_Type e = t \<Longrightarrow> value_ok t (en_Value e) \<Longrightarrow>
      en_Value e = new \<or> data (ev_now ev) ks = data (ev_now ev) ks0 \<and> \<not> IsExpired e (ev_now ev) \<Longrightarrow>
      hok al q (ev_now ev) ks0 (f e ks)"
  shows "hok al q (ev_now ev) ks0 (with_created ev key t new f ks0)"
proof -
  let ?now = "ev_now ev"
  obtain r ks where l: "lookup_live ?now key ks0 = (r, ks)" by fastforce
  note L = good_lookup [OF good l]
  show ?thesis
  proof (cases r)
    case None
    let ?e = "\<lparr>en_Type = t, en_Value = new, en_ExpiresAt = 0, en_UpdatedAt = ?now, en_LastAccessedAt = ?now\<rparr>"
    have "ks_good (add_count 1 (sh_put key ?e ks))" using L(1) new by (simp add: good_put)
    moreover have "sh_get key (add_count 1 (sh_put key ?e ks)) = Some ?e" using L(6) by (simp add: sh_get_put)
    ultimately show ?thesis using f [of "add_count 1 (sh_put key ?e ks)" ?e] new None
      by (simp add: with_created_def GetOrCreate_def l Let_def)
  next
    case (Some e)
    let ?e = "e\<lparr>en_LastAccessedAt := ?now\<rparr>"
    have g: "ks_good (sh_put key ?e ks)" using L(1,3) Some by (simp add: good_put)
    moreover have "sh_get key (sh_put key ?e ks) = Some ?e" using L(6) by (simp add: sh_get_put)
    moreover have "data ?now (sh_put key ?e ks) = data ?now ks0"
      using data_put [OF L(6), of key e ?now ?e] L(2,4,5) Some by simp
    moreover have "\<not> IsExpired ?e ?now" using L(5) Some by (simp add: IsExpired_def)
    ultimately show ?thesis using f [of "sh_put key ?e ks" ?e] L(3) Some
      by (auto simp: with_created_def GetOrCreate_def l Let_def intro: hok_reply)
  qed
qed

lemma hok_with_created [hok_intros]:
  assumes "ks_good ks0" and "value_ok t new"
    and "\<And>e ks. ks_good ks \<Longrightarrow> sh_get key ks = Some e \<Longrightarrow> en_Type e = t \<Longrightarrow> value_ok t (en_Value e) \<Longrightarrow>
      hok al q (ev_now ev) ks0 (f e ks)"
  shows "hok al q (ev_now ev) ks0 (with_created ev key t new f ks0)"
  by (rule hok_with_created_same) (use assms in auto)

lemma hok_as [hok_intros]:
  "value_ok TypeString (en_Value e) \<Longrightarrow> (\<And>s. en_Value e = AString s \<Longrightarrow> hok al q now ks0 (fs s)) \<Longrightarrow>
   hok al q now ks0 (as_string e fs ks)"
  "value_ok TypeHash (en_Value e) \<Longrightarrow> (\<And>h. en_Value e = AHash h \<Longrightarrow> gomap_ok h \<Longrightarrow> hok al q now ks0 (fh h)) \<Longrightarrow>
   hok al q now ks0 (as_hash e fh ks)"
  "value_ok TypeList (en_Value e) \<Longrightarrow> (\<And>l. en_Value e = AList l \<Longrightarrow> hok al q now ks0 (fl l)) \<Longrightarrow>
   hok al q now ks0 (as_list e fl ks)"
  "value_ok TypeSet (en_Value e) \<Longrightarrow> (\<And>s. en_Value e = ASet s \<Longrightarrow> gomap_ok s \<Longrightarrow> hok al q now ks0 (ft s)) \<Longrightarrow>
   hok al q now ks0 (as_set e ft ks)"
  "value_ok TypeZSet (en_Value e) \<Longrightarrow> (\<And>z. en_Value e = AZSet z \<Longrightarrow> sl_wf z \<Longrightarrow> hok al q now ks0 (fz z)) \<Longrightarrow>
   hok al q now ks0 (as_zset e fz ks)"
  "value_ok TypeStream (en_Value e) \<Longrightarrow> (\<And>s. en_Value e = AStream s \<Longrightarrow> hok al q now ks0 (fx s)) \<Longrightarrow>
   hok al q now ks0 (as_stream e fx ks)"
  by (cases "en_Value e"; auto simp: as_string_def as_hash_def as_list_def as_set_def as_zset_def as_stream_def)+

text \<open>The operations on the values keep them well formed.\<close>

lemma hset_loop_ok: "gomap_ok h \<Longrightarrow> gomap_ok (snd (hset_loop fvs h))"
  by (induction fvs h rule: hset_loop.induct) (auto simp: Hash_Set_def gomap_simps Let_def split: prod.splits)

lemma Hash_MSet_ok: "gomap_ok h \<Longrightarrow> gomap_ok (snd (Hash_MSet kvs h))"
  by (induction kvs h rule: Hash_MSet.induct) (auto simp: gomap_simps Let_def split: prod.splits)

lemma Hash_Del_ok: "gomap_ok h \<Longrightarrow> gomap_ok (snd (Hash_Del fs h))"
  by (induction fs h rule: Hash_Del.induct) (auto simp: gomap_simps split: option.splits prod.splits)

lemma Hash_IncrBy_ok: "gomap_ok h \<Longrightarrow> gomap_ok (snd (Hash_IncrBy f d h))"
  by (auto simp: Hash_IncrBy_def gomap_simps Let_def split: option.splits)

lemma Set_Add_ok: "gomap_ok s \<Longrightarrow> gomap_ok (snd (Set_Add ms s))"
  by (induction ms s rule: Set_Add.induct) (auto simp: gomap_simps split: option.splits prod.splits)

lemma Set_Rem_ok: "gomap_ok s \<Longrightarrow> gomap_ok (snd (Set_Rem ms s))"
  by (induction ms s rule: Set_Rem.induct) (auto simp: gomap_simps split: option.splits prod.splits)

definition no_nan :: "env \<Rightarrow> string list \<Rightarrow> bool" where
  "no_nan ev args \<longleftrightarrow> (\<forall>a \<in> set args. \<forall>f. ev_parse64 ev a = Some f \<longrightarrow> \<not> float_nan f)"

lemma zadd_loop_ok: "sl_wf z \<Longrightarrow> no_nan ev args \<Longrightarrow> sl_wf (snd (zadd_loop ev i args z))"
proof (induction ev i args z rule: zadd_loop.induct)
  case (1 ev i sc m rest z)
  show ?case
  proof (cases "ev_parse64 ev sc")
    case (Some score)
    have "\<not> float_nan score" using 1(3) Some by (simp add: no_nan_def)
    then have "sl_wf (sl_Insert (randomLevel (ev_draws ev i)) score m z)" using zs.ins [OF 1(2)] by blast
    then have "sl_wf (snd (zadd_loop ev (Suc i) rest (sl_Insert (randomLevel (ev_draws ev i)) score m z)))"
      using 1(1) [OF Some refl refl] 1(3) by (simp add: no_nan_def)
    then show ?thesis using Some by (auto simp: Let_def split: prod.splits option.splits)
  qed (use 1 in simp)
qed simp_all

lemma zrem_loop_ok: "sl_wf z \<Longrightarrow> sl_wf (snd (zrem_loop ms z))"
proof (induction ms z rule: zrem_loop.induct)
  case (2 m ms z)
  have "sl_wf (snd (sl_Delete m z))" using zs.del [OF 2(2)] by blast
  then show ?case using 2(1) by (auto simp: Let_def split: prod.splits)
qed simp

lemma value_facts:
  "hset_loop fvs h = (n, h') \<Longrightarrow> gomap_ok h \<Longrightarrow> gomap_ok h'" "Hash_MSet kvs h = (n, h') \<Longrightarrow> gomap_ok h \<Longrightarrow> gomap_ok h'"
  "Hash_Del fs h = (n, h') \<Longrightarrow> gomap_ok h \<Longrightarrow> gomap_ok h'" "Hash_IncrBy f d h = (r, h') \<Longrightarrow> gomap_ok h \<Longrightarrow> gomap_ok h'"
  "Set_Add ms s = (n, s') \<Longrightarrow> gomap_ok s \<Longrightarrow> gomap_ok s'" "Set_Rem ms s = (n, s') \<Longrightarrow> gomap_ok s \<Longrightarrow> gomap_ok s'"
  "zrem_loop ms z = (n, z') \<Longrightarrow> sl_wf z \<Longrightarrow> sl_wf z'"
  "zadd_loop ev i args z = (added, z') \<Longrightarrow> sl_wf z \<Longrightarrow> no_nan ev args \<Longrightarrow> sl_wf z'"
  using hset_loop_ok [of h fvs] Hash_MSet_ok [of h kvs] Hash_Del_ok [of h fs] Hash_IncrBy_ok [of h f d]
    Set_Add_ok [of s ms] Set_Rem_ok [of s ms] zrem_loop_ok [of z ms] zadd_loop_ok [of z ev args i] by simp_all

subsection \<open>Each handler\<close>

text \<open>\<open>safe H\<close>: the handler never panics, keeps the types and reports every change of the data.\<close>

definition safe :: "handler \<Rightarrow> bool" where
  "safe H \<longleftrightarrow> (\<forall>ev args ks. ks_good ks \<longrightarrow> hok False True (ev_now ev) ks (H ev args ks))"

lemma safeI: "(\<And>ev args ks. ks_good ks \<Longrightarrow> hok False True (ev_now ev) ks (H ev args ks)) \<Longrightarrow> safe H"
  by (simp add: safe_def)

lemma hok_ifs: "(c \<Longrightarrow> hok al q now ks0 a) \<Longrightarrow> (\<not> c \<Longrightarrow> hok al q now ks0 b) \<Longrightarrow> hok al q now ks0 (if c then a else b)"
  by simp

lemma hok_get_alt:
  assumes "ks_good ks0"
    and "\<And>ks. ks_good ks \<Longrightarrow> data now ks = data now ks0 \<Longrightarrow> sh_get key ks = None \<Longrightarrow> hok al q now ks0 (f ks)"
    and "\<And>e ks. ks_good ks \<Longrightarrow> data now ks = data now ks0 \<Longrightarrow> sh_get key ks = Some e \<Longrightarrow> \<not> IsExpired e now \<Longrightarrow>
      value_ok (en_Type e) (en_Value e) \<Longrightarrow> hok al q now ks0 (g e ks)"
  shows "hok al q now ks0 (case ks_Get now key ks0 of (None, ks) \<Rightarrow> f ks | (Some e, ks) \<Rightarrow> g e ks)"
proof -
  have "hok al q now ks0 (case ks_Get now key ks0 of (r, ks) \<Rightarrow> (case r of None \<Rightarrow> f ks | Some e \<Rightarrow> g e ks))"
    by (rule hok_get) (use assms in auto)
  then show ?thesis by (simp add: case_prod_unfold split: option.splits)
qed

lemma good_Set: "ks_good ks \<Longrightarrow> value_ok (en_Type e) (en_Value e) \<Longrightarrow> ks_good (ks_Set now k e ks)"
  by (simp add: ks_Set_def Let_def good_put)

lemma good_mset_loop: "ks_good ks \<Longrightarrow> ks_good (mset_loop now kvs ks)"
  by (induction now kvs ks rule: mset_loop.induct) (simp_all add: good_Set new_entry_def)

lemma good_Delete: "ks_good ks \<Longrightarrow> ks_good (snd (ks_Delete keys ks))"
  by (induction keys ks rule: ks_Delete.induct) (auto simp: good_del split: prod.splits)

lemma good_DeleteD: "ks_Delete keys ks = (n, ks') \<Longrightarrow> ks_good ks \<Longrightarrow> ks_good ks'"
  using good_Delete [of ks keys] by simp

lemma get_good:
  assumes "ks_good ks" and "ks_Get now k ks = (r, ks')"
  shows "ks_good ks'" and "data now ks' = data now ks" and "r = Some e \<Longrightarrow> value_ok (en_Type e) (en_Value e)"
    and "sh_get k ks' = r" and "r = Some e \<Longrightarrow> \<not> IsExpired e now"
  using good_lookup [OF assms(1), of now k r ks'] assms(2) by (auto simp: ks_Get_lookup_live)

lemma Exists_good:
  "ks_good ks \<Longrightarrow> ks_good (snd (ks_Exists now keys ks)) \<and> data now (snd (ks_Exists now keys ks)) = data now ks"
proof (induction now keys ks rule: ks_Exists.induct)
  case (2 now key keys ks)
  then show ?case using get_good(1,2) [OF 2(2), of now key]
    by (auto simp: Let_def split: prod.splits)
qed simp

lemma value_ok_cases:
  "value_ok TypeString v \<longleftrightarrow> (\<exists>s. v = AString s)" "value_ok TypeStream v \<longleftrightarrow> (\<exists>s. v = AStream s)"
  by (cases v; simp)+

lemma mget_loop_good:
  assumes "ks_good ks" and "mget_loop now keys ks = (r, ks')"
  shows "ks_good ks' \<and> data now ks' = data now ks \<and> (\<exists>vs. r = Inr vs)"
  using assms
proof (induction now keys ks arbitrary: r ks' rule: mget_loop.induct)
  case (2 now k keys ks)
  obtain q ks1 where g: "ks_Get now k ks = (q, ks1)" by fastforce
  note G = get_good [OF 2(2) g]
  obtain s ks2 where m: "mget_loop now keys ks1 = (s, ks2)" by fastforce
  define v where "v = (case q of None \<Rightarrow> Inr Null
     | Some e \<Rightarrow> if en_Type e \<noteq> TypeString then Inr Null
       else (case en_Value e of AString s \<Rightarrow> Inr (BulkString s) | _ \<Rightarrow> Inl PanicTypeAssertion))"
  have "\<exists>x. v = Inr x" using G(3) by (auto simp: v_def value_ok_cases split: option.splits)
  then obtain x where x: "v = Inr x" by blast
  have "ks_good ks2 \<and> data now ks2 = data now ks1 \<and> (\<exists>vs. s = Inr vs)"
    by (rule 2(1) [OF g [symmetric] x [unfolded v_def] G(1) m])
  then show ?case using 2(3) G(2) x [unfolded v_def] by (auto simp: g m)
qed auto

lemmas split_handlers = list.split option.split

lemmas safe_intros = safeI hok_reply hok_wait hok_with_typed hok_with_created hok_as hok_get_alt hok_ifs good_store

text \<open>Handlers that only read.\<close>

lemma safe_reads:
  "safe cmd_GET" "safe cmd_TYPE" "safe cmd_STRLEN" "safe cmd_KEYS" "safe cmd_DBSIZE"
  "safe cmd_HGET" "safe cmd_HMGET" "safe cmd_HEXISTS" "safe (cmd_hash_read name d f)"
  "safe cmd_LRANGE" "safe cmd_LLEN" "safe cmd_LINDEX" "safe cmd_SMEMBERS" "safe cmd_SISMEMBER" "safe cmd_SCARD"
  "safe cmd_ZSCORE" "safe cmd_ZRANK" "safe (handleZRange reverse)" "safe cmd_ZCARD"
  "safe handleXRange" "safe handleXRevRange" "safe cmd_XLEN"
  unfolding cmd_GET_def cmd_TYPE_def cmd_STRLEN_def cmd_KEYS_def cmd_DBSIZE_def cmd_HGET_def cmd_HMGET_def
    cmd_HEXISTS_def cmd_hash_read_def cmd_LRANGE_def cmd_LLEN_def cmd_LINDEX_def cmd_SMEMBERS_def
    cmd_SISMEMBER_def cmd_SCARD_def cmd_ZSCORE_def cmd_ZRANK_def handleZRange_def cmd_ZCARD_def
    handleXRange_def handleXRevRange_def cmd_XLEN_def Let_def
  by (auto intro!: safe_intros split: split_handlers)

lemma empty_values: "gomap_ok NewHash" "gomap_ok NewSet" "sl_wf NewSkipList"
  by (simp_all add: NewHash_def NewSet_def gomap_simps sl_wf_New)

lemma good_Flush: "ks_good (FlushDB ks)"
  using kmap.wf_empty by (simp add: ks_good_def FlushDB_def NewKeyspace_def sh_get_def ks_ok_def)

lemma safe_XPENDING: "safe handleXPending"
  unfolding handleXPending_def xpending_summary_def xpending_detailed_def
  by (auto intro!: safe_intros split: split_handlers sum.split prod.split)

lemma safe_XINFO: "safe handleXInfo"
  unfolding handleXInfo_def Let_def
  by (auto intro!: safe_intros split: split_handlers sum.split)

lemma safe_updates:
  "safe handleHSet" "safe handleHMSet" "safe cmd_HDEL" "safe cmd_SADD" "safe cmd_SREM" "safe cmd_ZREM"
  unfolding handleHSet_def handleHMSet_def cmd_HDEL_def cmd_SADD_def cmd_SREM_def cmd_ZREM_def Let_def
  by (auto intro!: safe_intros simp: empty_values simp del: Hash_Del.simps Set_Add.simps Set_Rem.simps zrem_loop.simps
      split: split_handlers prod.split)
    (blast dest: value_facts)+

lemma safe_PUSH: "safe (cmd_PUSH name push)"
  unfolding cmd_PUSH_def by (auto intro!: safe_intros split: split_handlers prod.split)

lemma safe_stream_updates: "safe handleXDel" "safe handleXTrim" "safe handleXAck"
  unfolding handleXDel_def handleXTrim_def handleXAck_def
  by (auto intro!: safe_intros split: split_handlers prod.split)

lemma safe_writes: "safe cmd_MSET" "safe cmd_DEL" "safe cmd_FLUSHDB" "safe (cmd_SETEX name u)"
  unfolding cmd_MSET_def cmd_DEL_def cmd_FLUSHDB_def cmd_SETEX_def
  by (auto intro!: safe_intros good_mset_loop good_Set good_Flush simp: new_entry_def
      split: split_handlers prod.split dest!: good_DeleteD)

text \<open>Handlers on top of the keyspace's own operations.\<close>

lemma safe_SET: "safe handleSet"
proof (rule safeI)
  fix ev :: env and args ks assume good: "ks_good ks"
  have w: "ks_good (ks_Set (ev_now ev) k (new_entry TypeString (AString v) x) ks')" if "ks_good ks'" for k v x ks'
    using that by (simp add: good_Set new_entry_def)
  show "hok False True (ev_now ev) ks (handleSet ev args ks)"
    using good get_good(1,2) [OF good]
    by (auto simp: handleSet_def Let_def intro!: hok_reply w split: list.split sum.split prod.split if_splits)
qed

lemma safe_MGET: "safe cmd_MGET"
  by (rule safeI) (auto simp: cmd_MGET_def intro!: hok_reply split: prod.split sum.split dest: mget_loop_good)

lemma safe_EXISTS: "safe cmd_EXISTS"
proof (rule safeI)
  fix ev :: env and args ks assume "ks_good ks"
  then show "hok False True (ev_now ev) ks (cmd_EXISTS ev args ks)"
    using Exists_good [of ks "ev_now ev" args] by (auto simp: cmd_EXISTS_def intro!: hok_reply split: prod.split)
qed

lemma lookup_cases:
  assumes "ks_good ks"
  obtains (None) ks1 where "lookup_live now k ks = (None, ks1)" "ks_good ks1" "data now ks1 = data now ks"
  | (Some) e ks1 where "lookup_live now k ks = (Some e, ks1)" "ks_good ks1" "data now ks1 = data now ks"
      "value_ok (en_Type e) (en_Value e)"
proof -
  obtain r ks1 where l: "lookup_live now k ks = (r, ks1)" by fastforce
  show thesis using good_lookup(1-3) [OF assms l] that l by (cases r) auto
qed

lemma safe_keyspace:
  "safe (handleIncrBy d)" "safe cmd_APPEND" "safe cmd_SETNX" "safe (cmd_EXPIRE name u)" "safe cmd_PERSIST"
  "safe cmd_TTL" "safe cmd_PTTL"
proof -
  note defs = handleIncrBy_def cmd_APPEND_def cmd_SETNX_def cmd_EXPIRE_def cmd_PERSIST_def cmd_TTL_def cmd_PTTL_def
    ks_IncrBy_def ks_Append_def SetNX_def ks_Expire_def ks_Persist_def ks_TTL_def ks_PTTL_def ks_Get_lookup_live
    new_entry_def string_entry_def Let_def
  have "hok False True (ev_now ev) ks (H ev args ks)"
    if "ks_good ks" and "H \<in> {handleIncrBy d, cmd_APPEND, cmd_SETNX, cmd_EXPIRE name u, cmd_PERSIST, cmd_TTL, cmd_PTTL}"
    for H ev args ks
  proof (cases args)
    case (Cons key rest)
    show ?thesis using that(1)
    proof (cases rule: lookup_cases [where now = "ev_now ev" and k = key])
      case (None ks1)
      then show ?thesis using that Cons
        by (auto simp: defs intro!: hok_reply good_put split: split_handlers)
    next
      case (Some e ks1)
      then show ?thesis using that Cons
        by (auto simp: defs value_ok_cases intro!: hok_reply good_put split: split_handlers any.split)
    qed
  qed (use that in \<open>auto simp: defs intro!: hok_reply\<close>)
  then show "safe (handleIncrBy d)" "safe cmd_APPEND" "safe cmd_SETNX" "safe (cmd_EXPIRE name u)" "safe cmd_PERSIST"
    "safe cmd_TTL" "safe cmd_PTTL" by (auto intro!: safeI)
qed

lemma safe_INCRBY: "safe (cmd_INCRBY name f)"
  using safe_keyspace(1) by (auto simp: cmd_INCRBY_def safe_def intro!: hok_reply split: split_handlers)

text \<open>Reading streams.\<close>

lemma actual_ids_good:
  assumes "ks_good ks" and "actual_ids now kis ks = (r, ks')"
  shows "ks_good ks' \<and> data now ks' = data now ks \<and> (\<exists>ids. r = Inr ids)"
  using assms
proof (induction now kis ks arbitrary: r ks' rule: actual_ids.induct)
  case (2 now key ident kis ks)
  show ?case
  proof (cases "ident = ''$''")
    case False
    obtain s ks1 where m: "actual_ids now kis ks = (s, ks1)" by fastforce
    then show ?thesis using 2(2) [OF False 2(3) m] 2(4) False by auto
  next
    case True
    obtain q ks1 where g: "ks_Get now key ks = (q, ks1)" by fastforce
    note G = get_good [OF 2(3) g]
    obtain s ks2 where m: "actual_ids now kis ks1 = (s, ks2)" by fastforce
    let ?v = "case q of None \<Rightarrow> Inr ''0-0'' | Some e \<Rightarrow> if en_Type e = TypeStream then
      (case en_Value e of AStream s \<Rightarrow> Inr (Stream_LastID s) | _ \<Rightarrow> Inl PanicTypeAssertion) else Inr ''0-0''"
    have "\<exists>x. ?v = Inr x" using G(3) by (auto simp: value_ok_cases split: option.splits)
    then obtain x where x: "?v = Inr x" by blast
    show ?thesis using 2(1) [OF True g [symmetric] x G(1) m] 2(4) G(2) x True by (auto simp: g m)
  qed
qed auto

lemma read_once_good:
  assumes "ks_good ks" and "read_once now cnt kis ks = (r, ks')"
  shows "ks_good ks' \<and> data now ks' = data now ks \<and> (\<exists>vs. r = Inr vs)"
  using assms
proof (induction now cnt kis ks arbitrary: r ks' rule: read_once.induct)
  case (2 now cnt key lastID kis ks)
  obtain q ks1 where g: "ks_Get now key ks = (q, ks1)" by fastforce
  note G = get_good [OF 2(2) g]
  obtain s ks2 where m: "read_once now cnt kis ks1 = (s, ks2)" by fastforce
  let ?v = "case q of None \<Rightarrow> Inr [] | Some e \<Rightarrow> if en_Type e \<noteq> TypeStream then Inr [] else
    (case en_Value e of
       AStream s \<Rightarrow> (let entries = Stream_Read lastID cnt s in
         if entries = [] then Inr [] else Inr [Array [BulkString key, Array (map stream_entry_value entries)]])
     | _ \<Rightarrow> Inl PanicTypeAssertion)"
  have "\<exists>x. ?v = Inr x" using G(3) by (auto simp: value_ok_cases Let_def split: option.splits)
  then obtain x where x: "?v = Inr x" by blast
  show ?case using 2(1) [OF g [symmetric] x G(1) m] 2(3) G(2) x by (auto simp: g m)
qed auto

lemma safe_XREAD: "safe handleXRead"
proof (rule safeI)
  fix ev :: env and args ks assume good: "ks_good ks"
  obtain opts rem where o: "parse_read_opts False args \<lparr>ro_count = - 1, ro_block = - 1, ro_noack = False\<rparr> = (opts, rem)"
    by fastforce
  show "hok False True (ev_now ev) ks (handleXRead ev args ks)"
  proof (cases rem)
    case (Some remaining)
    let ?kis = "zip (take (length remaining div 2) remaining)"
    obtain r ks1 where a: "actual_ids (ev_now ev) (?kis (drop (length remaining div 2) remaining)) ks = (r, ks1)" by fastforce
    from actual_ids_good [OF good a] obtain ids where A: "r = Inr ids" "ks_good ks1" "data (ev_now ev) ks1 = data (ev_now ev) ks"
      by blast
    obtain s ks2 where b: "read_once (ev_now ev) (ro_count opts) (?kis ids) ks1 = (s, ks2)" by fastforce
    from read_once_good [OF A(2) b] A(3) show ?thesis using good
      by (auto simp: handleXRead_def o Some Let_def a A(1) b intro!: hok_reply hok_wait)
  qed (use good in \<open>auto simp: handleXRead_def o intro!: hok_reply\<close>)
qed

text \<open>The handlers that panic on a negative count.\<close>

lemma hok_POP:
  assumes "ks_good ks" and "pop \<in> {LPop, RPop}"
  shows "hok True True (ev_now ev) ks (cmd_POP name pop ev args ks)"
proof -
  have pops: "pop n l = Inl p \<Longrightarrow> p = PanicMakesliceLen" "pop n l = Inr (None, l') \<Longrightarrow> l' = l" for n l p l'
    using assms(2) by (auto simp: LPop_eq RPop_eq split: if_splits)
  have "hok True True now ks0 (go_panic p ks1)" if "pop n l = Inl p" "ks_good ks1" "data now ks1 = data now ks0" for n l p now ks0 ks1
    using that pops(1) by (auto simp: hok_def go_panic_def)
  moreover have "hok True True now ks0 (reply Null False (store_value k e (AList l') ks1))"
    if "pop n l = Inr (None, l')" "ks_good ks1" "data now ks1 = data now ks0" "sh_get k ks1 = Some e"
      "\<not> IsExpired e now" "en_Value e = AList l" "en_Type e = TypeList" for n l l' now ks0 ks1 k e
    using that pops(2) [OF that(1)] data_store_same [OF good_ok [OF that(2)] that(4,5)] by (auto intro!: hok_reply good_store)
  ultimately show ?thesis using assms(1) unfolding cmd_POP_def
    by (auto intro!: hok_reply hok_with_typed hok_as good_store simp: Let_def
        split: split_handlers sum.split prod.split)
qed

lemma Hash_IncrBy_None: "Hash_IncrBy f d h = (None, h') \<Longrightarrow> h' = h \<and> h \<noteq> NewHash"
  by (auto simp: Hash_IncrBy_def NewHash_def Let_def split: option.splits)

lemma safe_HINCRBY: "safe cmd_HINCRBY"
proof (rule safeI)
  fix ev :: env and args ks0 assume good: "ks_good ks0"
  let ?now = "ev_now ev"
  have "hok False True ?now ks0 (with_created ev key TypeHash (AHash NewHash)
      (\<lambda>e ks. as_hash e (\<lambda>h. case Hash_IncrBy fld delta h of
          (None, h) \<Rightarrow> reply (Error msg) False (store_value key e (AHash h) ks)
        | (Some n, h) \<Rightarrow> reply (Integer n) True (store_value key e (AHash h) ks)) ks) ks0)" for key fld delta msg
    by (rule hok_with_created_same [OF good])
      (auto simp: empty_values intro!: hok_as hok_reply good_store split: prod.split option.split,
        (auto simp: data_store_same good_ok empty_values dest: value_facts dest!: Hash_IncrBy_None)+)
  then show "hok False True ?now ks0 (cmd_HINCRBY ev args ks0)"
    using good unfolding cmd_HINCRBY_def by (auto intro!: hok_reply split: split_handlers)
qed

lemma CreateGroup_New: "CreateGroup grp ident NewStream \<noteq> (Some err, s)"
  by (simp add: CreateGroup_def NewStream_def gomap_simps)

lemma safe_XGROUP: "safe handleXGroup"
  unfolding handleXGroup_def xgroup_create_def xgroup_destroy_def xgroup_setid_def xgroup_delconsumer_def Let_def
  by (auto intro!: safe_intros good_Set simp: new_entry_def touch_def CreateGroup_New
      split: split_handlers sum.split prod.split bool.split)
    (auto dest: get_good(1-3))

text \<open>The handlers that can change data without reporting a write.\<close>

lemma no_nan_tl: "no_nan ev args \<Longrightarrow> no_nan ev (tl args)"
  by (cases args) (simp_all add: no_nan_def)

lemma hok_ZADD: "ks_good ks \<Longrightarrow> no_nan ev args \<Longrightarrow> hok False False (ev_now ev) ks (handleZAdd ev args ks)"
  unfolding handleZAdd_def Let_def
  by (auto intro!: safe_intros simp: empty_values split: split_handlers prod.split) (blast dest: value_facts no_nan_tl)+

lemma hok_xadd_entry: "ks_good ks \<Longrightarrow> hok False False (ev_now ev) ks (xadd_entry ev key maxlen idArg fvs ks)"
  unfolding xadd_entry_def Let_def
  by (auto intro!: safe_intros good_Set simp: new_entry_def touch_def split: split_handlers sum.split prod.split)
    (auto dest: get_good(1,3))

lemma hok_XADD: "ks_good ks \<Longrightarrow> hok False False (ev_now ev) ks (handleXAdd ev args ks)"
  unfolding handleXAdd_def Let_def by (auto intro!: hok_reply hok_xadd_entry split: split_handlers)

lemma read_group_once_good:
  assumes "ks_good ks" and "read_group_once ev grp consumer cnt noAck kis ks = (r, ks')"
  shows "ks_good ks' \<and> (\<exists>x. r = Inr x)"
  using assms
proof (induction ev grp consumer cnt noAck kis ks arbitrary: r ks' rule: read_group_once.induct)
  case (2 ev grp consumer cnt noAck key ident kis ks)
  obtain q ks1 where g: "ks_Get (ev_now ev) key ks = (q, ks1)" by fastforce
  note G = get_good [OF 2(2) g]
  let ?v = "case q of None \<Rightarrow> (Inr (Inr []), ks1) | Some e \<Rightarrow> if en_Type e \<noteq> TypeStream then (Inr (Inr []), ks1) else
    (case en_Value e of
       AStream s \<Rightarrow>
         (case ReadGroup (ev_time ev) grp consumer ident cnt noAck s of
            Inl err \<Rightarrow> (Inr (Inl err), ks1)
          | Inr (entries, s) \<Rightarrow>
              (Inr (Inr (if entries = [] then [] else [Array [BulkString key, Array (map stream_entry_value entries)]])),
               store_value key e (AStream s) ks1))
     | _ \<Rightarrow> (Inl PanicTypeAssertion, ks1))"
  obtain v ks2 where v: "?v = (v, ks2)" by fastforce
  have V: "ks_good ks2" "\<exists>x. v = Inr x"
    using v G(1,3) by (auto simp: value_ok_cases good_store split: option.splits if_splits sum.splits prod.splits)
  obtain s ks3 where m: "read_group_once ev grp consumer cnt noAck kis ks2 = (s, ks3)" by fastforce
  show ?case
  proof (cases "\<exists>vs. v = Inr (Inr vs)")
    case True
    then obtain vs where vs: "v = Inr (Inr vs)" by blast
    have "ks_good ks3 \<and> (\<exists>x. s = Inr x)"
      using 2(1) [OF g [symmetric] v [symmetric] vs refl V(1) m] by blast
    then show ?thesis using 2(3) v vs by (auto simp: g m split: sum.splits)
  next
    case False
    then show ?thesis using 2(3) v V by (auto simp: g split: sum.splits)
  qed
qed auto

lemma hok_wait_any: "ks_good ks \<Longrightarrow> hok al False now ks0 (Inl (Waits n), ks)"
  by (simp add: hok_def)

lemma hok_XREADGROUP: "ks_good ks \<Longrightarrow> hok False False (ev_now ev) ks (handleXReadGroup ev args ks)"
  unfolding handleXReadGroup_def Let_def
  by (auto intro!: hok_reply hok_wait_any split: option.split prod.split sum.split dest: read_group_once_good)

section \<open>Properties\<close>

definition unreported :: "string list" where
  "unreported = [''ZADD'', ''XADD'', ''XREADGROUP'']"

lemma safe_hash_reads: "safe cmd_HLEN" "safe cmd_HKEYS" "safe cmd_HVALS" "safe cmd_HGETALL"
  using safe_reads(9) by (simp_all add: cmd_HLEN_def cmd_HKEYS_def cmd_HVALS_def cmd_HGETALL_def)

lemma tables_safe:
  "(n, H) \<in> set read_commands \<Longrightarrow> safe H" "(n, H) \<in> set multi_read_commands \<Longrightarrow> safe H"
  "(n, H) \<in> set write_commands \<Longrightarrow> safe H" "(n, H) \<in> set multi_write_commands \<Longrightarrow> safe H"
  "(n, H) \<in> set flush_commands \<Longrightarrow> safe H"
  by (auto simp: tables safe_reads safe_hash_reads safe_XPENDING safe_XINFO safe_updates safe_PUSH
      safe_stream_updates safe_writes safe_SET safe_MGET safe_EXISTS safe_keyspace safe_INCRBY safe_XREAD safe_HINCRBY)

lemma data_commands_hok:
  assumes "(name, H) \<in> set data_commands" and "ks_good ks" and "name = ''ZADD'' \<Longrightarrow> no_nan ev args"
  shows "hok ((name, H) \<in> set pop_commands) (name \<notin> set unreported) (ev_now ev) ks (H ev args ks)"
proof -
  have weak: "hok al q now ks r" if "hok False True now ks r" for al q now r using that by (auto simp: hok_def)
  consider "safe H" | "(name, H) \<in> set pop_commands" | "(name, H) = (''ZADD'', handleZAdd)"
    | "(name, H) = (''XADD'', handleXAdd)" | "(name, H) = (''XREADGROUP'', handleXReadGroup)"
    using assms(1) tables_safe [of name H] safe_XGROUP
    by (auto simp: data_commands_def add_commands_def group_commands_def)
  then show ?thesis
  proof cases
    case 1
    then show ?thesis using assms(2) weak by (simp add: safe_def)
  next
    case 2
    then obtain pop nm where "H = cmd_POP nm pop" "pop \<in> {LPop, RPop}" by (auto simp: pop_commands_def)
    then have "hok True True (ev_now ev) ks (H ev args ks)" using hok_POP [OF assms(2)] by simp
    then show ?thesis using 2 by (auto simp: hok_def)
  qed (use assms(2,3) hok_ZADD hok_XADD hok_XREADGROUP in \<open>auto simp: unreported_def hok_def\<close>)
qed

text \<open>
  Property C11: the data commands are type safe. On a keyspace in which every entry holds a well-formed value of
  the type it claims, each command of the table leaves such a keyspace, so no type assertion can fail
  in any later command (hashes and sets hold each key once and sorted sets are well formed; for strings, lists and
  streams only the type is claimed); the only panic any of them can raise is that of \<open>LPOP\<close> and \<open>RPOP\<close> with a
  negative count. The scores given to \<open>ZADD\<close> are assumed to be numbers.
\<close>

theorem Commands_type_safe:
  assumes "(name, H) \<in> set data_commands" and "ks_good ks" and "name = ''ZADD'' \<longrightarrow> no_nan ev args"
  shows "ks_good (snd (H ev args ks))
    \<and> (\<forall>p. fst (H ev args ks) = Inl (Panics p) \<longrightarrow> name \<in> {''LPOP'', ''RPOP''} \<and> p = PanicMakesliceLen)"
  using data_commands_hok [OF assms(1,2)] assms(3) by (auto simp: hok_def pop_commands_def)

lemma ks_good_New: "ks_good NewKeyspace"
  using kmap.wf_empty by (simp add: ks_good_def sh_get_def NewKeyspace_def)

text \<open>An environment at time 5 in which one numeral is known.\<close>

definition env5 :: env where
  "env5 =
     \<lparr>ev_now = 5, ev_later = 5, ev_time = 5, ev_draws = (\<lambda>_. []), ev_fmt64 = (\<lambda>_. ''1''),
      ev_parse64 = (\<lambda>s. if s = ''1'' then Some 0x3FF0000000000000 else None),
      ev_match = (=), ev_id_err = (\<lambda>_. ''ERR'')\<rparr>"

theorem Commands_type_safe_witness:
  "ks_good (snd (cmd_SADD env5 [''s'', ''a''] NewKeyspace))
   \<and> (\<forall>p. fst (cmd_SADD env5 [''s'', ''a''] NewKeyspace) \<noteq> Inl (Panics p))"
  using Commands_type_safe [of "''SADD''" cmd_SADD NewKeyspace env5 "[''s'', ''a'']"] ks_good_New
  by (auto simp: data_commands_def write_commands_def)

text \<open>
  Property C29: a command that is not reported as a write, and so is neither logged nor sent to the replicas,
  has changed nothing a client can read: the live keys with their types, values and time limits are
  the same. Three commands are exceptions.
\<close>

theorem Commands_unreported_quiet:
  assumes "(name, H) \<in> set data_commands" and "ks_good ks" and "name \<notin> set unreported"
    and "\<forall>v. fst (H ev args ks) \<noteq> Inr (v, True)"
  shows "data (ev_now ev) (snd (H ev args ks)) = data (ev_now ev) ks"
proof -
  have "name \<noteq> ''ZADD''" using assms(3) by (auto simp: unreported_def)
  then show ?thesis using data_commands_hok [OF assms(1,2)] assms(3,4) by (auto simp: hok_def)
qed

theorem Commands_unreported_quiet_witness:
  "data 5 (snd (cmd_LLEN env5 [''l''] NewKeyspace)) = data 5 NewKeyspace"
proof -
  have "sh_get k NewKeyspace = None" for k by (simp add: sh_get_def NewKeyspace_def)
  then have "fst (cmd_LLEN env5 [''l''] NewKeyspace) = Inr (Integer 0, False)"
    by (simp add: cmd_LLEN_def with_typed_def ks_Get_def reply_def)
  then show ?thesis
    using Commands_unreported_quiet [of "''LLEN''" cmd_LLEN NewKeyspace env5 "[''l'']"] ks_good_New
    by (simp add: data_commands_def read_commands_def unreported_def env5_def)
qed

lemma readgroup_changes:
  "case handleXAdd env5 [''s'', ''1-1'', ''f'', ''v''] NewKeyspace of
     (_, ks1) \<Rightarrow> (case handleXGroup env5 [''CREATE'', ''s'', ''g'', ''0''] ks1 of
     (_, ks2) \<Rightarrow> (case handleXReadGroup env5 [''GROUP'', ''g'', ''c'', ''STREAMS'', ''s'', ''>''] ks2 of
     (r, ks) \<Rightarrow> map_sum id snd r = Inr False \<and> data 5 ks ''s'' \<noteq> data 5 ks2 ''s''))"
  by code_simp

lemma data_add_count [simp]: "data now (add_count n ks) = data now ks"
  by (simp add: data_def)

lemma data_put_new:
  "ks_ok ks \<Longrightarrow> en_ExpiresAt e = 0 \<Longrightarrow> data now (sh_put k e ks) = (data now ks)(k \<mapsto> (en_Type e, en_Value e, 0))"
  using live_put [of ks now k e] by (auto simp: data_def IsExpired_def)

text \<open>A run of valid scores, as arguments.\<close>

definition score_args :: "(string \<times> string) list \<Rightarrow> string list" where
  "score_args ps = concat (map (\<lambda>(sc, m). [sc, m]) ps)"

lemma zadd_loop_bad:
  assumes "\<forall>(sc, m) \<in> set ps. \<exists>x. ev_parse64 ev sc = Some x \<and> \<not> float_nan x" and "ev_parse64 ev bad = None" and "sl_wf z"
  shows "\<exists>z'. zadd_loop ev i (score_args ps @ bad # m # rest) z = (None, z') \<and>
    snd ` set (sl_entries z') = snd ` set ps \<union> snd ` set (sl_entries z)"
  using assms
proof (induction ps arbitrary: i z)
  case Nil
  then show ?case by (simp add: score_args_def)
next
  case (Cons p ps)
  obtain sc mem where p: "p = (sc, mem)" by (cases p)
  obtain x where x: "ev_parse64 ev sc = Some x" "\<not> float_nan x" using Cons.prems(1) by (auto simp: p)
  let ?z = "sl_Insert (randomLevel (ev_draws ev i)) x mem z"
  have z: "sl_wf ?z" "sl_entries ?z = z_insert x mem (sl_entries z)" using zs.ins [OF Cons.prems(3) TrueI x(2)] by blast+
  obtain z' where z': "zadd_loop ev (Suc i) (score_args ps @ bad # m # rest) ?z = (None, z')"
    "snd ` set (sl_entries z') = snd ` set ps \<union> snd ` set (sl_entries ?z)"
    using Cons.IH [OF _ Cons.prems(2) z(1), of "Suc i"] Cons.prems(1) by auto
  have "snd ` set (sl_entries ?z) = insert mem (snd ` set (sl_entries z))"
    unfolding z(2) set_z_insert by (auto simp: z_remove_def image_iff)
  then show ?case using z' x(1) by (auto simp: score_args_def p Let_def)
qed

lemma lookup_none:
  assumes "ks_good ks" and "data now ks key = None"
  shows "\<exists>ks'. lookup_live now key ks = (None, ks') \<and> ks_ok ks' \<and> data now ks' = data now ks \<and> sh_get key ks' = None"
proof -
  obtain r ks' where l: "lookup_live now key ks = (r, ks')" by fastforce
  have "live now ks key = None" using assms(2) by (simp add: data_def)
  then show ?thesis using good_lookup [OF assms(1) l] l by auto
qed

lemma ZADD_unreported:
  assumes "ks_good ks" and "data (ev_now ev) ks key = None"
    and "\<forall>(sc, m) \<in> set ps. \<exists>x. ev_parse64 ev sc = Some x \<and> \<not> float_nan x" and "ev_parse64 ev bad = None"
    and "even (length rest)"
  shows "\<exists>z ks'. handleZAdd ev (key # score_args ps @ bad # m # rest) ks = (Inr (Error ''ERR value is not a valid float'', False), ks')
    \<and> data (ev_now ev) ks' = (data (ev_now ev) ks)(key \<mapsto> (TypeZSet, AZSet z, 0)) \<and> snd ` set (sl_entries z) = snd ` set ps"
proof -
  obtain ks1 where l: "lookup_live (ev_now ev) key ks = (None, ks1)" "ks_ok ks1" "data (ev_now ev) ks1 = data (ev_now ev) ks"
    using lookup_none [OF assms(1,2)] by auto
  obtain z where z: "zadd_loop ev 0 (score_args ps @ bad # m # rest) NewSkipList = (None, z)"
    "snd ` set (sl_entries z) = snd ` set ps"
    using zadd_loop_bad [OF assms(3,4), of NewSkipList 0 m rest] sl_wf_New by auto
  have "length (score_args ps) = 2 * length ps" by (induction ps) (auto simp: score_args_def)
  then have o: "\<not> odd_args (key # score_args ps @ bad # m # rest)" using assms(5) by (simp add: odd_args_def even_iff_mod_2_eq_zero [symmetric])
  let ?e = "\<lparr>en_Type = TypeZSet, en_Value = AZSet NewSkipList, en_ExpiresAt = 0, en_UpdatedAt = ev_now ev, en_LastAccessedAt = ev_now ev\<rparr>"
  let ?ks = "store_value key ?e (AZSet z) (add_count 1 (sh_put key ?e ks1))"
  have "handleZAdd ev (key # score_args ps @ bad # m # rest) ks = (Inr (Error ''ERR value is not a valid float'', False), ?ks)"
    using o z(1) by (simp add: handleZAdd_def with_created_def GetOrCreate_def l(1) Let_def as_zset_def reply_def)
  moreover have "data (ev_now ev) ?ks = (data (ev_now ev) ks)(key \<mapsto> (TypeZSet, AZSet z, 0))"
    using l(2,3) by (simp add: store_value_def data_put_new kmap.wf_insert)
  ultimately show ?thesis using z(2) by blast
qed

lemma XADD_unreported:
  assumes "ks_good ks" and "data (ev_now ev) ks key = None"
    and "assign_id (ev_time ev) ident NewStream = Inl err" and "ToUpper ident \<noteq> ''MAXLEN''" and "flds \<noteq> []" and "even (length flds)"
  shows "\<exists>ks'. handleXAdd ev (key # ident # flds) ks = (Inr (Error (stream_err_text ev ident err), False), ks')
    \<and> data (ev_now ev) ks' = (data (ev_now ev) ks)(key \<mapsto> (TypeStream, AStream NewStream, 0))"
proof -
  obtain ks1 where l: "lookup_live (ev_now ev) key ks = (None, ks1)" "ks_ok ks1" "data (ev_now ev) ks1 = data (ev_now ev) ks" "sh_get key ks1 = None"
    using lookup_none [OF assms(1,2)] by auto
  let ?e = "\<lparr>en_Type = TypeStream, en_Value = AStream NewStream, en_ExpiresAt = 0, en_UpdatedAt = ev_now ev, en_LastAccessedAt = ev_now ev\<rparr>"
  let ?ks = "sh_put key ?e (add_count 1 ks1)"
  have "2 \<le> length flds" using assms(5,6) by (cases flds; cases "tl flds") auto
  then have "handleXAdd ev (key # ident # flds) ks = (Inr (Error (stream_err_text ev ident err), False), ?ks)"
    using assms(3-6)
    by (simp add: handleXAdd_def xadd_entry_def ks_Get_lookup_live l(1,4) Let_def ks_Set_def new_entry_def touch_def as_stream_def
        Stream_Add_def reply_def even_iff_mod_2_eq_zero [symmetric])
  moreover have "data (ev_now ev) ?ks = (data (ev_now ev) ks)(key \<mapsto> (TypeStream, AStream NewStream, 0))"
    using l(2,3) by (simp add: data_put_new)
  ultimately show ?thesis by blast
qed

lemma XREADGROUP_unreported:
  assumes "ks_good ks" and "data (ev_now ev) ks key = Some (TypeStream, AStream s, x)"
    and "group_ok grp s g" and "undelivered g (st_entries s) \<noteq> []"
  shows "\<exists>v ks'. handleXReadGroup ev [''GROUP'', grp, consumer, ''STREAMS'', key, ''>''] ks = (Inr (v, False), ks')
    \<and> data (ev_now ev) ks' key \<noteq> data (ev_now ev) ks key"
proof -
  obtain r ks1 where l: "lookup_live (ev_now ev) key ks = (r, ks1)" by fastforce
  note L = good_lookup [OF assms(1) l]
  obtain e where e: "r = Some e" "en_Type e = TypeStream" "en_Value e = AStream s" "en_ExpiresAt e = x"
    using assms(2) L(7) by (auto simp: data_def)
  obtain rs s' where read: "ReadGroup (ev_time ev) grp consumer ''>'' (- 1) False s = Inr (rs, s')"
    using assms(3) by (auto simp: group_ok_def ReadGroup_def Let_def case_prod_unfold)
  obtain g' where g': "group_ok grp s' g'" "st_entries s' = st_entries s" "rs = limit (- 1) (undelivered g (st_entries s))"
    "rs @ undelivered g' (st_entries s) = undelivered g (st_entries s)"
    using group_ok_read [OF assms(3) read] by auto
  have "undelivered g' (st_entries s) = []" "rs \<noteq> []" using g'(3,4) assms(4) by (auto simp: limit_def)
  then have ne: "s' \<noteq> s" using g'(1) assms(3,4) by (auto simp: group_ok_def)
  let ?ks = "store_value key e (AStream s') ks1"
  have "handleXReadGroup ev [''GROUP'', grp, consumer, ''STREAMS'', key, ''>''] ks =
      (Inr (Array [Array [BulkString key, Array (map stream_entry_value rs)]], False), ?ks)"
    using e read \<open>rs \<noteq> []\<close> by (simp add: handleXReadGroup_def ks_Get_lookup_live l Let_def reply_def)
  moreover have "live (ev_now ev) ?ks key = Some (e\<lparr>en_Value := AStream s'\<rparr>)"
    using live_put [of ks1 "ev_now ev" key "e\<lparr>en_Value := AStream s'\<rparr>"] L(5,6) e(1) by (simp add: store_value_def IsExpired_def)
  then have "data (ev_now ev) ?ks key \<noteq> data (ev_now ev) ks key" using assms(2) ne by (auto simp: data_def)
  ultimately show ?thesis by blast
qed

text \<open>
  Property C30: the three exceptions change data that clients read while they report no write, so the change is
  missing from the log and from the replicas. For every keyspace in which the key has no live entry, \<open>ZADD\<close> with
  valid scores and then an invalid one answers the error and leaves a sorted set of exactly the members before it, and \<open>XADD\<close> with
  an identifier that is refused answers the error and leaves an empty stream; no other key changes. And wherever a stream
  has a group with entries to deliver, \<open>XREADGROUP\<close> changes the stream.
\<close>

theorem Commands_unreported_writes:
  assumes "ks_good ks" and "data (ev_now ev) ks key = None"
  shows "((\<forall>(sc, m) \<in> set ps. \<exists>x. ev_parse64 ev sc = Some x \<and> \<not> float_nan x) \<and> ev_parse64 ev bad = None \<and> even (length rest) \<longrightarrow>
      (\<exists>z ks'. handleZAdd ev (key # score_args ps @ bad # m # rest) ks = (Inr (Error ''ERR value is not a valid float'', False), ks')
        \<and> data (ev_now ev) ks' = (data (ev_now ev) ks)(key \<mapsto> (TypeZSet, AZSet z, 0)) \<and> snd ` set (sl_entries z) = snd ` set ps))
    \<and> (assign_id (ev_time ev) ident NewStream = Inl err \<and> ToUpper ident \<noteq> ''MAXLEN'' \<and> flds \<noteq> [] \<and> even (length flds) \<longrightarrow>
      (\<exists>ks'. handleXAdd ev (key # ident # flds) ks = (Inr (Error (stream_err_text ev ident err), False), ks')
        \<and> data (ev_now ev) ks' = (data (ev_now ev) ks)(key \<mapsto> (TypeStream, AStream NewStream, 0))))
    \<and> (data (ev_now ev) ks key' = Some (TypeStream, AStream s, x) \<and> group_ok grp s g \<and> undelivered g (st_entries s) \<noteq> [] \<longrightarrow>
      (\<exists>v ks'. handleXReadGroup ev [''GROUP'', grp, consumer, ''STREAMS'', key', ''>''] ks = (Inr (v, False), ks')
        \<and> data (ev_now ev) ks' key' \<noteq> data (ev_now ev) ks key'))"
proof (intro conjI impI; elim conjE)
  show "\<exists>z ks'. handleZAdd ev (key # score_args ps @ bad # m # rest) ks = (Inr (Error ''ERR value is not a valid float'', False), ks')
      \<and> data (ev_now ev) ks' = (data (ev_now ev) ks)(key \<mapsto> (TypeZSet, AZSet z, 0)) \<and> snd ` set (sl_entries z) = snd ` set ps"
    if "\<forall>(sc, m) \<in> set ps. \<exists>x. ev_parse64 ev sc = Some x \<and> \<not> float_nan x" "ev_parse64 ev bad = None" "even (length rest)"
    using ZADD_unreported [OF assms that] .
qed (rule XADD_unreported [OF assms], assumption+, rule XREADGROUP_unreported [OF assms(1)], assumption+)

theorem Commands_unreported_writes_witness:
  "(\<exists>z ks'. handleZAdd env5 [''z'', ''1'', ''a'', ''x'', ''b''] NewKeyspace = (Inr (Error ''ERR value is not a valid float'', False), ks')
      \<and> data 5 ks' = (data 5 NewKeyspace)(''z'' \<mapsto> (TypeZSet, AZSet z, 0)) \<and> snd ` set (sl_entries z) = {''a''})
   \<and> (\<exists>ks'. handleXAdd env5 [''z'', ''x'', ''f'', ''v''] NewKeyspace = (Inr (Error ''ERR'', False), ks')
      \<and> data 5 ks' = (data 5 NewKeyspace)(''z'' \<mapsto> (TypeStream, AStream NewStream, 0)))
   \<and> (let ks = ks_Set 5 ''s'' (new_entry TypeStream (AStream demo_stream) 0) NewKeyspace
      in \<exists>v ks'. handleXReadGroup env5 [''GROUP'', ''g'', ''c'', ''STREAMS'', ''s'', ''>''] ks = (Inr (v, False), ks')
        \<and> data 5 ks' ''s'' \<noteq> data 5 ks ''s'')"
proof -
  have none: "data (ev_now env5) NewKeyspace ''z'' = None" by (simp add: data_def age_def sh_get_def NewKeyspace_def)
  have nan: "\<not> float_nan 0x3FF0000000000000" by code_simp
  have err: "assign_id 5 ''x'' NewStream = Inl ErrStreamIDFormat" "ToUpper ''x'' \<noteq> ''MAXLEN''" by code_simp+
  note W = Commands_unreported_writes [OF ks_good_New none]
  have a: "\<exists>z ks'. handleZAdd env5 [''z'', ''1'', ''a'', ''x'', ''b''] NewKeyspace = (Inr (Error ''ERR value is not a valid float'', False), ks')
      \<and> data 5 ks' = (data 5 NewKeyspace)(''z'' \<mapsto> (TypeZSet, AZSet z, 0)) \<and> snd ` set (sl_entries z) = {''a''}"
    using W [where ps = "[(''1'', ''a'')]" and bad = "''x''" and m = "''b''" and rest = "[]", THEN conjunct1] nan
    by (simp add: score_args_def env5_def)
  have b: "\<exists>ks'. handleXAdd env5 [''z'', ''x'', ''f'', ''v''] NewKeyspace = (Inr (Error ''ERR'', False), ks')
      \<and> data 5 ks' = (data 5 NewKeyspace)(''z'' \<mapsto> (TypeStream, AStream NewStream, 0))"
    using W [where ident = "''x''" and flds = "[''f'', ''v'']" and err = ErrStreamIDFormat, THEN conjunct2, THEN conjunct1] err
    by (simp add: env5_def)
  let ?ks = "ks_Set 5 ''s'' (new_entry TypeStream (AStream demo_stream) 0) NewKeyspace"
  have good: "ks_good ?ks" using ks_good_New by (simp add: ks_Set_def Let_def good_put new_entry_def)
  have d: "data 5 ?ks ''s'' = Some (TypeStream, AStream demo_stream, 0)" "data 5 ?ks ''z'' = None"
    using none good_ok [OF ks_good_New]
    by (simp_all add: ks_Set_def Let_def data_put_new new_entry_def env5_def)
  have g: "group_ok ''g'' demo_stream demo_group" "undelivered demo_group (st_entries demo_stream) \<noteq> []" by code_simp+
  have n: "ev_now env5 = 5" by (simp add: env5_def)
  have c: "\<exists>v ks'. handleXReadGroup env5 [''GROUP'', ''g'', ''c'', ''STREAMS'', ''s'', ''>''] ?ks = (Inr (v, False), ks')
        \<and> data 5 ks' ''s'' \<noteq> data 5 ?ks ''s''"
    using Commands_unreported_writes [where ks = ?ks and ev = env5 and key = "''z''" and key' = "''s''" and s = demo_stream and x = 0
        and grp = "''g''" and g = demo_group and consumer = "''c''", THEN conjunct2, THEN conjunct2] good d g n by simp
  show ?thesis unfolding Let_def using a b c by blast
qed

end
