(* ===== verification/Access.thy ===== *)
theory Access
  imports Commands
begin

text \<open>
  Access control: src/internal/engine/acl.go and, from engine.go, the extraction of the keys of a
  command, the list of write commands and the \<open>ACL\<close> command.

  The users are a map from names to records. The pattern matcher \<open>filepath.Match\<close> is an argument.
  The lemmas tie the permission check to what the commands do: \<open>frame\<close> says which keys a command can
  change, and the check confines a user to the keys that match the user's patterns, except for the
  commands whose keys are not where the extraction looks for them.
\<close>

section \<open>Users\<close>

datatype UserRole = RoleAdmin | RoleReadWrite | RoleReadOnly

record ACLUser =
  au_Username :: string
  au_Password :: string
  au_Enabled :: bool
  au_IsAdmin :: bool
  au_Role :: UserRole
  au_KeyPatterns :: "string list"
  au_ReadOnly :: bool

type_synonym ACLManager = "(string, ACLUser) gomap"

definition NewACLManager :: "string \<Rightarrow> ACLManager" where
  "NewACLManager defaultPassword =
     gput ''default''
       \<lparr>au_Username = ''default'', au_Password = defaultPassword, au_Enabled = True, au_IsAdmin = True,
        au_Role = RoleAdmin, au_KeyPatterns = [''*''], au_ReadOnly = False\<rparr> []"

definition Authenticate :: "string \<Rightarrow> string \<Rightarrow> ACLManager \<Rightarrow> ACLUser option" where
  "Authenticate username password m =
     (let username = (if username = [] then ''default'' else username) in
      case gget m username of
        None \<Rightarrow> None
      | Some user \<Rightarrow>
          if \<not> au_Enabled user then None
          else if au_Password user = [] then (if password = [] then Some user else None)
          else if password = au_Password user then Some user
          else None)"

definition SetUser :: "ACLUser \<Rightarrow> ACLManager \<Rightarrow> ACLManager" where
  "SetUser user m =
     (let user = (if au_KeyPatterns user = [] then user\<lparr>au_KeyPatterns := [''*'']\<rparr> else user)
      in gput (au_Username user) user m)"

definition GetUser :: "string \<Rightarrow> ACLManager \<Rightarrow> ACLUser option" where
  "GetUser username m = gget m username"

definition DeleteUser :: "string \<Rightarrow> ACLManager \<Rightarrow> bool \<times> ACLManager" where
  "DeleteUser username m =
     (if username = ''default'' then (False, m)
      else if gget m username = None then (False, m)
      else (True, gdel username m))"

definition ListUsers :: "ACLManager \<Rightarrow> ACLUser list" where
  "ListUsers m = map (\<lambda>(_, u). u\<lparr>au_Password := []\<rparr>) m"

definition ListUsernames :: "ACLManager \<Rightarrow> string list" where
  "ListUsernames m = gkeys m"

section \<open>Permissions\<close>

fun matchesAnyPattern :: "(string \<Rightarrow> string \<Rightarrow> bool) \<Rightarrow> string \<Rightarrow> string list \<Rightarrow> bool" where
  "matchesAnyPattern Match key [] = False"
| "matchesAnyPattern Match key (p # ps) =
     (if p = ''*'' \<or> p = ''~*'' then True
      else
        let clean = TrimPrefix p ''~'' in
        if Match clean key then True
        else if HasSuffix clean ''*'' \<and> HasPrefix key (TrimSuffix clean ''*'') then True
        else matchesAnyPattern Match key ps)"

definition admin_commands :: "string list" where
  "admin_commands = [''FLUSHDB'', ''FLUSHALL'', ''CONFIG'', ''SHUTDOWN'', ''BGREWRITEAOF'']"

definition mutating_commands :: "string list" where
  "mutating_commands =
     [''SET'', ''SETEX'', ''SETNX'', ''MSET'', ''DEL'', ''INCR'', ''INCRBY'', ''DECR'', ''DECRBY'',
      ''LPUSH'', ''RPUSH'', ''LPOP'', ''RPOP'', ''HSET'', ''HMSET'', ''HDEL'', ''HINCRBY'',
      ''SADD'', ''SREM'', ''ZADD'', ''ZREM'', ''ZINCRBY'', ''VADD'', ''VDEL'', ''XADD'', ''XDEL'', ''XTRIM'', ''XGROUP'',
      ''XACK'', ''EXPIRE'', ''EXPIREAT'', ''SAVE'', ''BGSAVE'']"

text \<open>The refusal with its reason, or \<open>None\<close> when the command may run.\<close>

definition CanExecute ::
  "(string \<Rightarrow> string \<Rightarrow> bool) \<Rightarrow> string \<Rightarrow> string \<Rightarrow> string list \<Rightarrow> ACLManager \<Rightarrow> string option" where
  "CanExecute Match username cmdName keys m =
     (let username = (if username = [] then ''default'' else username) in
      case gget m username of
        None \<Rightarrow> Some ''account is disabled or does not exist''
      | Some user \<Rightarrow>
          if \<not> au_Enabled user then Some ''account is disabled or does not exist''
          else
            let cmdUpper = ToUpper cmdName in
            if \<not> au_IsAdmin user \<and> cmdUpper \<in> set admin_commands then
              Some (''administrative command '' @ quoted cmdName @ '' not allowed for user '' @ quoted username)
            else if \<not> au_IsAdmin user \<and> au_ReadOnly user \<and> cmdUpper \<in> set mutating_commands then
              Some (''mutating command '' @ quoted cmdName @ '' not allowed for read-only user '' @ quoted username)
            else
              case find (\<lambda>key. \<not> matchesAnyPattern Match key (au_KeyPatterns user)) keys of
                Some key \<Rightarrow>
                  Some (''key '' @ quoted key @ '' violates allowed namespace pattern(s) for user '' @ quoted username)
              | None \<Rightarrow> None)"

section \<open>Keys of a command\<close>

definition keyless_commands :: "string list" where
  "keyless_commands =
     [''AUTH'', ''PING'', ''ECHO'', ''QUIT'', ''COMMAND'', ''CLIENT'', ''SELECT'', ''INFO'', ''DBSIZE'',
      ''TIME'', ''SLOWLOG'', ''MULTI'', ''EXEC'', ''DISCARD'', ''WATCH'', ''UNWATCH'', ''BGREWRITEAOF'', ''ACL'',
      ''FLUSHDB'', ''FLUSHALL'', ''CONFIG'', ''SHUTDOWN'', ''PUBSUB'', ''SUBSCRIBE'', ''UNSUBSCRIBE'', ''PSUBSCRIBE'',
      ''PUNSUBSCRIBE'', ''SAVE'', ''BGSAVE'', ''LASTSAVE'', ''CLUSTER'', ''REPLICAOF'', ''SLAVEOF'', ''REPLCONF'', ''ROLE'',
      ''SCRIPT'', ''WASM'']"

text \<open>The arguments at even positions, the last one included when the number is odd.\<close>

fun every_other :: "string list \<Rightarrow> string list" where
  "every_other [] = []"
| "every_other [k] = [k]"
| "every_other (k # _ # rest) = k # every_other rest"

text \<open>
  The sum \<open>2 + numKeys\<close> wraps round for the two largest counts. The check then passes and the slice
  expression panics.
\<close>

definition extractCommandKeys :: "string \<Rightarrow> string list \<Rightarrow> panic + string list" where
  "extractCommandKeys cmd args =
     (if args = [] then Inr []
      else if cmd \<in> set keyless_commands then Inr []
      else if cmd = ''EVAL'' \<or> cmd = ''EVALSHA'' then
        (if length args < 2 then Inr []
         else
           case Atoi (args ! 1) of
             None \<Rightarrow> Inr []
           | Some numKeys \<Rightarrow>
               let stop = wrap64 (2 + numKeys) in
               if numKeys \<le> 0 \<or> int (length args) < stop then Inr []
               else if stop < 2 then Inl PanicSliceBounds
               else Inr (drop 2 (take (nat stop) args)))
      else if cmd = ''MGET'' \<or> cmd = ''DEL'' \<or> cmd = ''EXISTS'' then Inr args
      else if cmd = ''MSET'' then Inr (every_other args)
      else Inr [hd args])"

definition isWriteCommand :: "string \<Rightarrow> bool" where
  "isWriteCommand cmd \<longleftrightarrow>
     cmd \<in> set [''SET'', ''MSET'', ''DEL'', ''EXPIRE'', ''PEXPIREAT'', ''EXPIREAT'', ''PERSIST'',
       ''INCR'', ''INCRBY'', ''DECR'', ''DECRBY'', ''APPEND'',
       ''HSET'', ''HMSET'', ''HDEL'', ''HINCRBY'',
       ''LPUSH'', ''RPUSH'', ''LPOP'', ''RPOP'', ''LSET'', ''LTRIM'',
       ''SADD'', ''SREM'', ''SPOP'',
       ''ZADD'', ''ZREM'', ''ZINCRBY'', ''ZREMRANGEBYSCORE'',
       ''VADD'', ''VDEL'', ''FLUSHDB'', ''FLUSHALL'', ''XADD'', ''XDEL'', ''XTRIM'', ''XGROUP'', ''XACK'']"

section \<open>The ACL command\<close>

definition user_line :: "ACLUser \<Rightarrow> string" where
  "user_line u =
     (let state = (if au_Enabled u then ''on'' else ''off'');
          perms = (if au_ReadOnly u then ''+@read'' else ''+@all'');
          patterns = Join (au_KeyPatterns u) '' ~'';
          patterns = (if patterns \<noteq> [] then ''~'' @ patterns else patterns)
      in ''user '' @ au_Username u @ '' '' @ state @ '' '' @ patterns @ '' '' @ perms)"

definition user_flags :: "ACLUser \<Rightarrow> Value" where
  "user_flags u =
     Array
       [BulkString ''flags'',
        Array ([BulkString (if au_Enabled u then ''on'' else ''off'')]
               @ (if au_IsAdmin u then [BulkString ''admin''] else [])),
        BulkString ''keys'', Array (map BulkString (au_KeyPatterns u))]"

definition set_token :: "string \<Rightarrow> ACLUser \<Rightarrow> ACLUser" where
  "set_token tok user =
     (if tok = ''on'' then user\<lparr>au_Enabled := True\<rparr>
      else if tok = ''off'' then user\<lparr>au_Enabled := False\<rparr>
      else if HasPrefix tok ''>'' then user\<lparr>au_Password := TrimPrefix tok ''>''\<rparr>
      else if HasPrefix tok ''~'' then user\<lparr>au_KeyPatterns := [TrimPrefix tok ''~'']\<rparr>
      else if tok = ''admin'' then user\<lparr>au_IsAdmin := True, au_ReadOnly := False, au_Role := RoleAdmin\<rparr>
      else if tok = ''+@all'' \<or> tok = ''+@write'' \<or> tok = ''readwrite'' then
        user\<lparr>au_ReadOnly := False, au_IsAdmin := False, au_Role := RoleReadWrite\<rparr>
      else if tok = ''+@read'' \<or> tok = ''readonly'' then
        user\<lparr>au_ReadOnly := True, au_IsAdmin := False, au_Role := RoleReadOnly\<rparr>
      else user)"

definition new_user :: "string \<Rightarrow> ACLUser" where
  "new_user username =
     \<lparr>au_Username = username, au_Password = [], au_Enabled = True, au_IsAdmin = False,
      au_Role = RoleReadWrite, au_KeyPatterns = [''*''], au_ReadOnly = False\<rparr>"

text \<open>\<open>handleACLCommand\<close> for the user name of the session.\<close>

definition handleACLCommand :: "string \<Rightarrow> string list \<Rightarrow> ACLManager \<Rightarrow> Value \<times> ACLManager" where
  "handleACLCommand username args m =
     (case args of
        [] \<Rightarrow> (wrong_args ''acl'', m)
      | sub # rest \<Rightarrow>
          (let aclSub = ToUpper sub;
               callerName = (if username = [] then ''default'' else username);
               admin = (case GetUser callerName m of Some u \<Rightarrow> au_IsAdmin u | None \<Rightarrow> False)
           in if aclSub \<noteq> ''WHOAMI'' \<and> \<not> admin then
                (Error (''NOPERM administrative command '' @ quoted (''ACL '' @ aclSub) @ '' not allowed for user ''
                        @ quoted callerName), m)
              else if aclSub = ''WHOAMI'' then (BulkString callerName, m)
              else if aclSub = ''USERS'' then (bulk_array (ListUsernames m), m)
              else if aclSub = ''LIST'' then (bulk_array (map user_line (ListUsers m)), m)
              else if aclSub = ''GETUSER'' then
                (case rest of
                   [] \<Rightarrow> (wrong_args ''acl getuser'', m)
                 | name # _ \<Rightarrow> (case GetUser name m of None \<Rightarrow> (Null, m) | Some u \<Rightarrow> (user_flags u, m)))
              else if aclSub = ''SETUSER'' then
                (case rest of
                   [] \<Rightarrow> (wrong_args ''acl setuser'', m)
                 | name # toks \<Rightarrow>
                     (let user = (case GetUser name m of Some u \<Rightarrow> u | None \<Rightarrow> new_user name)
                      in (SimpleString ''OK'', SetUser (fold set_token toks user) m)))
              else if aclSub = ''DELUSER'' then
                (case rest of
                   [] \<Rightarrow> (wrong_args ''acl deluser'', m)
                 | name # _ \<Rightarrow>
                     (case DeleteUser name m of
                        (True, m) \<Rightarrow> (Integer 1, m)
                      | (False, m) \<Rightarrow> (Integer 0, m)))
              else (Error (''ERR unknown ACL subcommand '' @ quoted aclSub), m)))"

section \<open>What a command can change\<close>

text \<open>
  \<open>same K now ks ks0\<close>: outside the keys \<open>K\<close>, clients read the same in both keyspaces; \<open>frame\<close> is
  this for the keyspace after a handler.
\<close>

definition same :: "string set \<Rightarrow> int \<Rightarrow> Keyspace \<Rightarrow> Keyspace \<Rightarrow> bool" where
  "same K now ks ks0 \<longleftrightarrow> (\<forall>k. k \<notin> K \<longrightarrow> data now ks k = data now ks0 k)"

definition frame :: "string set \<Rightarrow> int \<Rightarrow> Keyspace \<Rightarrow> result \<times> Keyspace \<Rightarrow> bool" where
  "frame K now ks0 r \<longleftrightarrow> same K now (snd r) ks0"

lemma same_data: "data now ks = data now ks0 \<Longrightarrow> same K now ks ks0"
  by (simp add: same_def)

lemma same_put:
  assumes "ks_good ks" and "same K now ks ks0" and "key \<in> K"
  shows "same K now (sh_put key e ks) ks0"
  using assms live_put [OF good_ok [OF assms(1)], of now key e] by (auto simp: same_def data_def)

lemma same_del:
  assumes "ks_good ks" and "same K now ks ks0" and "key \<in> K"
  shows "same K now (sh_del key ks) ks0"
  using assms sh_get_del [OF good_ok [OF assms(1)], of _ key] by (auto simp: same_def data_def age_def)

lemma same_add_count [simp]: "same K now (add_count n ks) ks0 = same K now ks ks0"
  by (simp add: same_def data_def)

lemma same_store: "ks_good ks \<Longrightarrow> same K now ks ks0 \<Longrightarrow> key \<in> K \<Longrightarrow> same K now (store_value key e v ks) ks0"
  by (simp add: store_value_def same_put)

lemma same_Set: "ks_good ks \<Longrightarrow> same K now ks ks0 \<Longrightarrow> key \<in> K \<Longrightarrow> same K now (ks_Set t key e ks) ks0"
  by (simp add: ks_Set_def Let_def same_put)

lemma same_mono: "same K now ks ks0 \<Longrightarrow> K \<subseteq> K' \<Longrightarrow> same K' now ks ks0"
  by (auto simp: same_def)

lemma frame_reply: "same K now ks ks0 \<Longrightarrow> frame K now ks0 (reply v w ks)"
  by (simp add: frame_def reply_def)

lemma frame_panic: "same K now ks ks0 \<Longrightarrow> frame K now ks0 (go_panic p ks)"
  by (simp add: frame_def go_panic_def)

lemma frame_wait: "same K now ks ks0 \<Longrightarrow> frame K now ks0 (Inl (Waits n), ks)"
  by (simp add: frame_def)

lemma frame_if: "(c \<Longrightarrow> frame K now ks0 a) \<Longrightarrow> (\<not> c \<Longrightarrow> frame K now ks0 b) \<Longrightarrow> frame K now ks0 (if c then a else b)"
  by simp

lemma frame_get:
  assumes "ks_good ks0"
    and "\<And>ks. ks_good ks \<Longrightarrow> same K now ks ks0 \<Longrightarrow> frame K now ks0 (f ks)"
    and "\<And>e ks. ks_good ks \<Longrightarrow> same K now ks ks0 \<Longrightarrow> frame K now ks0 (g e ks)"
  shows "frame K now ks0 (case ks_Get now key ks0 of (None, ks) \<Rightarrow> f ks | (Some e, ks) \<Rightarrow> g e ks)"
proof -
  obtain r ks where g: "ks_Get now key ks0 = (r, ks)" by fastforce
  note G = get_good [OF assms(1) g]
  show ?thesis using assms(2,3) [OF G(1) same_data [OF G(2)]] by (simp add: g split: option.split)
qed

lemma frame_with_typed:
  assumes "ks_good ks0" and "\<And>e ks. ks_good ks \<Longrightarrow> same K (ev_now ev) ks ks0 \<Longrightarrow> frame K (ev_now ev) ks0 (f e ks)"
  shows "frame K (ev_now ev) ks0 (with_typed ev key t d f ks0)"
  unfolding with_typed_def by (rule frame_get) (use assms in \<open>auto intro: frame_reply\<close>)

lemma frame_with_created:
  assumes good: "ks_good ks0" and new: "value_ok t new" and "key \<in> K"
    and f: "\<And>e ks. ks_good ks \<Longrightarrow> same K (ev_now ev) ks ks0 \<Longrightarrow> frame K (ev_now ev) ks0 (f e ks)"
  shows "frame K (ev_now ev) ks0 (with_created ev key t new f ks0)"
proof -
  obtain r ks where l: "lookup_live (ev_now ev) key ks0 = (r, ks)" by fastforce
  note L = good_lookup [OF good l]
  have s: "same K (ev_now ev) (sh_put key e ks) ks0" for e
    by (rule same_put [OF L(1) same_data [OF L(2)] assms(3)])
  have "frame K (ev_now ev) ks0 (f e (sh_put key e ks))" if "value_ok (en_Type e) (en_Value e)" for e
    using f [OF good_put [OF L(1) that] s] .
  moreover have "frame K (ev_now ev) ks0 (f e (add_count 1 (sh_put key e ks)))" if "value_ok (en_Type e) (en_Value e)" for e
    using f [of "add_count 1 (sh_put key e ks)"] good_put [OF L(1) that] s by simp
  ultimately show ?thesis using L(3) s new
    by (auto simp: with_created_def GetOrCreate_def l Let_def intro!: frame_reply split: option.split)
qed

lemma frame_as:
  assumes "same K now ks ks0"
  shows "(\<And>s. frame K now ks0 (fs s)) \<Longrightarrow> frame K now ks0 (as_string e fs ks)"
    and "(\<And>h. frame K now ks0 (fh h)) \<Longrightarrow> frame K now ks0 (as_hash e fh ks)"
    and "(\<And>l. frame K now ks0 (fl l)) \<Longrightarrow> frame K now ks0 (as_list e fl ks)"
    and "(\<And>s. frame K now ks0 (ft s)) \<Longrightarrow> frame K now ks0 (as_set e ft ks)"
    and "(\<And>z. frame K now ks0 (fz z)) \<Longrightarrow> frame K now ks0 (as_zset e fz ks)"
    and "(\<And>x. frame K now ks0 (fx x)) \<Longrightarrow> frame K now ks0 (as_stream e fx ks)"
  using frame_panic [OF assms]
  by (cases "en_Value e"; auto simp: as_string_def as_hash_def as_list_def as_set_def as_zset_def as_stream_def)+

text \<open>\<open>framed H\<close>: the handler changes at most its first argument's key.\<close>

definition framed :: "handler \<Rightarrow> bool" where
  "framed H \<longleftrightarrow> (\<forall>ev args ks. ks_good ks \<longrightarrow> frame (set (take 1 args)) (ev_now ev) ks (H ev args ks))"

lemma framedI: "(\<And>ev args ks. ks_good ks \<Longrightarrow> frame (set (take 1 args)) (ev_now ev) ks (H ev args ks)) \<Longrightarrow> framed H"
  by (simp add: framed_def)

lemmas frame_intros = framedI frame_reply frame_panic frame_wait frame_with_typed frame_with_created frame_as frame_get
  frame_if same_store

lemma same_refl [simp]: "same K now ks ks"
  by (simp add: same_def)

lemma framed_reads:
  "framed cmd_GET" "framed cmd_TYPE" "framed cmd_STRLEN" "framed cmd_KEYS" "framed cmd_DBSIZE"
  "framed cmd_HGET" "framed cmd_HMGET" "framed cmd_HEXISTS" "framed (cmd_hash_read name d f)"
  "framed cmd_LRANGE" "framed cmd_LLEN" "framed cmd_LINDEX" "framed cmd_SMEMBERS" "framed cmd_SISMEMBER" "framed cmd_SCARD"
  "framed cmd_ZSCORE" "framed cmd_ZRANK" "framed (handleZRange reverse)" "framed cmd_ZCARD"
  "framed handleXRange" "framed handleXRevRange" "framed cmd_XLEN"
  unfolding cmd_GET_def cmd_TYPE_def cmd_STRLEN_def cmd_KEYS_def cmd_DBSIZE_def cmd_HGET_def cmd_HMGET_def
    cmd_HEXISTS_def cmd_hash_read_def cmd_LRANGE_def cmd_LLEN_def cmd_LINDEX_def cmd_SMEMBERS_def
    cmd_SISMEMBER_def cmd_SCARD_def cmd_ZSCORE_def cmd_ZRANK_def handleZRange_def cmd_ZCARD_def
    handleXRange_def handleXRevRange_def cmd_XLEN_def Let_def
  by (auto intro!: frame_intros split: split_handlers)

lemma odd_args_hd: "\<not> odd_args args \<Longrightarrow> hd args \<in> set (take 1 args)"
  by (cases args) (auto simp: odd_args_def)

lemma framed_updates:
  "framed handleHSet" "framed handleHMSet" "framed cmd_HDEL" "framed cmd_HINCRBY" "framed (cmd_PUSH name push)"
  "framed (cmd_POP name pop)" "framed cmd_SADD" "framed cmd_SREM" "framed handleZAdd" "framed cmd_ZREM"
  "framed handleXDel" "framed handleXTrim" "framed handleXAck"
  unfolding handleHSet_def handleHMSet_def cmd_HDEL_def cmd_HINCRBY_def cmd_PUSH_def cmd_POP_def cmd_SADD_def cmd_SREM_def
    handleZAdd_def cmd_ZREM_def handleXDel_def handleXTrim_def handleXAck_def Let_def
  by (auto intro!: frame_intros dest: odd_args_hd simp: empty_values
      simp del: Hash_Del.simps Set_Add.simps Set_Rem.simps zrem_loop.simps split: split_handlers prod.split sum.split)

lemma framed_inspect: "framed handleXPending" "framed handleXInfo"
  unfolding handleXPending_def xpending_summary_def xpending_detailed_def handleXInfo_def Let_def
  by (auto intro!: frame_intros split: split_handlers sum.split prod.split)

lemma framed_keyspace:
  "framed (handleIncrBy d)" "framed cmd_APPEND" "framed cmd_SETNX" "framed (cmd_EXPIRE name u)" "framed cmd_PERSIST"
  "framed cmd_TTL" "framed cmd_PTTL" "framed (cmd_SETEX name u)"
proof -
  note defs = handleIncrBy_def cmd_APPEND_def cmd_SETNX_def cmd_EXPIRE_def cmd_PERSIST_def cmd_TTL_def cmd_PTTL_def
    ks_IncrBy_def ks_Append_def SetNX_def ks_Expire_def ks_Persist_def ks_TTL_def ks_PTTL_def ks_Get_lookup_live Let_def
    cmd_SETEX_def
  have "frame (set (take 1 args)) (ev_now ev) ks (H ev args ks)"
    if "ks_good ks"
      and "H \<in> {handleIncrBy d, cmd_APPEND, cmd_SETNX, cmd_EXPIRE name u, cmd_PERSIST, cmd_TTL, cmd_PTTL, cmd_SETEX name u}"
    for H ev args ks
  proof (cases args)
    case (Cons key rest)
    show ?thesis using that(1)
    proof (cases rule: lookup_cases [where now = "ev_now ev" and k = key])
      case (None ks1)
      then show ?thesis using that Cons
        by (auto simp: defs intro!: frame_reply same_put same_Set same_data [OF None(3)] split: split_handlers)
    next
      case (Some e ks1)
      then show ?thesis using that Cons
        by (auto simp: defs intro!: frame_reply same_put same_Set same_data [OF Some(3)] split: split_handlers any.split)
    qed
  qed (use that in \<open>auto simp: defs intro!: frame_reply\<close>)
  then show "framed (handleIncrBy d)" "framed cmd_APPEND" "framed cmd_SETNX" "framed (cmd_EXPIRE name u)"
    "framed cmd_PERSIST" "framed cmd_TTL" "framed cmd_PTTL" "framed (cmd_SETEX name u)" by (auto intro!: framedI)
qed

lemma framed_INCRBY: "framed (cmd_INCRBY name f)"
  using framed_keyspace(1) by (auto simp: cmd_INCRBY_def framed_def intro!: frame_reply split: split_handlers) (metis list.set(1,2) take_Suc_Cons take0)

lemma framed_SET: "framed handleSet"
proof (rule framedI)
  fix ev :: env and args ks assume good: "ks_good ks"
  have "same K (ev_now ev) ks' ks" "ks_good ks'" if "ks_Get (ev_now ev) k ks = (r, ks')" for K k r ks'
    using get_good(1,2) [OF good that] by (simp_all add: same_data)
  then show "frame (set (take 1 args)) (ev_now ev) ks (handleSet ev args ks)"
    using good by (auto simp: handleSet_def Let_def intro!: frame_reply same_Set split: list.split sum.split prod.split if_splits)
qed

lemma framed_XADD: "framed handleXAdd"
proof (rule framedI)
  fix ev :: env and args ks assume good: "ks_good ks"
  have x: "frame K (ev_now ev) ks (xadd_entry ev key n i fvs ks)" if "key \<in> K" for K key n i fvs
    using good that unfolding xadd_entry_def Let_def
    by (auto intro!: frame_intros same_Set good_Set simp: new_entry_def split: sum.split)
  show "frame (set (take 1 args)) (ev_now ev) ks (handleXAdd ev args ks)"
    using good by (cases args) (auto simp: handleXAdd_def Let_def intro!: frame_reply x split: split_handlers)
qed

text \<open>The commands on several keys.\<close>

lemma frame_quiet: "safe H \<Longrightarrow> ks_good ks \<Longrightarrow> (\<And>v. fst (H ev args ks) \<noteq> Inr (v, True)) \<Longrightarrow> frame K (ev_now ev) ks (H ev args ks)"
  by (auto simp: safe_def hok_def frame_def same_def)

lemma quiet_multi:
  "fst (cmd_MGET ev args ks) \<noteq> Inr (v, True)" "fst (cmd_EXISTS ev args ks) \<noteq> Inr (v, True)"
  "fst (handleXRead ev args ks) \<noteq> Inr (v, True)"
  by (auto simp: cmd_MGET_def cmd_EXISTS_def handleXRead_def go_panic_def reply_def Let_def
      split: prod.split sum.split option.split)

lemma same_mset_loop:
  "ks_good ks \<Longrightarrow> same K now ks ks0 \<Longrightarrow> set (every_other kvs) \<subseteq> K \<Longrightarrow> same K now (mset_loop t kvs ks) ks0"
  by (induction t kvs ks rule: mset_loop.induct) (auto simp: same_Set good_Set new_entry_def)

lemma frame_MSET: "ks_good ks \<Longrightarrow> frame (set (every_other args)) (ev_now ev) ks (cmd_MSET ev args ks)"
  by (auto simp: cmd_MSET_def intro!: frame_reply same_mset_loop)

lemma same_Delete: "ks_good ks \<Longrightarrow> same K now ks ks0 \<Longrightarrow> set keys \<subseteq> K \<Longrightarrow> same K now (snd (ks_Delete keys ks)) ks0"
  by (induction keys ks rule: ks_Delete.induct) (auto simp: same_del good_del split: prod.split)

lemma frame_DEL: "ks_good ks \<Longrightarrow> frame (set args) (ev_now ev) ks (cmd_DEL ev args ks)"
  using same_Delete [of ks "set args" "ev_now ev" ks args] by (auto simp: cmd_DEL_def intro!: frame_reply split: prod.split)

section \<open>Properties\<close>

text \<open>Commands whose keys the extraction does not find, and those that change every key.\<close>

definition escapes :: "string list" where
  "escapes = map fst (group_commands @ flush_commands)"

lemma framed_hash_reads: "framed cmd_HLEN" "framed cmd_HKEYS" "framed cmd_HVALS" "framed cmd_HGETALL"
  using framed_reads(9) by (simp_all add: cmd_HLEN_def cmd_HKEYS_def cmd_HVALS_def cmd_HGETALL_def)

lemma extract_single:
  "cmd \<notin> set keyless_commands \<Longrightarrow> cmd \<notin> set [''EVAL'', ''EVALSHA'', ''MGET'', ''DEL'', ''EXISTS'', ''MSET''] \<Longrightarrow>
   extractCommandKeys cmd args = Inr (take 1 args)"
  by (cases args) (auto simp: extractCommandKeys_def)

definition single_key_commands :: "(string \<times> handler) list" where
  "single_key_commands = read_commands @ write_commands @ pop_commands @ add_commands"

lemma single_key_names:
  "list_all (\<lambda>n. n \<notin> set keyless_commands \<and> n \<notin> set [''EVAL'', ''EVALSHA'', ''MGET'', ''DEL'', ''EXISTS'', ''MSET''])
     (map fst single_key_commands)"
  unfolding single_key_commands_def tables append.simps list.map fst_conv by code_simp

lemma single_key_extract: "(n, H) \<in> set single_key_commands \<Longrightarrow> extractCommandKeys n args = Inr (take 1 args)"
  using single_key_names extract_single [of n args] unfolding list_all_iff by force

lemma single_key_framed: "(n, H) \<in> set single_key_commands \<Longrightarrow> framed H"
  by (auto simp: single_key_commands_def tables framed_reads framed_hash_reads
      framed_updates framed_inspect framed_keyspace framed_INCRBY framed_SET framed_XADD)

lemma multi_key_frame:
  assumes "(name, H) \<in> set (multi_read_commands @ multi_write_commands)" and "ks_good ks"
    and "extractCommandKeys name args = Inr keys"
  shows "frame (set keys) (ev_now ev) ks (H ev args ks)"
proof -
  have d: "fst (cmd_DBSIZE ev args ks) \<noteq> Inr (v, True)" for v by (simp add: cmd_DBSIZE_def reply_def)
  have k: "extractCommandKeys ''DEL'' args = Inr args" "extractCommandKeys ''MSET'' args = Inr (every_other args)"
    by (simp_all add: extractCommandKeys_def keyless_commands_def)
  consider "name = ''DEL''" "H = cmd_DEL" | "name = ''MSET''" "H = cmd_MSET" | "H = cmd_MGET" | "H = cmd_EXISTS"
    | "H = handleXRead" | "H = cmd_DBSIZE"
    using assms(1) unfolding multi_read_commands_def multi_write_commands_def by auto
  then show ?thesis
  proof cases
    case 1 then show ?thesis using frame_DEL [OF assms(2), of args ev] assms(3) k(1) by simp
  next
    case 2 then show ?thesis using frame_MSET [OF assms(2), of args ev] assms(3) k(2) by simp
  next
    case 3 then show ?thesis using frame_quiet [OF safe_MGET assms(2) quiet_multi(1)] by simp
  next
    case 4 then show ?thesis using frame_quiet [OF safe_EXISTS assms(2) quiet_multi(2)] by simp
  next
    case 5 then show ?thesis using frame_quiet [OF safe_XREAD assms(2) quiet_multi(3)] by simp
  next
    case 6 then show ?thesis using frame_quiet [OF safe_reads(5) assms(2) d] by simp
  qed
qed

lemma data_commands_frame:
  assumes "(name, H) \<in> set data_commands" and "ks_good ks" and "name \<notin> set escapes"
    and "extractCommandKeys name args = Inr keys"
  shows "frame (set keys) (ev_now ev) ks (H ev args ks)"
proof -
  have "name = fst (name, H)" by simp
  then have "(name, H) \<notin> set (group_commands @ flush_commands)"
    using assms(3) unfolding escapes_def set_map by blast
  then consider "(name, H) \<in> set single_key_commands" | "(name, H) \<in> set (multi_read_commands @ multi_write_commands)"
    using assms(1) by (auto simp: data_commands_def single_key_commands_def)
  then show ?thesis
  proof cases
    case 1
    then have "framed H" "extractCommandKeys name args = Inr (take 1 args)"
      by (rule single_key_framed, rule single_key_extract)
    then show ?thesis using assms(2,4) by (simp add: framed_def)
  qed (rule multi_key_frame [OF _ assms(2,4)])
qed

text \<open>
  Property C16: the keys extracted from a command cover what it changes. Every data command but \<open>XGROUP\<close>,
  \<open>XREADGROUP\<close> and the flushes leaves each key outside the extracted ones as clients read it. The
  permission check, the transaction guard and the slot routing all rest on this.
\<close>

theorem Command_keys_cover:
  assumes "(name, H) \<in> set data_commands" and "ks_good ks" and "name \<notin> set escapes"
    and "extractCommandKeys name args = Inr keys" and "k \<notin> set keys"
  shows "data (ev_now ev) (snd (H ev args ks)) k = data (ev_now ev) ks k"
  using data_commands_frame [OF assms(1-4), of ev] assms(5) by (simp add: frame_def same_def)

theorem Command_keys_cover_witness:
  "data 5 (snd (cmd_DEL env5 [''a'', ''b''] NewKeyspace)) ''c'' = data 5 NewKeyspace ''c''"
  using Command_keys_cover [of "''DEL''" cmd_DEL NewKeyspace "[''a'', ''b'']" "[''a'', ''b'']" "''c''" env5] ks_good_New
  by (simp add: data_commands_def tables escapes_def extractCommandKeys_def keyless_commands_def env5_def)

lemma CanExecute_None:
  assumes "CanExecute Match username name keys m = None" and "username \<noteq> []"
  obtains user where "gget m username = Some user" and "au_Enabled user"
    and "au_IsAdmin user \<or> ToUpper name \<notin> set admin_commands"
    and "au_IsAdmin user \<or> \<not> au_ReadOnly user \<or> ToUpper name \<notin> set mutating_commands"
    and "\<forall>key \<in> set keys. matchesAnyPattern Match key (au_KeyPatterns user)"
  using assms by (fastforce simp: CanExecute_def Let_def find_None_iff split: option.splits if_splits)

text \<open>
  Property C12: the permission check confines the changes of a user to the user's key patterns. A data command that passes it
  for a user who is not an administrator changes no key outside them, unless the command is
  \<open>XGROUP\<close> or \<open>XREADGROUP\<close>, whose keys are not where the extraction looks. Nothing is said of reading:
  \<open>KEYS\<close> and \<open>XREAD\<close> show keys the extraction does not see.
\<close>

theorem ACL_confines:
  assumes "CanExecute Match username name keys m = None" and "username \<noteq> []" and "gget m username = Some user"
    and "extractCommandKeys name args = Inr keys" and "\<not> matchesAnyPattern Match k (au_KeyPatterns user)"
    and "(name, H) \<in> set data_commands" and "ks_good ks" and "name \<noteq> ''XGROUP''" and "name \<noteq> ''XREADGROUP''"
    and "\<not> au_IsAdmin user"
  shows "data (ev_now ev) (snd (H ev args ks)) k = data (ev_now ev) ks k"
proof -
  from CanExecute_None [OF assms(1,2)] obtain u where u: "gget m username = Some u"
    "au_IsAdmin u \<or> ToUpper name \<notin> set admin_commands"
    "\<forall>key \<in> set keys. matchesAnyPattern Match key (au_KeyPatterns u)" by blast
  have "u = user" using u(1) assms(3) by simp
  then have k: "k \<notin> set keys" and a: "ToUpper name \<notin> set admin_commands" using u(2,3) assms(5,10) by auto
  have "ToUpper ''FLUSHDB'' \<in> set admin_commands" "ToUpper ''FLUSHALL'' \<in> set admin_commands"
    by (simp_all add: admin_commands_def)
  then have "name \<noteq> ''FLUSHDB''" "name \<noteq> ''FLUSHALL''" using a by metis+
  then have "name \<notin> set escapes" using assms(8,9) by (simp add: escapes_def group_commands_def flush_commands_def)
  with k show ?thesis
    using data_commands_frame [OF assms(6,7) _ assms(4), of ev] by (simp add: frame_def same_def)
qed

theorem ACL_confines_witness:
  "data 5 (snd (cmd_APPEND env5 [''app:x'', ''v''] NewKeyspace)) ''sys:y'' = data 5 NewKeyspace ''sys:y''"
proof -
  let ?u = "(new_user ''bob'')\<lparr>au_KeyPatterns := [''app:*'']\<rparr>"
  have "CanExecute (=) ''bob'' ''APPEND'' [''app:x''] [(''bob'', ?u)] = None"
    and "gget [(''bob'', ?u)] ''bob'' = Some ?u"
    and "extractCommandKeys ''APPEND'' [''app:x'', ''v''] = Inr [''app:x'']"
    and "\<not> matchesAnyPattern (=) ''sys:y'' (au_KeyPatterns ?u)" and "\<not> au_IsAdmin ?u"
    by code_simp+
  from ACL_confines [OF this(1) _ this(2-4) _ ks_good_New _ _ this(5), of cmd_APPEND env5]
  show ?thesis by (simp add: data_commands_def write_commands_def env5_def)
qed

text \<open>Handlers that never report a write, and, for a safe one, change nothing.\<close>

definition no_write :: "result \<times> Keyspace \<Rightarrow> bool" where
  "no_write r \<longleftrightarrow> (\<forall>v. fst r \<noteq> Inr (v, True))"

definition quiet :: "handler \<Rightarrow> bool" where
  "quiet H \<longleftrightarrow> (\<forall>ev args ks. no_write (H ev args ks))"

lemma no_write_base: "no_write (reply v False ks)" "no_write (go_panic p ks)"
  by (simp_all add: reply_def go_panic_def no_write_def)

lemma no_write_with_typed: "(\<And>e ks. no_write (f e ks)) \<Longrightarrow> no_write (with_typed ev key t d f ks0)"
  by (auto simp: with_typed_def no_write_base split: prod.split option.split)

lemma no_write_as:
  "(\<And>x. no_write (fs x)) \<Longrightarrow> no_write (as_string e fs ks)" "(\<And>x. no_write (fh x)) \<Longrightarrow> no_write (as_hash e fh ks)"
  "(\<And>x. no_write (fl x)) \<Longrightarrow> no_write (as_list e fl ks)" "(\<And>x. no_write (ft x)) \<Longrightarrow> no_write (as_set e ft ks)"
  "(\<And>x. no_write (fz x)) \<Longrightarrow> no_write (as_zset e fz ks)" "(\<And>x. no_write (fx x)) \<Longrightarrow> no_write (as_stream e fx ks)"
  by (cases "en_Value e";
      simp add: as_string_def as_hash_def as_list_def as_set_def as_zset_def as_stream_def no_write_base)+

lemma quiet_reads:
  "quiet cmd_GET" "quiet cmd_TYPE" "quiet cmd_STRLEN" "quiet cmd_KEYS" "quiet cmd_DBSIZE" "quiet cmd_TTL" "quiet cmd_PTTL"
  "quiet cmd_HGET" "quiet cmd_HMGET" "quiet cmd_HEXISTS" "quiet (cmd_hash_read name d f)"
  "quiet cmd_LRANGE" "quiet cmd_LLEN" "quiet cmd_LINDEX" "quiet cmd_SMEMBERS" "quiet cmd_SISMEMBER" "quiet cmd_SCARD"
  "quiet cmd_ZSCORE" "quiet cmd_ZRANK" "quiet (handleZRange reverse)" "quiet cmd_ZCARD"
  "quiet handleXRange" "quiet handleXRevRange" "quiet cmd_XLEN" "quiet handleXPending" "quiet handleXInfo"
  unfolding quiet_def cmd_GET_def cmd_TYPE_def cmd_STRLEN_def cmd_KEYS_def cmd_DBSIZE_def cmd_TTL_def cmd_PTTL_def cmd_HGET_def
    cmd_HMGET_def cmd_HEXISTS_def cmd_hash_read_def cmd_LRANGE_def cmd_LLEN_def cmd_LINDEX_def cmd_SMEMBERS_def
    cmd_SISMEMBER_def cmd_SCARD_def cmd_ZSCORE_def cmd_ZRANK_def handleZRange_def cmd_ZCARD_def
    handleXRange_def handleXRevRange_def cmd_XLEN_def handleXPending_def xpending_summary_def xpending_detailed_def
    handleXInfo_def Let_def
  by (auto intro!: no_write_base no_write_with_typed no_write_as split: split_handlers prod.split sum.split)

lemma quiet_hash_reads: "quiet cmd_HLEN" "quiet cmd_HKEYS" "quiet cmd_HVALS" "quiet cmd_HGETALL"
  using quiet_reads(11) by (simp_all add: cmd_HLEN_def cmd_HKEYS_def cmd_HVALS_def cmd_HGETALL_def)

lemma quiet_multis: "quiet cmd_MGET" "quiet cmd_EXISTS" "quiet handleXRead"
  using quiet_multi by (simp_all add: quiet_def no_write_def)

lemma safe_quiet: "safe H \<Longrightarrow> quiet H \<Longrightarrow> ks_good ks \<Longrightarrow> data (ev_now ev) (snd (H ev args ks)) = data (ev_now ev) ks"
  by (auto simp: safe_def quiet_def no_write_def hok_def)

definition writers :: "string list" where
  "writers =
     map fst (write_commands @ pop_commands @ add_commands @ multi_write_commands @ group_commands @ flush_commands)"

lemma tables_quiet: "(n, H) \<in> set (read_commands @ multi_read_commands) \<Longrightarrow> quiet H"
  by (auto simp: tables quiet_reads quiet_hash_reads quiet_multis)

definition can_change :: "string \<Rightarrow> bool" where
  "can_change name \<longleftrightarrow>
     (\<exists>H ev args ks. (name, H) \<in> set data_commands \<and> ks_good ks \<and>
        data (ev_now ev) (snd (H ev args ks)) \<noteq> data (ev_now ev) ks)"

lemma can_change_writers: "can_change name \<Longrightarrow> name \<in> set writers"
proof -
  assume "can_change name"
  then obtain H ev args ks where H: "(name, H) \<in> set data_commands" "ks_good ks"
    "data (ev_now ev) (snd (H ev args ks)) \<noteq> data (ev_now ev) ks" by (auto simp: can_change_def)
  then have "(name, H) \<notin> set (read_commands @ multi_read_commands)"
    using safe_quiet tables_quiet tables_safe(1,2) by (metis Un_iff set_append)
  then have "(name, H) \<in> set (write_commands @ pop_commands @ add_commands @ multi_write_commands @ group_commands
      @ flush_commands)"
    using H(1) by (simp add: data_commands_def)
  then show ?thesis unfolding writers_def set_map by (metis fst_conv imageI)
qed

lemma data_at: "ks_good ks \<Longrightarrow> \<not> IsExpired e now \<Longrightarrow> data now (sh_put k e ks) k = Some (en_Type e, en_Value e, en_ExpiresAt e)"
  using live_put [OF good_ok, of ks now k e] by (simp add: data_def)

lemma data_New: "data now NewKeyspace k = None"
  by (simp add: data_def age_def sh_get_def NewKeyspace_def)

lemma lookup_New: "lookup_live now k NewKeyspace = (None, NewKeyspace)"
  by (simp add: lookup_live_def sh_get_def NewKeyspace_def)

lemma can_changeI:
  "(name, H) \<in> set data_commands \<Longrightarrow> ks_good ks \<Longrightarrow> data (ev_now ev) (snd (H ev args ks)) k \<noteq> data (ev_now ev) ks k \<Longrightarrow>
   can_change name"
  unfolding can_change_def by metis

lemma can_change_new:
  "can_change ''APPEND''" "can_change ''SETNX''" "can_change ''SETEX''" "can_change ''PSETEX''"
proof -
  have *: "(''APPEND'', cmd_APPEND) \<in> set data_commands" "(''SETNX'', cmd_SETNX) \<in> set data_commands"
    "(''SETEX'', cmd_SETEX ''setex'' 1000) \<in> set data_commands" "(''PSETEX'', cmd_SETEX ''psetex'' 1) \<in> set data_commands"
    by (simp_all add: data_commands_def write_commands_def)
  have p: "ParseInt ''1'' = Some 1" "wrap64 1000 = 1000" "wrap64 1005 = 1005" "wrap64 1 = 1" "wrap64 6 = 6" by code_simp+
  show "can_change ''APPEND''"
    by (rule can_changeI [OF *(1) ks_good_New, where ev = env5 and args = "[''a'', ''v'']" and k = "''a''"])
      (simp add: cmd_APPEND_def ks_Append_def lookup_New reply_def data_at ks_good_New data_New string_entry_def IsExpired_def
        data_add_count)
  show "can_change ''SETNX''"
    by (rule can_changeI [OF *(2) ks_good_New, where ev = env5 and args = "[''a'', ''v'']" and k = "''a''"])
      (simp add: cmd_SETNX_def SetNX_def lookup_New reply_def data_at ks_good_New data_New new_entry_def IsExpired_def
        data_add_count)
  show "can_change ''SETEX''"
    by (rule can_changeI [OF *(3) ks_good_New, where ev = env5 and args = "[''a'', ''1'', ''v'']" and k = "''a''"])
      (simp add: cmd_SETEX_def ks_Set_def Let_def p reply_def data_at ks_good_New data_New new_entry_def IsExpired_def env5_def)
  show "can_change ''PSETEX''"
    by (rule can_changeI [OF *(4) ks_good_New, where ev = env5 and args = "[''a'', ''1'', ''v'']" and k = "''a''"])
      (simp add: cmd_SETEX_def ks_Set_def Let_def p reply_def data_at ks_good_New data_New new_entry_def IsExpired_def env5_def)
qed

lemma can_change_limit: "can_change ''PERSIST''" "can_change ''PEXPIRE''"
proof -
  have *: "(''PERSIST'', cmd_PERSIST) \<in> set data_commands" "(''PEXPIRE'', cmd_EXPIRE ''pexpire'' 1) \<in> set data_commands"
    by (simp_all add: data_commands_def write_commands_def)
  define e where "e t = new_entry TypeString (AString []) t" for t
  have good: "ks_good (sh_put ''a'' (e t) NewKeyspace)" for t by (simp add: e_def good_put ks_good_New new_entry_def)
  have l: "lookup_live 5 ''a'' (sh_put ''a'' (e t) NewKeyspace) = (Some (e t), sh_put ''a'' (e t) NewKeyspace)"
    if "t = 0 \<or> t > 5" for t
    using that good_ok [OF ks_good_New] by (auto simp: lookup_live_def sh_get_put e_def new_entry_def IsExpired_def)
  have p: "ParseInt ''1'' = Some 1" "wrap64 1000 = 1000" "wrap64 1005 = 1005" "wrap64 1 = 1" "wrap64 6 = 6" by code_simp+
  show "can_change ''PERSIST''"
    by (rule can_changeI [OF *(1) good [of 9], where ev = env5 and args = "[''a'']" and k = "''a''"])
      (use l [of 9] in \<open>simp add: cmd_PERSIST_def ks_Persist_def reply_def data_at good [unfolded e_def new_entry_def]
        ks_good_New e_def new_entry_def IsExpired_def env5_def\<close>)
  show "can_change ''PEXPIRE''"
    by (rule can_changeI [OF *(2) good [of 0], where ev = env5 and args = "[''a'', ''1'']" and k = "''a''"])
      (use l [of 0] in \<open>simp add: cmd_EXPIRE_def ks_Expire_def p reply_def data_at good [unfolded e_def new_entry_def]
        ks_good_New e_def new_entry_def IsExpired_def
        env5_def\<close>)
qed

lemma can_change_XREADGROUP: "can_change ''XREADGROUP''"
proof -
  define ks1 where "ks1 = snd (handleXAdd env5 [''s'', ''1-1'', ''f'', ''v''] NewKeyspace)"
  define ks2 where "ks2 = snd (handleXGroup env5 [''CREATE'', ''s'', ''g'', ''0''] ks1)"
  have "ks_good ks1" using hok_XADD [OF ks_good_New, of env5] by (auto simp: hok_def ks1_def)
  then have "ks_good ks2" using safe_XGROUP by (auto simp: safe_def hok_def ks2_def)
  then show ?thesis
    using readgroup_changes
    by (intro can_changeI [of _ handleXReadGroup ks2 env5 "[''GROUP'', ''g'', ''c'', ''STREAMS'', ''s'', ''>'']" "''s''"])
      (simp_all add: data_commands_def group_commands_def ks1_def ks2_def case_prod_unfold Let_def env5_def)
qed

lemma upper_writers: "n \<in> set writers \<Longrightarrow> ToUpper n = n"
proof -
  have "list_all (\<lambda>n. ToUpper n = n) writers"
    unfolding writers_def tables append.simps list.map fst_conv by code_simp
  then show "n \<in> set writers \<Longrightarrow> ToUpper n = n" by (simp add: list_all_iff)
qed

lemma missed_writers:
  "filter (\<lambda>n. \<not> isWriteCommand n) writers = [''SETNX'', ''SETEX'', ''PSETEX'', ''PEXPIRE'', ''XREADGROUP'']"
  "filter (\<lambda>n. n \<notin> set admin_commands \<and> n \<notin> set mutating_commands) writers =
     [''APPEND'', ''PSETEX'', ''PEXPIRE'', ''PERSIST'', ''XREADGROUP'']"
  unfolding writers_def tables append.simps list.map fst_conv by code_simp+

lemma missed_writers_set:
  "{n \<in> set writers. \<not> isWriteCommand n} = {''SETNX'', ''SETEX'', ''PSETEX'', ''PEXPIRE'', ''XREADGROUP''}"
  "{n \<in> set writers. n \<notin> set admin_commands \<and> n \<notin> set mutating_commands} =
     {''APPEND'', ''PSETEX'', ''PEXPIRE'', ''PERSIST'', ''XREADGROUP''}"
  using missed_writers [THEN arg_cong [where f = set]] by simp_all

text \<open>
  Property C31: what the two lists of write commands miss. On a read-only replica exactly \<open>SETNX\<close>, \<open>SETEX\<close>,
  \<open>PSETEX\<close>, \<open>PEXPIRE\<close> and \<open>XREADGROUP\<close> can still change data; a read-only user who is no
  administrator can still change it with exactly \<open>APPEND\<close>, \<open>PSETEX\<close>, \<open>PEXPIRE\<close>, \<open>PERSIST\<close> and
  \<open>XREADGROUP\<close>.
\<close>

theorem Write_guard_gaps:
  assumes "gget m username = Some user" and "username \<noteq> []" and "au_Enabled user" and "au_ReadOnly user" and "\<not> au_IsAdmin user"
  shows "{n. can_change n \<and> \<not> isWriteCommand n} = {''SETNX'', ''SETEX'', ''PSETEX'', ''PEXPIRE'', ''XREADGROUP''}
    \<and> {n. can_change n \<and> CanExecute Match username n [] m = None}
      = {''APPEND'', ''PSETEX'', ''PEXPIRE'', ''PERSIST'', ''XREADGROUP''}"
proof
  note change = can_change_new can_change_limit can_change_XREADGROUP
  have c1: "can_change n" if "n \<in> {''SETNX'', ''SETEX'', ''PSETEX'', ''PEXPIRE'', ''XREADGROUP''}" for n
    using that by (elim insertE emptyE) (simp_all only: change)
  have c2: "can_change n" if "n \<in> {''APPEND'', ''PSETEX'', ''PEXPIRE'', ''PERSIST'', ''XREADGROUP''}" for n
    using that by (elim insertE emptyE) (simp_all only: change)
  have "{n. can_change n \<and> \<not> isWriteCommand n} = {n \<in> set writers. \<not> isWriteCommand n}"
    using can_change_writers c1 [folded missed_writers_set(1)] by blast
  then show "{n. can_change n \<and> \<not> isWriteCommand n} = {''SETNX'', ''SETEX'', ''PSETEX'', ''PEXPIRE'', ''XREADGROUP''}"
    by (simp only: missed_writers_set(1))
  have exec: "CanExecute Match username n [] m = None \<longleftrightarrow> n \<notin> set admin_commands \<and> n \<notin> set mutating_commands"
    if "n \<in> set writers" for n
    using assms upper_writers [OF that] by (simp add: CanExecute_def Let_def)
  have "{n. can_change n \<and> CanExecute Match username n [] m = None}
      = {n \<in> set writers. n \<notin> set admin_commands \<and> n \<notin> set mutating_commands}"
    using can_change_writers exec c2 [folded missed_writers_set(2)] by blast
  then show "{n. can_change n \<and> CanExecute Match username n [] m = None}
      = {''APPEND'', ''PSETEX'', ''PEXPIRE'', ''PERSIST'', ''XREADGROUP''}"
    by (simp only: missed_writers_set(2))
qed

theorem Write_guard_gaps_witness:
  "''PEXPIRE'' \<in> {n. can_change n \<and> CanExecute (=) ''bob'' n []
     [(''bob'', set_token ''readonly'' (new_user ''bob''))] = None}"
proof -
  have *: "gget [(''bob'', set_token ''readonly'' (new_user ''bob''))] ''bob'' = Some (set_token ''readonly'' (new_user ''bob''))"
    "au_Enabled (set_token ''readonly'' (new_user ''bob''))" "au_ReadOnly (set_token ''readonly'' (new_user ''bob''))"
    "\<not> au_IsAdmin (set_token ''readonly'' (new_user ''bob''))"
    by (code_simp, simp_all add: set_token_def new_user_def)
  show ?thesis using Write_guard_gaps [OF *(1) _ *(2-4), of "(=)"] by simp
qed

end
