(* ===== verification/Cluster_Slots.thy ===== *)
theory Cluster_Slots
  imports Resp "HOL-Library.Word"
begin

text \<open>
  Hash slots: src/internal/cluster/crc16.go and the slot lists of node.go. The checksum is the table
  driven one of the source at 16 bits; the bit-by-bit checksum it implements is the specification. A
  node's slots are a predicate on the slot numbers below 16384, in place of the array.

  The lemmas show that the table is right, so that \<open>CRC16\<close> is the checksum of the polynomial, that
  a key and its hash tag have the same slot, and that a printed slot list is read back exactly.
\<close>

unbundle bit_operations_syntax

section \<open>Checksum\<close>

definition crc16Table :: "16 word list" where
  "crc16Table =
     [0x0000, 0x1021, 0x2042, 0x3063, 0x4084, 0x50a5, 0x60c6, 0x70e7, 0x8108, 0x9129, 0xa14a, 0xb16b, 0xc18c, 0xd1ad, 0xe1ce, 0xf1ef,
      0x1231, 0x0210, 0x3273, 0x2252, 0x52b5, 0x4294, 0x72f7, 0x62d6, 0x9339, 0x8318, 0xb37b, 0xa35a, 0xd3bd, 0xc39c, 0xf3ff, 0xe3de,
      0x2462, 0x3443, 0x0420, 0x1401, 0x64e6, 0x74c7, 0x44a4, 0x5485, 0xa56a, 0xb54b, 0x8528, 0x9509, 0xe5ee, 0xf5cf, 0xc5ac, 0xd58d,
      0x3653, 0x2672, 0x1611, 0x0630, 0x76d7, 0x66f6, 0x5695, 0x46b4, 0xb75b, 0xa77a, 0x9719, 0x8738, 0xf7df, 0xe7fe, 0xd79d, 0xc7bc,
      0x48c4, 0x58e5, 0x6886, 0x78a7, 0x0840, 0x1861, 0x2802, 0x3823, 0xc9cc, 0xd9ed, 0xe98e, 0xf9af, 0x8948, 0x9969, 0xa90a, 0xb92b,
      0x5af5, 0x4ad4, 0x7ab7, 0x6a96, 0x1a71, 0x0a50, 0x3a33, 0x2a12, 0xdbfd, 0xcbdc, 0xfbbf, 0xeb9e, 0x9b79, 0x8b58, 0xbb3b, 0xab1a,
      0x6ca6, 0x7c87, 0x4ce4, 0x5cc5, 0x2c22, 0x3c03, 0x0c60, 0x1c41, 0xedae, 0xfd8f, 0xcdec, 0xddcd, 0xad2a, 0xbd0b, 0x8d68, 0x9d49,
      0x7e97, 0x6eb6, 0x5ed5, 0x4ef4, 0x3e13, 0x2e32, 0x1e51, 0x0e70, 0xff9f, 0xefbe, 0xdfdd, 0xcffc, 0xbf1b, 0xaf3a, 0x9f59, 0x8f78,
      0x9188, 0x81a9, 0xb1ca, 0xa1eb, 0xd10c, 0xc12d, 0xf14e, 0xe16f, 0x1080, 0x00a1, 0x30c2, 0x20e3, 0x5004, 0x4025, 0x7046, 0x6067,
      0x83b9, 0x9398, 0xa3fb, 0xb3da, 0xc33d, 0xd31c, 0xe37f, 0xf35e, 0x02b1, 0x1290, 0x22f3, 0x32d2, 0x4235, 0x5214, 0x6277, 0x7256,
      0xb5ea, 0xa5cb, 0x95a8, 0x8589, 0xf56e, 0xe54f, 0xd52c, 0xc50d, 0x34e2, 0x24c3, 0x14a0, 0x0481, 0x7466, 0x6447, 0x5424, 0x4405,
      0xa7db, 0xb7fa, 0x8799, 0x97b8, 0xe75f, 0xf77e, 0xc71d, 0xd73c, 0x26d3, 0x36f2, 0x0691, 0x16b0, 0x6657, 0x7676, 0x4615, 0x5634,
      0xd94c, 0xc96d, 0xf90e, 0xe92f, 0x99c8, 0x89e9, 0xb98a, 0xa9ab, 0x5844, 0x4865, 0x7806, 0x6827, 0x18c0, 0x08e1, 0x3882, 0x28a3,
      0xcb7d, 0xdb5c, 0xeb3f, 0xfb1e, 0x8bf9, 0x9bd8, 0xabbb, 0xbb9a, 0x4a75, 0x5a54, 0x6a37, 0x7a16, 0x0af1, 0x1ad0, 0x2ab3, 0x3a92,
      0xfd2e, 0xed0f, 0xdd6c, 0xcd4d, 0xbdaa, 0xad8b, 0x9de8, 0x8dc9, 0x7c26, 0x6c07, 0x5c64, 0x4c45, 0x3ca2, 0x2c83, 0x1ce0, 0x0cc1,
      0xef1f, 0xff3e, 0xcf5d, 0xdf7c, 0xaf9b, 0xbfba, 0x8fd9, 0x9ff8, 0x6e17, 0x7e36, 0x4e55, 0x5e74, 0x2e93, 0x3eb2, 0x0ed1, 0x1ef0]"

definition crc16_update :: "16 word \<Rightarrow> char \<Rightarrow> 16 word" where
  "crc16_update crc b =
     push_bit 8 crc XOR crc16Table ! unat ((drop_bit 8 crc XOR of_nat (byte b)) AND 0x00FF)"

definition CRC16 :: "string \<Rightarrow> 16 word" where
  "CRC16 s = foldl crc16_update 0 s"

text \<open>The specification: one bit at a time, with the polynomial \<open>0x1021\<close>.\<close>

definition crc_bit :: "16 word \<Rightarrow> 16 word" where
  "crc_bit x = (if bit x 15 then push_bit 1 x XOR 0x1021 else push_bit 1 x)"

definition crc_byte :: "16 word \<Rightarrow> char \<Rightarrow> 16 word" where
  "crc_byte crc b = (crc_bit ^^ 8) (crc XOR push_bit 8 (of_nat (byte b)))"

text \<open>The bit step is linear, so the whole table follows from its entries at powers of two.\<close>

lemma pow8: "(f ^^ 8) x = f (f (f (f (f (f (f (f x)))))))"
  by (simp add: eval_nat_numeral)

lemma crc_bit_xor: "crc_bit (x XOR y) = crc_bit x XOR crc_bit y"
  by (auto simp: crc_bit_def bit_xor_iff push_bit_xor ac_simps intro: bit_eqI)

lemma crc_pow_xor: "(crc_bit ^^ n) (x XOR y) = (crc_bit ^^ n) x XOR (crc_bit ^^ n) y"
  by (induction n) (simp_all add: crc_bit_xor)

definition crc_high :: "16 word \<Rightarrow> 16 word" where
  "crc_high x = (crc_bit ^^ 8) (push_bit 8 x)"

lemma crc_high_xor: "crc_high (x XOR y) = crc_high x XOR crc_high y"
  by (simp add: crc_high_def push_bit_xor crc_pow_xor)

lemma table_basis:
  "crc16Table ! 0 = crc_high 0" "crc16Table ! 1 = crc_high 1" "crc16Table ! 2 = crc_high 2"
  "crc16Table ! 4 = crc_high 4" "crc16Table ! 8 = crc_high 8" "crc16Table ! 16 = crc_high 16"
  "crc16Table ! 32 = crc_high 32" "crc16Table ! 64 = crc_high 64" "crc16Table ! 128 = crc_high 128"
  unfolding crc_high_def pow8 by (simp_all add: crc16Table_def crc_bit_def)

lemma table_double:
  "take 1 (drop 1 crc16Table) = map (\<lambda>x. x XOR crc16Table ! 1) (take 1 crc16Table)"
  "take 2 (drop 2 crc16Table) = map (\<lambda>x. x XOR crc16Table ! 2) (take 2 crc16Table)"
  "take 4 (drop 4 crc16Table) = map (\<lambda>x. x XOR crc16Table ! 4) (take 4 crc16Table)"
  "take 8 (drop 8 crc16Table) = map (\<lambda>x. x XOR crc16Table ! 8) (take 8 crc16Table)"
  "take 16 (drop 16 crc16Table) = map (\<lambda>x. x XOR crc16Table ! 16) (take 16 crc16Table)"
  "take 32 (drop 32 crc16Table) = map (\<lambda>x. x XOR crc16Table ! 32) (take 32 crc16Table)"
  "take 64 (drop 64 crc16Table) = map (\<lambda>x. x XOR crc16Table ! 64) (take 64 crc16Table)"
  "take 128 (drop 128 crc16Table) = map (\<lambda>x. x XOR crc16Table ! 128) (take 128 crc16Table)"
  by (simp_all add: crc16Table_def)

lemma length_crc16Table: "length crc16Table = 256"
  by (simp add: crc16Table_def)

lemma bit_less: "j < 2 ^ k \<Longrightarrow> bit j n \<Longrightarrow> n < k" for j :: nat
  by (metis bit_take_bit_iff take_bit_nat_eq_self_iff)

lemma add_xor:
  assumes "j < 2 ^ k" and "k < 16"
  shows "(of_nat (2 ^ k + j) :: 16 word) = of_nat j XOR of_nat (2 ^ k)"
proof -
  have "\<not> bit j n \<or> n < k" for n using bit_less [OF assms(1)] by blast
  then have "j AND 2 ^ k = (0 :: nat)"
    by (intro bit_eqI) (auto simp: bit_and_iff bit_exp_iff)
  then have "2 ^ k + j = j XOR 2 ^ k"
    using disjunctive_add_eq_xor [of j "2 ^ k"] by (simp add: add.commute)
  then show ?thesis by (simp add: of_nat_xor_eq)
qed

abbreviation table_ok :: "nat \<Rightarrow> bool" where
  "table_ok n \<equiv> \<forall>i < n. crc16Table ! i = crc_high (of_nat i)"

lemma table_step:
  assumes "table_ok n" and "n = 2 ^ k" and "k < 8" and "m = 2 * n" and "crc16Table ! n = crc_high (of_nat n)"
    and "take n (drop n crc16Table) = map (\<lambda>x. x XOR crc16Table ! n) (take n crc16Table)"
  shows "table_ok m"
proof (intro allI impI)
  fix i assume i: "i < m"
  have "n \<le> 2 ^ 7" using assms(2,3) power_increasing [of k 7 "2 :: nat"] by simp
  then have len: "2 * n \<le> length crc16Table" by (simp add: length_crc16Table)
  show "crc16Table ! i = crc_high (of_nat i)"
  proof (cases "i < n")
    case False
    then obtain j where j: "i = n + j" "j < n" using i assms(4) le_Suc_ex by (metis add_less_cancel_left mult_2 not_less)
    have "crc16Table ! i = take n (drop n crc16Table) ! j" using j len by simp
    also have "\<dots> = crc16Table ! j XOR crc16Table ! n" using j len by (simp add: assms(6))
    also have "\<dots> = crc_high (of_nat j XOR of_nat n)" using assms(1,5) j by (simp add: crc_high_xor)
    finally show ?thesis using add_xor [of j k] j assms(2,3) by simp
  qed (use assms(1) in simp)
qed

lemma crc16Table_high: "table_ok 256"
proof -
  note facts = table_basis table_double
  have "table_ok 1" using table_basis(1) by simp
  then have "table_ok 2" by (rule table_step [of _ 0]) (use facts in simp_all)
  then have "table_ok 4" by (rule table_step [of _ 1]) (use facts in simp_all)
  then have "table_ok 8" by (rule table_step [of _ 2]) (use facts in simp_all)
  then have "table_ok 16" by (rule table_step [of _ 3]) (use facts in simp_all)
  then have "table_ok 32" by (rule table_step [of _ 4]) (use facts in simp_all)
  then have "table_ok 64" by (rule table_step [of _ 5]) (use facts in simp_all)
  then have "table_ok 128" by (rule table_step [of _ 6]) (use facts in simp_all)
  then show ?thesis by (rule table_step [of _ 7]) (use facts in simp_all)
qed

lemma crc_pow_low: "(\<forall>k. bit x k \<longrightarrow> k + n < 16) \<Longrightarrow> (crc_bit ^^ n) x = push_bit n x" for x :: "16 word"
proof (induction n)
  case (Suc n)
  then have "\<forall>k. bit x k \<longrightarrow> k + n < 16" by force
  then have "(crc_bit ^^ n) x = push_bit n x" by (rule Suc.IH)
  then have "(crc_bit ^^ Suc n) x = crc_bit (push_bit n x)" by simp
  moreover have "\<not> bit (push_bit n x) 15" using Suc.prems by (auto simp: bit_push_bit_iff)
  ultimately have "(crc_bit ^^ Suc n) x = push_bit 1 (push_bit n x)" by (simp only: crc_bit_def if_False)
  then show ?case by (simp only: push_bit_push_bit plus_1_eq_Suc)
qed simp

lemma crc16_update_byte: "crc16_update crc b = crc_byte crc b"
proof -
  let ?b = "of_nat (byte b) :: 16 word" and ?l = "take_bit 8 crc"
  let ?h = "take_bit 8 (drop_bit 8 crc XOR ?b)"
  have m: "x AND 0x00FF = take_bit 8 x" for x :: "16 word" by (simp add: take_bit_eq_mask mask_eq_exp_minus_1)
  have lt: "byte b < 256" by simp
  have "byte b mod 65536 = byte b" by (rule mod_less) (use lt in linarith)
  then have "unat ?b < 2 ^ 8" by (simp add: unat_of_nat)
  then have b: "bit ?b n \<Longrightarrow> n < 8" for n using bit_less [of "unat ?b" 8 n] by (simp add: bit_unsigned_iff bit_imp_le_length)
  have split: "crc XOR push_bit 8 ?b = push_bit 8 ?h XOR ?l"
    by (rule bit_eqI) (auto simp: bit_xor_iff bit_push_bit_iff bit_take_bit_iff bit_drop_bit_eq dest: b)
  have "(crc_bit ^^ 8) ?l = push_bit 8 ?l" by (rule crc_pow_low) (auto simp: bit_take_bit_iff)
  also have "\<dots> = push_bit 8 crc" by (rule bit_eqI) (auto simp: bit_push_bit_iff bit_take_bit_iff)
  finally have l: "(crc_bit ^^ 8) ?l = push_bit 8 crc" .
  have "unat (take_bit 8 x) < 256" for x :: "16 word"
    by (simp add: unsigned_take_bit_eq take_bit_nat_less_exp [of 8, simplified])
  then have "unat ?h < 256" .
  then have "crc16Table ! unat ?h = crc_high ?h" using crc16Table_high by simp
  then show ?thesis unfolding crc16_update_def m crc_byte_def split crc_pow_xor l crc_high_def by (simp add: xor.commute)
qed

definition ExtractHashTag :: "string \<Rightarrow> string" where
  "ExtractHashTag key =
     (case IndexByte key (CHR ''{'') of
        None \<Rightarrow> key
      | Some s \<Rightarrow>
          (case IndexByte (drop (s + 1) key) (CHR ''}'') of
             None \<Rightarrow> key
           | Some e \<Rightarrow> let tag = take e (drop (s + 1) key) in if tag = [] then key else tag))"

definition KeySlot :: "string \<Rightarrow> 16 word" where
  "KeySlot key = CRC16 (ExtractHashTag key) AND 0x3FFF"

text \<open>
  Property C26: the table-driven checksum is the bit-by-bit checksum of the polynomial \<open>0x1021\<close>; a slot is a
  number below 16384; and all keys with the same hash tag that is not empty have the slot of the tag.
\<close>

theorem KeySlot_spec:
  assumes "CHR ''{'' \<notin> set pre" and "CHR ''}'' \<notin> set tag" and "tag \<noteq> []"
  shows "CRC16 s = foldl crc_byte 0 s
    \<and> unat (KeySlot key) < 16384
    \<and> KeySlot (pre @ ''{'' @ tag @ ''}'' @ post) = CRC16 tag AND 0x3FFF"
proof (intro conjI)
  show "CRC16 s = foldl crc_byte 0 s"
    unfolding CRC16_def by (rule arg_cong [where f = "\<lambda>f. foldl f 0 s"]) (simp add: fun_eq_iff crc16_update_byte)
  have "x AND 0x3FFF = take_bit 14 x" for x :: "16 word" by (simp add: take_bit_eq_mask mask_eq_exp_minus_1)
  then show "unat (KeySlot key) < 16384"
    by (simp add: KeySlot_def unsigned_take_bit_eq take_bit_nat_less_exp [of 14, simplified])
  have "IndexByte (pre @ ''{'' @ tag @ ''}'' @ post) (CHR ''{'') = Some (length pre)"
    using IndexByte_append [OF assms(1)] by simp
  moreover have "IndexByte (tag @ ''}'' @ post) (CHR ''}'') = Some (length tag)"
    using IndexByte_append [OF assms(2)] by simp
  ultimately show "KeySlot (pre @ ''{'' @ tag @ ''}'' @ post) = CRC16 tag AND 0x3FFF"
    using assms(3) by (simp add: KeySlot_def ExtractHashTag_def Let_def)
qed

theorem KeySlot_spec_witness:
  "KeySlot ''user:{42}:name'' = CRC16 ''42'' AND 0x3FFF"
  using KeySlot_spec [of "''user:''" "''42''" "[]" "''user:{42}:name''" "'':name''"] by simp

section \<open>Slot lists\<close>

definition NumSlots :: nat where
  "NumSlots = 16384"

record ClusterNode =
  cn_ID :: string
  cn_IP :: string
  cn_Port :: int
  cn_BusPort :: int
  cn_Role :: string
  cn_MasterID :: string
  cn_Slots :: "nat \<Rightarrow> bool"
  cn_Epoch :: nat
  cn_LinkState :: string
  cn_PingSent :: int
  cn_PongRecv :: int
  cn_PFail :: bool
  cn_Fail :: bool

definition SlotCount :: "ClusterNode \<Rightarrow> nat" where
  "SlotCount n = length (filter (cn_Slots n) [0..<NumSlots])"

definition SlotsList :: "ClusterNode \<Rightarrow> nat list" where
  "SlotsList n = filter (cn_Slots n) [0..<NumSlots]"

text \<open>The loop of \<open>SlotRangesString\<close> with its variables \<open>start\<close> and \<open>prev\<close>.\<close>

fun slot_ranges :: "nat \<Rightarrow> nat \<Rightarrow> nat list \<Rightarrow> (nat \<times> nat) list" where
  "slot_ranges start prev [] = [(start, prev)]"
| "slot_ranges start prev (cur # slots) =
     (if cur = prev + 1 then slot_ranges start cur slots
      else (start, prev) # slot_ranges cur cur slots)"

definition format_range :: "nat \<times> nat \<Rightarrow> string" where
  "format_range r = (case r of (a, b) \<Rightarrow> if a = b then Itoa a else Itoa a @ ''-'' @ Itoa b)"

definition SlotRangesString :: "ClusterNode \<Rightarrow> string" where
  "SlotRangesString n =
     (case SlotsList n of
        [] \<Rightarrow> []
      | s # slots \<Rightarrow> Join (map format_range (slot_ranges s s slots)) '' '')"

text \<open>The verb \<open>%d\<close> of \<open>fmt.Sscanf\<close> at 16 bits: the digits up to the first other byte.\<close>

definition scan_uint16 :: "string \<Rightarrow> (nat \<times> string) option" where
  "scan_uint16 s =
     (let ds = takeWhile is_digit s in
      if ds = [] then None
      else
        case digits_val 0 ds of
          None \<Rightarrow> None
        | Some n \<Rightarrow> if n < 2 ^ 16 then Some (n, dropWhile is_digit s) else None)"

definition parse_range :: "string \<Rightarrow> (string + nat list)" where
  "parse_range p =
     (if CHR ''-'' \<in> set p then
        (case scan_uint16 p of
           Some (start, c # rest) \<Rightarrow>
             if c \<noteq> CHR ''-'' then Inl (''invalid slot range: '' @ p)
             else
               (case scan_uint16 rest of
                  None \<Rightarrow> Inl (''invalid slot range: '' @ p)
                | Some (stop, _) \<Rightarrow>
                    if start > stop \<or> stop \<ge> NumSlots then Inl (''invalid slot range: '' @ p)
                    else Inr [start..<stop + 1])
         | _ \<Rightarrow> Inl (''invalid slot range: '' @ p))
      else
        (case scan_uint16 p of
           None \<Rightarrow> Inl (''invalid slot: '' @ p)
         | Some (s, _) \<Rightarrow> if s \<ge> NumSlots then Inl (''invalid slot: '' @ p) else Inr [s]))"

fun parse_ranges :: "string list \<Rightarrow> string + nat list" where
  "parse_ranges [] = Inr []"
| "parse_ranges (p # parts) =
     (case parse_range p of
        Inl e \<Rightarrow> Inl e
      | Inr slots \<Rightarrow> (case parse_ranges parts of Inl e \<Rightarrow> Inl e | Inr rest \<Rightarrow> Inr (slots @ rest)))"

definition ParseSlotRanges :: "string \<Rightarrow> string + nat list" where
  "ParseSlotRanges spec = map_sum id sort (parse_ranges (Fields spec))"

lemma Itoa_uint: "Itoa n = FormatUint n"
  by (simp add: Itoa_def FormatInt_def)

lemma scan_uint16_Itoa:
  assumes "n < 2 ^ 16" and "s = [] \<or> \<not> is_digit (hd s)"
  shows "scan_uint16 (Itoa n @ s) = Some (n, s)"
proof -
  have d: "\<forall>c \<in> set (Itoa n). is_digit c" using FormatUint_digits by (auto simp: Itoa_uint)
  have "takeWhile is_digit (Itoa n @ s) = Itoa n" "dropWhile is_digit (Itoa n @ s) = s"
    using d assms(2) by (cases s; simp add: takeWhile_append dropWhile_append)+
  then show ?thesis using assms(1) digits_val_FormatUint [of n] by (simp add: scan_uint16_def Let_def Itoa_uint)
qed

lemma Itoa_no_dash: "CHR ''-'' \<notin> set (Itoa n)"
  using FormatUint_digits [of "CHR ''-''" n] by (auto simp: Itoa_uint is_digit_def)

lemma parse_range_format:
  assumes "a \<le> b" and "b < NumSlots"
  shows "parse_range (format_range (a, b)) = Inr [a..<b + 1]"
proof (cases "a = b")
  case True
  then show ?thesis using assms scan_uint16_Itoa [of b "[]"] Itoa_no_dash [of b]
    by (simp add: parse_range_def format_range_def NumSlots_def)
next
  case False
  have "scan_uint16 (Itoa a @ ''-'' @ Itoa b) = Some (a, ''-'' @ Itoa b)"
    using assms by (intro scan_uint16_Itoa) (simp_all add: NumSlots_def is_digit_def)
  moreover have "scan_uint16 (Itoa b) = Some (b, [])"
    using assms scan_uint16_Itoa [of b "[]"] by (simp add: NumSlots_def)
  ultimately show ?thesis using assms False by (simp add: parse_range_def format_range_def)
qed

lemma slot_ranges_bounds:
  assumes "start \<le> prev" and "sorted_wrt (<) (prev # slots)" and "\<forall>s \<in> set (prev # slots). s < n"
  shows "\<forall>(a, b) \<in> set (slot_ranges start prev slots). a \<le> b \<and> b < n"
  using assms by (induction start prev slots rule: slot_ranges.induct) auto

lemma slot_ranges_concat:
  "start \<le> prev \<Longrightarrow> concat (map (\<lambda>(a, b). [a..<b + 1]) (slot_ranges start prev slots)) = [start..<prev + 1] @ slots"
proof (induction start prev slots rule: slot_ranges.induct)
  case (2 start prev cur slots)
  then show ?case by (cases "cur = prev + 1") (auto simp: upt_conv_Cons)
qed simp

lemma parse_ranges_format:
  "\<forall>(a, b) \<in> set rs. a \<le> b \<and> b < NumSlots \<Longrightarrow>
   parse_ranges (map format_range rs) = Inr (concat (map (\<lambda>(a, b). [a..<b + 1]) rs))"
  by (induction rs) (auto simp: parse_range_format)

lemma format_range_word: "format_range r \<noteq> [] \<and> (\<forall>c \<in> set (format_range r). \<not> is_space c)"
proof -
  have "\<forall>c \<in> set (Itoa n). \<not> is_space c" for n
    using FormatUint_digits [of _ n] by (force simp: Itoa_uint is_digit_def is_space_def)
  then show ?thesis by (cases r) (auto simp: format_range_def Itoa_uint is_space_def)
qed

text \<open>Property C27: the printed slot ranges of a node are read back as exactly its slots, in order.\<close>

theorem SlotRanges_roundtrip: "ParseSlotRanges (SlotRangesString n) = Inr (SlotsList n)"
proof (cases "SlotsList n")
  case Nil
  then show ?thesis by (simp add: SlotRangesString_def ParseSlotRanges_def Fields_def)
next
  case (Cons s slots)
  have srt: "sorted_wrt (<) (SlotsList n)" by (simp add: SlotsList_def sorted_wrt_filter)
  have lt: "\<forall>x \<in> set (SlotsList n). x < NumSlots" by (auto simp: SlotsList_def)
  have "\<forall>(a, b) \<in> set (slot_ranges s s slots). a \<le> b \<and> b < NumSlots"
    using srt lt unfolding Cons by (intro slot_ranges_bounds) auto
  then have "parse_ranges (map format_range (slot_ranges s s slots)) =
      Inr (concat (map (\<lambda>(a, b). [a..<b + 1]) (slot_ranges s s slots)))" by (rule parse_ranges_format)
  also have "\<dots> = Inr (s # slots)" unfolding slot_ranges_concat [OF order.refl] by simp
  finally have "parse_ranges (map format_range (slot_ranges s s slots)) = Inr (s # slots)" .
  moreover have "Fields (SlotRangesString n) = map format_range (slot_ranges s s slots)"
    unfolding SlotRangesString_def Cons list.case by (rule Fields_Join) (use format_range_word in auto)
  moreover have "sort (s # slots) = s # slots"
    using srt unfolding Cons by (intro sorted_sort_id) (auto simp: strict_sorted_iff)
  ultimately show ?thesis by (simp add: ParseSlotRanges_def Cons)
qed

end
