(* ===== verification/Rebalancer.thy ===== *)
theory Rebalancer
  imports Cluster_Slots "HOL-Library.Multiset"
begin

text \<open>
  The rebalancing plan: \<open>ComputeRebalancePlan\<close> of src/internal/cluster/rebalancer.go. Donors are the masters
  with more slots than their share, with the slots they give away; receivers those with fewer. The
  loop over the donors is a recursion on the donors that are left.

  The lemmas show that the plan uses the donors' slots in order, so that, when all slots are assigned,
  every master ends with its share, no slot moves twice, and no plan could move fewer.
\<close>

record MasterNodeInfo =
  mi_ID :: string
  mi_IP :: string
  mi_Port :: int
  mi_BusPort :: int
  mi_Slots :: "nat list"
  mi_SlotCount :: int

record SlotMove =
  sv_Slot :: nat
  sv_FromNodeID :: string
  sv_FromAddr :: string
  sv_ToNodeID :: string
  sv_ToAddr :: string

record RebalancePlan =
  rp_TotalSlotsToMove :: int
  rp_Moves :: "SlotMove list"
  rp_InitialCounts :: "(string, int) gomap"
  rp_FinalCounts :: "(string, int) gomap"

type_synonym donor = "MasterNodeInfo \<times> nat list"

definition node_addr :: "MasterNodeInfo \<Rightarrow> string" where
  "node_addr m = mi_IP m @ '':'' @ FormatInt (mi_Port m)"

definition slot_move :: "MasterNodeInfo \<Rightarrow> MasterNodeInfo \<Rightarrow> nat \<Rightarrow> SlotMove" where
  "slot_move d rec slot =
     \<lparr>sv_Slot = slot, sv_FromNodeID = mi_ID d, sv_FromAddr = node_addr d,
      sv_ToNodeID = mi_ID rec, sv_ToAddr = node_addr rec\<rparr>"

text \<open>The share of the master at position \<open>i\<close> of \<open>n\<close>.\<close>

definition share :: "nat \<Rightarrow> nat \<Rightarrow> nat" where
  "share n i = (if i < NumSlots mod n then NumSlots div n + 1 else NumSlots div n)"

text \<open>The inner loop: serve one receiver from the donors that are left.\<close>

function fill_receiver :: "MasterNodeInfo \<Rightarrow> nat \<Rightarrow> donor list \<Rightarrow> SlotMove list \<times> donor list" where
  "fill_receiver rec needed donors =
     (if needed = 0 then ([], donors)
      else
        case donors of
          [] \<Rightarrow> ([], [])
        | (d, avail) # ds \<Rightarrow>
            if avail = [] then fill_receiver rec needed ds
            else
              let n = (if length avail < needed then length avail else needed);
                  moves = map (slot_move d rec) (take n avail);
                  ds' = (if drop n avail = [] then ds else (d, drop n avail) # ds);
                  (moves', ds'') = fill_receiver rec (needed - n) ds'
              in (moves @ moves', ds''))"
  by pat_completeness auto

termination by (relation "measure (\<lambda>(rec, needed, donors). needed + length donors)") auto

declare fill_receiver.simps [simp del]

fun fill_receivers :: "(MasterNodeInfo \<times> nat) list \<Rightarrow> donor list \<Rightarrow> SlotMove list" where
  "fill_receivers [] donors = []"
| "fill_receivers ((rec, needed) # recs) donors =
     (let (moves, donors') = fill_receiver rec needed donors in moves @ fill_receivers recs donors')"

definition count_move :: "SlotMove \<Rightarrow> (string, int) gomap \<Rightarrow> (string, int) gomap" where
  "count_move mv counts =
     (let c1 = gput (sv_FromNodeID mv) (the (gget counts (sv_FromNodeID mv)) - 1) counts
      in gput (sv_ToNodeID mv) (the (gget c1 (sv_ToNodeID mv)) + 1) c1)"

text \<open>
  The first loop: the counts and the targets, by node identifier. The second: the donors with the last
  slots of their lists, and the receivers with what they lack. With two masters of one identifier
  the excess may exceed the list, and the slice expression panics (\<open>None\<close>).
\<close>

definition init_counts :: "MasterNodeInfo list \<Rightarrow> (string, int) gomap" where
  "init_counts ms = fold (\<lambda>m. gput (mi_ID m) (int (length (mi_Slots m)))) ms []"

definition target_counts :: "nat \<Rightarrow> MasterNodeInfo list \<Rightarrow> (string, int) gomap" where
  "target_counts n ms = fold (\<lambda>(i, m). gput (mi_ID m) (int (share n i))) (enumerate 0 ms) []"

fun split_masters ::
  "(string, int) gomap \<Rightarrow> (string, int) gomap \<Rightarrow> MasterNodeInfo list \<Rightarrow>
   (donor list \<times> (MasterNodeInfo \<times> nat) list) option" where
  "split_masters initialCounts targetCounts [] = Some ([], [])"
| "split_masters initialCounts targetCounts (m # ms) =
     (let cur = the (gget initialCounts (mi_ID m));
          tgt = the (gget targetCounts (mi_ID m));
          rest = split_masters initialCounts targetCounts ms
      in if cur > tgt then
           let excess = nat (cur - tgt)
           in if length (mi_Slots m) < excess then None
              else map_option (apfst (Cons (m, drop (length (mi_Slots m) - excess) (mi_Slots m)))) rest
         else if cur < tgt then map_option (apsnd (Cons (m, nat (tgt - cur)))) rest
         else rest)"

datatype rebalance_error = RequiresTwoMasters | RebalancePanic

definition ComputeRebalancePlan :: "MasterNodeInfo list \<Rightarrow> rebalance_error + RebalancePlan" where
  "ComputeRebalancePlan masters =
     (if length masters < 2 then Inl RequiresTwoMasters
      else
        let sortedMasters = sort_key mi_ID masters;
            initialCounts = init_counts sortedMasters;
            targetCounts = target_counts (length masters) sortedMasters
        in case split_masters initialCounts targetCounts sortedMasters of
             None \<Rightarrow> Inl RebalancePanic
           | Some (donors, receivers) \<Rightarrow>
               let moves = fill_receivers receivers donors
               in Inr \<lparr>rp_TotalSlotsToMove = int (length moves), rp_Moves = moves,
                       rp_InitialCounts = initialCounts, rp_FinalCounts = fold count_move moves initialCounts\<rparr>)"

section \<open>Proofs\<close>

text \<open>The slots on offer, in the order in which they are given away.\<close>

definition offers :: "donor list \<Rightarrow> (MasterNodeInfo \<times> nat) list" where
  "offers ds = concat (map (\<lambda>(d, avail). map (Pair d) avail) ds)"

lemma fill_receiver_spec:
  "fill_receiver rec needed ds = (moves, ds') \<Longrightarrow>
   moves = map (\<lambda>(d, s). slot_move d rec s) (take needed (offers ds)) \<and> offers ds' = drop needed (offers ds)"
proof (induction rec needed ds arbitrary: moves ds' rule: fill_receiver.induct)
  case (1 rec needed ds)
  show ?case
  proof (cases "needed = 0 \<or> ds = []")
    case True
    then show ?thesis using 1(3) by (auto simp: fill_receiver.simps [of rec needed ds] offers_def split: if_splits)
  next
    case False
    then obtain d avail rest where ds: "ds = (d, avail) # rest" by (cases ds) auto
    show ?thesis
    proof (cases "avail = []")
      case True
      have "fill_receiver rec needed ds = fill_receiver rec needed rest"
        unfolding ds using False True by (subst fill_receiver.simps) simp
      then show ?thesis using 1(1) [of "(d, avail)" rest d avail] 1(3) False True by (simp add: ds offers_def)
    next
      case ne: False
      define n where "n = (if length avail < needed then length avail else needed)"
      define ds1 where "ds1 = (if drop n avail = [] then rest else (d, drop n avail) # rest)"
      obtain mv2 ds2 where r: "fill_receiver rec (needed - n) ds1 = (mv2, ds2)" by fastforce
      have eq: "fill_receiver rec needed ds = (map (slot_move d rec) (take n avail) @ mv2, ds2)"
        unfolding ds using False ne r
        by (subst fill_receiver.simps) (auto simp: Let_def n_def [symmetric] ds1_def split: if_splits)
      have IH: "mv2 = map (\<lambda>(d, s). slot_move d rec s) (take (needed - n) (offers ds1))"
          "offers ds2 = drop (needed - n) (offers ds1)"
        using 1(2) [OF _ ds refl ne n_def refl ds1_def r] False by simp_all
      have o1: "offers ds1 = map (Pair d) (drop n avail) @ offers rest" by (simp add: ds1_def offers_def)
      have o: "offers ds = map (Pair d) (take n avail) @ offers ds1"
        using map_append [of "Pair d" "take n avail" "drop n avail"] unfolding o1 ds by (simp add: offers_def)
      have n: "length (map (Pair d) (take n avail)) = n" "n \<le> needed" by (auto simp: n_def)
      have "take needed (offers ds) = map (Pair d) (take n avail) @ take (needed - n) (offers ds1)"
        "drop needed (offers ds) = drop (needed - n) (offers ds1)"
        unfolding o using n by (simp_all add: n_def)
      then show ?thesis using eq 1(3) IH by (simp add: o_def)
    qed
  qed
qed

fun assign :: "(MasterNodeInfo \<times> nat) list \<Rightarrow> 'a list \<Rightarrow> (MasterNodeInfo \<times> 'a) list" where
  "assign [] xs = []"
| "assign ((rec, k) # recs) xs = map (Pair rec) (take k xs) @ assign recs (drop k xs)"

lemma fill_receivers_spec:
  "fill_receivers recs ds = map (\<lambda>(rec, d, s). slot_move d rec s) (assign recs (offers ds))"
proof (induction recs ds rule: fill_receivers.induct)
  case (2 rec needed recs ds)
  obtain mv ds' where f: "fill_receiver rec needed ds = (mv, ds')" by fastforce
  show ?case using fill_receiver_spec [OF f] 2 [OF f [symmetric] refl] by (simp add: f o_def case_prod_unfold)
qed simp

lemma map_snd_assign: "map snd (assign recs xs) = take (sum_list (map snd recs)) xs"
  by (induction recs xs rule: assign.induct) (auto simp: take_add o_def)

lemma map_fst_assign:
  "sum_list (map snd recs) \<le> length xs \<Longrightarrow> map fst (assign recs xs) = concat (map (\<lambda>(rec, k). replicate k rec) recs)"
  by (induction recs xs rule: assign.induct) (auto simp: o_def map_replicate_const min_def)

text \<open>The masters with their shares.\<close>

definition shares :: "MasterNodeInfo list \<Rightarrow> (MasterNodeInfo \<times> nat) list" where
  "shares ms = map (\<lambda>(i, m). (m, share (length ms) i)) (enumerate 0 ms)"

definition donors_of :: "(MasterNodeInfo \<times> nat) list \<Rightarrow> donor list" where
  "donors_of mts =
     map (\<lambda>(m, tgt). (m, drop tgt (mi_Slots m))) (filter (\<lambda>(m, tgt). length (mi_Slots m) > tgt) mts)"

definition receivers_of :: "(MasterNodeInfo \<times> nat) list \<Rightarrow> (MasterNodeInfo \<times> nat) list" where
  "receivers_of mts =
     map (\<lambda>(m, tgt). (m, tgt - length (mi_Slots m))) (filter (\<lambda>(m, tgt). length (mi_Slots m) < tgt) mts)"

lemma gget_fold_gput:
  "distinct (map f xs) \<Longrightarrow> x \<in> set xs \<Longrightarrow> gget (fold (\<lambda>x. gput (f x) (g x)) xs c) (f x) = Some (g x)"
proof (induction xs arbitrary: c rule: rev_induct)
  case (snoc y xs)
  then show ?case by (cases "x = y") (auto simp: image_iff gomap_simps)
qed simp

lemma split_masters_spec:
  assumes "\<And>m tgt. (m, tgt) \<in> set mts \<Longrightarrow>
      gget ic (mi_ID m) = Some (int (length (mi_Slots m))) \<and> gget tc (mi_ID m) = Some (int tgt)"
  shows "split_masters ic tc (map fst mts) = Some (donors_of mts, receivers_of mts)"
  using assms
proof (induction mts)
  case (Cons mt mts)
  obtain m tgt where mt: "mt = (m, tgt)" by force
  have IH: "split_masters ic tc (map fst mts) = Some (donors_of mts, receivers_of mts)"
    by (rule Cons.IH, rule Cons.prems) simp
  have "gget ic (mi_ID m) = Some (int (length (mi_Slots m)))" "gget tc (mi_ID m) = Some (int tgt)"
    using Cons.prems by (auto simp: mt)
  then show ?case
    by (cases "length (mi_Slots m)" tgt rule: linorder_cases)
       (auto simp: mt IH donors_of_def receivers_of_def Let_def nat_diff_distrib)
qed (simp add: donors_of_def receivers_of_def)

lemma shares_simps: "map fst (shares ms) = ms" "map snd (shares ms) = map (share (length ms)) [0..<length ms]"
  "length (shares ms) = length ms" "i < length ms \<Longrightarrow> shares ms ! i = (ms ! i, share (length ms) i)"
  by (auto simp: shares_def nth_enumerate_eq intro!: nth_equalityI)

lemma split_masters_shares:
  assumes d: "distinct (map mi_ID ms)"
  shows "split_masters (init_counts ms) (target_counts (length ms) ms) ms =
           Some (donors_of (shares ms), receivers_of (shares ms))"
proof -
  have "gget (init_counts ms) (mi_ID m) = Some (int (length (mi_Slots m))) \<and>
      gget (target_counts (length ms) ms) (mi_ID m) = Some (int tgt)" if mem: "(m, tgt) \<in> set (shares ms)" for m tgt
  proof -
    obtain i where i: "i < length ms" "m = ms ! i" "tgt = share (length ms) i"
      using mem by (auto simp: in_set_conv_nth shares_simps)
    then have "m \<in> set ms" "(i, m) \<in> set (enumerate 0 ms)" by (auto simp: in_set_enumerate_eq)
    moreover have "distinct (map (\<lambda>(i, m). mi_ID m) (enumerate 0 ms))"
      using d by (metis (no_types, lifting) case_prod_unfold comp_apply map_cong map_map map_snd_enumerate)
    ultimately show ?thesis
      using gget_fold_gput [OF d, of m "\<lambda>m. int (length (mi_Slots m))" "[]"]
        gget_fold_gput [of "\<lambda>(i, m). mi_ID m" "enumerate 0 ms" "(i, m)" "\<lambda>(j, m). int (share (length ms) j)" "[]"]
      by (simp add: init_counts_def target_counts_def i case_prod_unfold)
  qed
  then show ?thesis using split_masters_spec [of "shares ms"] by (simp add: shares_simps)
qed

lemma sum_share: "0 < n \<Longrightarrow> sum_list (map (share n) [0..<n]) = NumSlots"
proof -
  assume "0 < n"
  have "sum_list (map (share n) [0..<n]) = (\<Sum>i<n. NumSlots div n + (if i < NumSlots mod n then 1 else 0))"
    by (auto simp: share_def sum_list_sum_nth atLeast0LessThan intro!: sum.cong)
  also have "\<dots> = n * (NumSlots div n) + card {i. i < n \<and> i < NumSlots mod n}"
    by (simp add: sum.distrib flip: sum.inter_filter)
  also have "{i. i < n \<and> i < NumSlots mod n} = {..<NumSlots mod n}"
    using \<open>0 < n\<close> mod_less_divisor [of n NumSlots] by (auto intro: less_trans)
  finally show ?thesis by simp
qed

subsection \<open>The offers and the demands\<close>

lemma offers_Cons: "offers (donors_of ((m, tgt) # mts)) = map (Pair m) (drop tgt (mi_Slots m)) @ offers (donors_of mts)"
  by (simp add: offers_def donors_of_def)

lemma length_offers: "length (offers (donors_of mts)) = sum_list (map (\<lambda>(m, tgt). length (mi_Slots m) - tgt) mts)"
  by (induction mts) (auto simp: offers_Cons, simp add: offers_def donors_of_def)

lemma offers_slots: "map snd (offers (donors_of mts)) = concat (map (\<lambda>(m, tgt). drop tgt (mi_Slots m)) mts)"
  by (induction mts) (auto simp: offers_Cons o_def, simp add: offers_def donors_of_def)

lemma set_offers: "set (offers (donors_of mts)) = {(m, s). \<exists>tgt. (m, tgt) \<in> set mts \<and> s \<in> set (drop tgt (mi_Slots m))}"
  by (induction mts) (auto simp: offers_Cons, simp_all add: offers_def donors_of_def)

definition demands :: "(MasterNodeInfo \<times> nat) list \<Rightarrow> MasterNodeInfo list" where
  "demands recs = concat (map (\<lambda>(rec, k). replicate k rec) recs)"

lemma demands_Cons:
  "demands (receivers_of ((m, tgt) # mts)) = replicate (tgt - length (mi_Slots m)) m @ demands (receivers_of mts)"
  by (simp add: demands_def receivers_of_def)

lemma sum_receivers: "sum_list (map snd (receivers_of mts)) = sum_list (map (\<lambda>(m, tgt). tgt - length (mi_Slots m)) mts)"
  by (induction mts) (auto simp: receivers_of_def)

lemma set_demands: "set (demands (receivers_of mts)) = {m. \<exists>tgt. (m, tgt) \<in> set mts \<and> length (mi_Slots m) < tgt}"
proof (induction mts)
  case (Cons mt mts)
  then show ?case by (cases mt) (auto simp: demands_Cons)
qed (simp add: demands_def receivers_of_def)

lemma count_offers:
  "distinct (map (\<lambda>(m, tgt). mi_ID m) mts) \<Longrightarrow> (m, tgt) \<in> set mts \<Longrightarrow>
   length (filter (\<lambda>(d, s). mi_ID d = mi_ID m) (offers (donors_of mts))) = length (mi_Slots m) - tgt"
proof (induction mts)
  case (Cons mt mts)
  have "filter (\<lambda>(d, s). mi_ID d = mi_ID m) (offers (donors_of mts)) = []" if "mi_ID m \<notin> set (map (\<lambda>(m, tgt). mi_ID m) mts)"
    using that by (force simp: filter_empty_conv set_offers)
  then show ?case using Cons by (cases mt) (auto simp: offers_Cons filter_map o_def image_iff)
qed simp

lemma count_demands:
  "distinct (map (\<lambda>(m, tgt). mi_ID m) mts) \<Longrightarrow> (m, tgt) \<in> set mts \<Longrightarrow>
   length (filter (\<lambda>d. mi_ID d = mi_ID m) (demands (receivers_of mts))) = tgt - length (mi_Slots m)"
proof (induction mts)
  case (Cons mt mts)
  have "filter (\<lambda>d. mi_ID d = mi_ID m) (demands (receivers_of mts)) = []" if "mi_ID m \<notin> set (map (\<lambda>(m, tgt). mi_ID m) mts)"
    using that by (force simp: filter_empty_conv set_demands)
  then show ?case using Cons by (cases mt) (auto simp: demands_Cons image_iff)
qed simp

lemma the_count_move:
  "the (gget (fold count_move moves c) i) =
     the (gget c i) - int (length (filter (\<lambda>mv. sv_FromNodeID mv = i) moves))
       + int (length (filter (\<lambda>mv. sv_ToNodeID mv = i) moves))"
  by (induction moves arbitrary: c) (auto simp: count_move_def Let_def gomap_simps)

lemma gget_count_move: "gget c i \<noteq> None \<Longrightarrow> gget (fold count_move moves c) i \<noteq> None"
  by (induction moves arbitrary: c) (auto simp: count_move_def Let_def gomap_simps)

text \<open>The slots of a master once the moves are done.\<close>

definition slots_after :: "SlotMove list \<Rightarrow> MasterNodeInfo \<Rightarrow> nat set" where
  "slots_after moves m =
     (set (mi_Slots m) - sv_Slot ` set moves) \<union> {sv_Slot mv |mv. mv \<in> set moves \<and> sv_ToNodeID mv = mi_ID m}"

lemma excess_eq_lack:
  "sum_list (map (\<lambda>(m, tgt). length (mi_Slots m)) mts) = sum_list (map snd mts) \<Longrightarrow>
   sum_list (map (\<lambda>(m, tgt). length (mi_Slots m) - tgt) mts) = sum_list (map (\<lambda>(m, tgt). tgt - length (mi_Slots m)) mts)"
proof -
  have "sum_list (map (\<lambda>(m, tgt). length (mi_Slots m) - tgt) mts) + sum_list (map snd mts) =
      sum_list (map (\<lambda>(m, tgt). tgt - length (mi_Slots m)) mts) + sum_list (map (\<lambda>(m, tgt). length (mi_Slots m)) mts)"
    by (induction mts) auto
  then show "?thesis" if "sum_list (map (\<lambda>(m, tgt). length (mi_Slots m)) mts) = sum_list (map snd mts)"
    using that by linarith
qed

text \<open>The plan, when the masters hold all slots: the offers and the demands meet exactly.\<close>

definition balanced_moves :: "(MasterNodeInfo \<times> nat) list \<Rightarrow> SlotMove list \<Rightarrow> bool" where
  "balanced_moves mts moves \<longleftrightarrow>
     (\<exists>ps. moves = map (\<lambda>(rec, d, s). slot_move d rec s) ps \<and>
        map snd ps = offers (donors_of mts) \<and> map fst ps = demands (receivers_of mts))"

lemma fill_balanced:
  assumes "sum_list (map (\<lambda>(m, tgt). length (mi_Slots m)) mts) = sum_list (map snd mts)"
  shows "balanced_moves mts (fill_receivers (receivers_of mts) (donors_of mts))"
  unfolding balanced_moves_def fill_receivers_spec demands_def
  using excess_eq_lack [OF assms]
  by (intro exI [of _ "assign (receivers_of mts) (offers (donors_of mts))"] conjI)
     (simp_all add: map_snd_assign map_fst_assign sum_receivers length_offers)

lemma balanced_simps:
  assumes "balanced_moves mts moves"
  shows "map sv_Slot moves = map snd (offers (donors_of mts))"
    "map (\<lambda>mv. (sv_FromNodeID mv, sv_Slot mv)) moves = map (\<lambda>(d, s). (mi_ID d, s)) (offers (donors_of mts))"
    "map sv_ToNodeID moves = map mi_ID (demands (receivers_of mts))"
    "length moves = length (offers (donors_of mts))"
proof -
  obtain ps where ps: "moves = map (\<lambda>(rec, d, s). slot_move d rec s) ps"
      "offers (donors_of mts) = map snd ps" "demands (receivers_of mts) = map fst ps"
    using assms by (auto simp: balanced_moves_def)
  show "map sv_Slot moves = map snd (offers (donors_of mts))"
    "map (\<lambda>mv. (sv_FromNodeID mv, sv_Slot mv)) moves = map (\<lambda>(d, s). (mi_ID d, s)) (offers (donors_of mts))"
    "map sv_ToNodeID moves = map mi_ID (demands (receivers_of mts))"
    "length moves = length (offers (donors_of mts))"
    by (auto simp: ps slot_move_def)
qed

lemma balanced_counts:
  assumes "balanced_moves mts moves" "distinct (map (\<lambda>(m, tgt). mi_ID m) mts)" "(m, tgt) \<in> set mts"
  shows "length (filter (\<lambda>mv. sv_FromNodeID mv = mi_ID m) moves) = length (mi_Slots m) - tgt"
    "length (filter (\<lambda>mv. sv_ToNodeID mv = mi_ID m) moves) = tgt - length (mi_Slots m)"
proof -
  have "length (filter (\<lambda>mv. sv_FromNodeID mv = mi_ID m) moves) =
      length (filter (\<lambda>p. fst p = mi_ID m) (map (\<lambda>mv. (sv_FromNodeID mv, sv_Slot mv)) moves))"
    by (simp add: filter_map o_def)
  also have "\<dots> = length (filter (\<lambda>(d, s). mi_ID d = mi_ID m) (offers (donors_of mts)))"
    unfolding balanced_simps [OF assms(1)] by (simp add: filter_map o_def case_prod_unfold)
  finally show "length (filter (\<lambda>mv. sv_FromNodeID mv = mi_ID m) moves) = length (mi_Slots m) - tgt"
    using count_offers [OF assms(2,3)] by simp
  have "length (filter (\<lambda>mv. sv_ToNodeID mv = mi_ID m) moves) = length (filter (\<lambda>i. i = mi_ID m) (map sv_ToNodeID moves))"
    by (simp add: filter_map o_def)
  then show "length (filter (\<lambda>mv. sv_ToNodeID mv = mi_ID m) moves) = tgt - length (mi_Slots m)"
    unfolding balanced_simps [OF assms(1)] by (simp add: filter_map o_def count_demands [OF assms(2,3)])
qed

lemma distinct_offers:
  "distinct (concat (map (\<lambda>mt. mi_Slots (fst mt)) mts)) \<Longrightarrow> distinct (map snd (offers (donors_of mts)))"
proof (induction mts)
  case (Cons mt mts)
  obtain a t where mt: "mt = (a, t)" by force
  have "set (drop t (mi_Slots a)) \<inter> snd ` set (offers (donors_of mts)) = {}"
    using Cons.prems by (fastforce simp: mt set_offers dest: in_set_dropD)
  then show ?case using Cons by (simp add: mt offers_Cons o_def)
qed (simp add: offers_def donors_of_def)

lemma kept_slots:
  assumes d: "distinct (concat (map (\<lambda>mt. mi_Slots (fst mt)) mts))" and m: "(m, tgt) \<in> set mts"
  shows "set (mi_Slots m) - set (map snd (offers (donors_of mts))) = set (take tgt (mi_Slots m))"
proof -
  obtain xs ys where mts: "mts = xs @ (m, tgt) # ys" using m by (meson split_list)
  have own: "distinct (mi_Slots m)" using d by (simp add: mts)
  have other: "s \<notin> set (mi_Slots (fst mt))" if "s \<in> set (mi_Slots m)" "mt \<in> set xs \<union> set ys" for s mt
    using d that by (auto simp: mts)
  have "s \<in> set (map snd (offers (donors_of mts))) \<longleftrightarrow> s \<in> set (drop tgt (mi_Slots m))" if "s \<in> set (mi_Slots m)" for s
  proof
    assume "s \<in> set (map snd (offers (donors_of mts)))"
    then obtain a t where a: "(a, t) \<in> set mts" "s \<in> set (drop t (mi_Slots a))" by (auto simp: set_offers)
    then have "(a, t) = (m, tgt)" using other [OF that, of "(a, t)"] by (auto simp: mts dest: in_set_dropD)
    then show "s \<in> set (drop tgt (mi_Slots m))" using a by simp
  qed (use m in \<open>force simp: set_offers\<close>)
  moreover have "set (mi_Slots m) - set (drop tgt (mi_Slots m)) = set (take tgt (mi_Slots m))"
    using own append_take_drop_id [of tgt "mi_Slots m"] set_take_disj_set_drop_if_distinct [OF own, of tgt tgt]
      set_append [of "take tgt (mi_Slots m)" "drop tgt (mi_Slots m)"] by auto
  ultimately show ?thesis by blast
qed

lemma balanced_slots_after:
  assumes b: "balanced_moves mts moves" and i: "distinct (map (\<lambda>(m, tgt). mi_ID m) mts)"
    and d: "distinct (concat (map (\<lambda>mt. mi_Slots (fst mt)) mts))" and m: "(m, tgt) \<in> set mts"
  shows "card (slots_after moves m) = tgt"
proof -
  have ds: "distinct (map sv_Slot moves)" using distinct_offers [OF d] by (simp add: balanced_simps [OF b])
  let ?to = "filter (\<lambda>mv. sv_ToNodeID mv = mi_ID m) moves"
  have "distinct (map sv_Slot ?to)" using ds by (simp add: distinct_map_filter)
  then have "card (set (map sv_Slot ?to)) = tgt - length (mi_Slots m)"
    using balanced_counts(2) [OF b i m] by (subst distinct_card) simp_all
  moreover have "distinct (mi_Slots m)" using d m by (induction mts) auto
  then have "card (set (take tgt (mi_Slots m))) = min (length (mi_Slots m)) tgt"
    by (subst distinct_card) simp_all
  moreover have "sv_Slot ` set moves = set (map snd (offers (donors_of mts)))"
    using balanced_simps(1) [OF b] by (metis set_map)
  then have kept: "set (mi_Slots m) - sv_Slot ` set moves = set (take tgt (mi_Slots m))"
    using kept_slots [OF d m] by simp
  moreover have "set (take tgt (mi_Slots m)) \<inter> set (map sv_Slot ?to) = {}" unfolding kept [symmetric] by auto
  moreover have "slots_after moves m = set (take tgt (mi_Slots m)) \<union> set (map sv_Slot ?to)"
    unfolding slots_after_def kept by auto
  ultimately show ?thesis by (simp add: card_Un_disjoint)
qed

lemma concat_sort_key: "mset (concat (map f (sort_key g xs))) = mset (concat (map f xs))"
proof -
  have "mset (concat (map f ys)) = sum_mset (image_mset (\<lambda>x. mset (f x)) (mset ys))" for ys
    by (induction ys) auto
  then show ?thesis by simp
qed

lemma Rebalance_core:
  assumes n: "2 \<le> length ms" and i: "distinct (map mi_ID ms)" and d: "distinct (concat (map mi_Slots ms))"
    and l: "length (concat (map mi_Slots ms)) = NumSlots"
  defines "moves \<equiv> fill_receivers (receivers_of (shares ms)) (donors_of (shares ms))"
  shows "balanced_moves (shares ms) moves" (is ?b)
    and "distinct (map sv_Slot moves)"
    and "\<forall>mv\<in>set moves. \<exists>m\<in>set ms. sv_FromNodeID mv = mi_ID m \<and> sv_Slot mv \<in> set (mi_Slots m)"
    and "k < length ms \<Longrightarrow> gget (fold count_move moves (init_counts ms)) (mi_ID (ms ! k)) = Some (int (share (length ms) k))"
    and "k < length ms \<Longrightarrow> card (slots_after moves (ms ! k)) = share (length ms) k"
    and "length moves = (\<Sum>k<length ms. length (mi_Slots (ms ! k)) - share (length ms) k)"
proof -
  have fst_shares: "map (\<lambda>mt. f (fst mt)) (shares ms) = map f ms" for f :: "MasterNodeInfo \<Rightarrow> 'x"
    using shares_simps(1) [of ms] by (metis (no_types, lifting) comp_apply map_eq_conv map_map)
  have sum: "sum_list (map (\<lambda>(m, tgt). length (mi_Slots m)) (shares ms)) = sum_list (map snd (shares ms))"
    using l sum_share [OF less_le_trans [OF zero_less_numeral n]]
    by (simp add: fst_shares [of "\<lambda>m. length (mi_Slots m)"] case_prod_unfold shares_simps length_concat o_def)
  show b: ?b unfolding moves_def by (rule fill_balanced [OF sum])
  have i': "distinct (map (\<lambda>(m, tgt). mi_ID m) (shares ms))"
    and d': "distinct (concat (map (\<lambda>mt. mi_Slots (fst mt)) (shares ms)))"
    using i d by (simp_all add: fst_shares case_prod_unfold)
  show "distinct (map sv_Slot moves)" using distinct_offers [OF d'] by (simp add: balanced_simps [OF b])
  have "(\<lambda>mv. (sv_FromNodeID mv, sv_Slot mv)) ` set moves = (\<lambda>(d, s). (mi_ID d, s)) ` set (offers (donors_of (shares ms)))"
    using balanced_simps(2) [OF b] by (metis set_map)
  moreover have "m \<in> set ms" if "(m, t) \<in> set (shares ms)" for m t
    using that shares_simps(1) [of ms] by (metis fst_conv image_eqI set_map)
  ultimately show "\<forall>mv\<in>set moves. \<exists>m\<in>set ms. sv_FromNodeID mv = mi_ID m \<and> sv_Slot mv \<in> set (mi_Slots m)"
    by (fastforce simp: set_offers dest: in_set_dropD)
  have k: "(ms ! k, share (length ms) k) \<in> set (shares ms)" if "k < length ms" for k
    using that shares_simps(3) [of ms] shares_simps(4) [of k ms] by (metis nth_mem)
  have ic: "gget (init_counts ms) (mi_ID (ms ! k)) = Some (int (length (mi_Slots (ms ! k))))" if "k < length ms" for k
    unfolding init_counts_def by (rule gget_fold_gput [OF i]) (use that in simp)
  show "gget (fold count_move moves (init_counts ms)) (mi_ID (ms ! k)) = Some (int (share (length ms) k))"
    if "k < length ms"
    using gget_count_move [of "init_counts ms" "mi_ID (ms ! k)" moves] the_count_move [of moves "init_counts ms" "mi_ID (ms ! k)"]
    by (auto simp: ic [OF that] balanced_counts [OF b i' k [OF that]])
  show "card (slots_after moves (ms ! k)) = share (length ms) k" if "k < length ms"
    by (rule balanced_slots_after [OF b i' d' k [OF that]])
  show "length moves = (\<Sum>k<length ms. length (mi_Slots (ms ! k)) - share (length ms) k)"
    unfolding balanced_simps(4) [OF b] length_offers
    by (simp add: sum_list_sum_nth shares_simps atLeast0LessThan)
qed

text \<open>
  Property C15: when the masters hold all slots between them, each slot once, the plan always exists and
  balances the cluster. No slot moves twice, and each moves away from a master that has it; once the
  moves are done the master at position \<open>i\<close> of the order by identifier holds exactly its share, 16384 div n
  or one more for the first 16384 mod n; the counts the plan announces are those numbers; and the
  number of moves is the total excess over the shares, which no plan with the same result can beat.
\<close>

theorem Rebalance_balanced:
  assumes "2 \<le> length masters" "distinct (map mi_ID masters)"
    and "distinct (concat (map mi_Slots masters))" "length (concat (map mi_Slots masters)) = NumSlots"
  shows "\<exists>plan. ComputeRebalancePlan masters = Inr plan \<and>
    distinct (map sv_Slot (rp_Moves plan)) \<and>
    (\<forall>mv\<in>set (rp_Moves plan). \<exists>m\<in>set masters. sv_FromNodeID mv = mi_ID m \<and> sv_Slot mv \<in> set (mi_Slots m)) \<and>
    (\<forall>i<length masters. let m = sort_key mi_ID masters ! i in
       gget (rp_FinalCounts plan) (mi_ID m) = Some (int (share (length masters) i)) \<and>
       card (slots_after (rp_Moves plan) m) = share (length masters) i) \<and>
    rp_TotalSlotsToMove plan =
      int (\<Sum>i<length masters. length (mi_Slots (sort_key mi_ID masters ! i)) - share (length masters) i)"
proof -
  define ms where "ms = sort_key mi_ID masters"
  have m: "length ms = length masters" "set ms = set masters" by (simp_all add: ms_def)
  have k: "mset (map mi_ID ms) = mset (map mi_ID masters)" by (simp add: ms_def)
  have c: "mset (concat (map mi_Slots ms)) = mset (concat (map mi_Slots masters))"
    unfolding ms_def by (rule concat_sort_key)
  have "2 \<le> length ms" "distinct (map mi_ID ms)" "distinct (concat (map mi_Slots ms))"
      "length (concat (map mi_Slots ms)) = NumSlots"
    using assms by (simp_all only: m mset_eq_imp_distinct_iff [OF k] mset_eq_imp_distinct_iff [OF c] mset_eq_length [OF c])
  note core = Rebalance_core [OF this] and split = split_masters_shares [OF this(2)]
  show ?thesis
    unfolding ComputeRebalancePlan_def ms_def [symmetric] using assms(1) core(2-6) split [unfolded m(1)]
    by (simp add: Let_def m)
qed

theorem Rebalance_balanced_witness:
  "let a = \<lparr>mi_ID = ''b'', mi_IP = ''h'', mi_Port = 1, mi_BusPort = 2, mi_Slots = [0..<NumSlots], mi_SlotCount = 16384\<rparr>;
       b = \<lparr>mi_ID = ''a'', mi_IP = ''h'', mi_Port = 3, mi_BusPort = 4, mi_Slots = [], mi_SlotCount = 0\<rparr>
   in \<exists>plan. ComputeRebalancePlan [a, b] = Inr plan \<and> rp_TotalSlotsToMove plan = 8192 \<and>
        card (slots_after (rp_Moves plan) b) = 8192"
proof -
  let ?a = "\<lparr>mi_ID = ''b'', mi_IP = ''h'', mi_Port = 1, mi_BusPort = 2, mi_Slots = [0..<NumSlots], mi_SlotCount = 16384\<rparr>"
  let ?b = "\<lparr>mi_ID = ''a'', mi_IP = ''h'', mi_Port = 3, mi_BusPort = 4, mi_Slots = [], mi_SlotCount = 0\<rparr>"
  have s: "sort_key mi_ID [?a, ?b] = [?b, ?a]" by simp
  have "share 2 0 = 8192" "share 2 1 = 8192" by (simp_all add: share_def NumSlots_def)
  then show ?thesis
    using Rebalance_balanced [of "[?a, ?b]", unfolded s] by (force simp: NumSlots_def lessThan_Suc numeral_2_eq_2)
qed

end
