(* ===== verification/Binary.thy ===== *)
theory Binary
  imports Go_Prelude
begin

text \<open>
  Fixed-width and variable-width integers as bytes: \<open>PutUint16/32/64\<close> of Go's encoding/binary in both
  byte orders, \<open>PutUvarint\<close> and \<open>ReadUvarint\<close>, and \<open>io.ReadFull\<close> on an input of bytes. Integers are
  naturals below the width's bound.
\<close>

section \<open>Definitions\<close>

fun PutLE :: "nat \<Rightarrow> nat \<Rightarrow> string" where
  "PutLE 0 x = []"
| "PutLE (Suc n) x = char_of x # PutLE n (x div 256)"

fun LE :: "string \<Rightarrow> nat" where
  "LE [] = 0"
| "LE (c # cs) = of_char c + 256 * LE cs"

definition PutBE :: "nat \<Rightarrow> nat \<Rightarrow> string" where
  "PutBE n x = rev (PutLE n x)"

definition BE :: "string \<Rightarrow> nat" where
  "BE cs = LE (rev cs)"

text \<open>An \<open>int64\<close> and the \<open>uint64\<close> of the same bits.\<close>

definition uint64_of :: "int \<Rightarrow> nat" where
  "uint64_of i = nat (i mod 2 ^ 64)"

definition int64_of :: "nat \<Rightarrow> int" where
  "int64_of n = wrap64 (int n)"

datatype read_error = ReadEOF | ReadUnexpectedEOF | VarintOverflow

text \<open>\<open>io.ReadFull\<close>, the \<open>ReadByte\<close> of a buffered reader, and what both leave.\<close>

definition read_full :: "nat \<Rightarrow> string \<Rightarrow> read_error + (string \<times> string)" where
  "read_full n r =
     (if n \<le> length r then Inr (take n r, drop n r)
      else if r = [] then Inl ReadEOF else Inl ReadUnexpectedEOF)"

definition read_byte :: "string \<Rightarrow> read_error + (char \<times> string)" where
  "read_byte r = (case r of [] \<Rightarrow> Inl ReadEOF | c # r \<Rightarrow> Inr (c, r))"

function PutUvarint :: "nat \<Rightarrow> string" where
  "PutUvarint x = (if x \<ge> 128 then char_of (x mod 128 + 128) # PutUvarint (x div 128) else [char_of x])"
  by pat_completeness auto

termination by (relation "measure id") auto

declare PutUvarint.simps [simp del]

text \<open>\<open>ReadUvarint\<close>: \<open>i\<close> counts the bytes read, \<open>x\<close> holds their value; the input left is returned in every case.\<close>

function uvarint_loop :: "nat \<Rightarrow> nat \<Rightarrow> string \<Rightarrow> (read_error + nat) \<times> string" where
  "uvarint_loop i x r =
     (if i \<ge> 10 then (Inl VarintOverflow, r)
      else case r of
        [] \<Rightarrow> (Inl (if i > 0 then ReadUnexpectedEOF else ReadEOF), [])
      | c # r \<Rightarrow>
          if (of_char c :: nat) < 128 then
            (if i = 9 \<and> (of_char c :: nat) > 1 then (Inl VarintOverflow, r) else (Inr (x + of_char c * 2 ^ (7 * i)), r))
          else uvarint_loop (Suc i) (x + (of_char c - 128) * 2 ^ (7 * i)) r)"
  by pat_completeness auto

termination by (relation "measure (\<lambda>(i, x, r). length r)") auto

declare uvarint_loop.simps [simp del]

definition ReadUvarint :: "string \<Rightarrow> (read_error + nat) \<times> string" where
  "ReadUvarint r = uvarint_loop 0 0 r"

section \<open>Proofs\<close>

lemma length_PutLE [simp]: "length (PutLE n x) = n"
  by (induction n arbitrary: x) auto

lemma length_PutBE [simp]: "length (PutBE n x) = n"
  by (simp add: PutBE_def)

lemma LE_PutLE: "x < 256 ^ n \<Longrightarrow> LE (PutLE n x) = x"
proof (induction n arbitrary: x)
  case (Suc n)
  then have "x div 256 < 256 ^ n" by (simp add: less_mult_imp_div_less mult.commute)
  then show ?case using Suc.IH [of "x div 256"] by (simp add: take_bit_eq_mod)
qed simp

lemma BE_PutBE: "x < 256 ^ n \<Longrightarrow> BE (PutBE n x) = x"
  by (simp add: BE_def PutBE_def LE_PutLE)

lemma int64_of_uint64_of: "in_int64 i \<Longrightarrow> int64_of (uint64_of i) = i"
  unfolding int64_of_def uint64_of_def in_int64_def wrap64_def by (simp add: mod_add_left_eq)

lemma uint64_of_less: "uint64_of i < 2 ^ 64"
  by (simp add: uint64_of_def nat_less_iff)

lemma read_full_append [simp]: "length s = n \<Longrightarrow> read_full n (s @ r) = Inr (s, r)"
  by (auto simp: read_full_def)

lemma read_full_short: "length r < n \<Longrightarrow> \<exists>e. read_full n r = Inl e"
  by (simp add: read_full_def)

text \<open>Reading a variable-width integer back; the loop invariant counts the bytes already read.\<close>

lemma uvarint_more:
  "i < 10 \<Longrightarrow> m < 128 \<Longrightarrow> uvarint_loop i x (char_of (m + 128) # r) = uvarint_loop (Suc i) (x + m * 2 ^ (7 * i)) r"
  by (subst uvarint_loop.simps) (simp add: take_bit_eq_mod)

lemma uvarint_last:
  "i < 10 \<Longrightarrow> m < 128 \<Longrightarrow> (i = 9 \<Longrightarrow> m \<le> 1) \<Longrightarrow> uvarint_loop i x (char_of m # r) = (Inr (x + m * 2 ^ (7 * i)), r)"
  by (subst uvarint_loop.simps) (auto simp: take_bit_eq_mod)

lemma uvarint_top: "(x :: nat) * 2 ^ (7 * i) < 2 ^ 64 \<Longrightarrow> i = 9 \<Longrightarrow> x \<le> 1"
proof -
  assume "x * 2 ^ (7 * i) < 2 ^ 64" "i = 9"
  then have "x * 2 ^ 63 < 2 * 2 ^ 63" by simp
  then show "x \<le> 1" by (subst (asm) mult_less_cancel2) simp
qed

lemma uvarint_loop_put:
  "x * 2 ^ (7 * i) < 2 ^ 64 \<Longrightarrow> i \<le> 9 \<Longrightarrow> uvarint_loop i acc (PutUvarint x @ r) = (Inr (acc + x * 2 ^ (7 * i)), r)"
proof (induction x arbitrary: i acc rule: PutUvarint.induct)
  case (1 x)
  show ?case
  proof (cases "x \<ge> 128")
    case True
    then have i: "Suc i \<le> 9" using uvarint_top [OF "1.prems"(1)] "1.prems"(2) by (cases "i = 9") auto
    have p: "x mod 128 * 2 ^ (7 * i) + x div 128 * 2 ^ (7 * Suc i) = x * 2 ^ (7 * i)"
    proof -
      have "x * 2 ^ (7 * i) = (x div 128 * 128 + x mod 128) * 2 ^ (7 * i)" by simp
      also have "\<dots> = x mod 128 * 2 ^ (7 * i) + x div 128 * (128 * 2 ^ (7 * i))" by (simp only: distrib_left ac_simps)
      finally show ?thesis by (simp add: power_add)
    qed
    have "x div 128 * 2 ^ (7 * Suc i) < 2 ^ 64" using "1.prems"(1) p by linarith
    then have "uvarint_loop (Suc i) (acc + x mod 128 * 2 ^ (7 * i)) (PutUvarint (x div 128) @ r) =
        (Inr (acc + x mod 128 * 2 ^ (7 * i) + x div 128 * 2 ^ (7 * Suc i)), r)"
      by (rule "1.IH" [OF True _ i])
    then have "uvarint_loop i acc (char_of (x mod 128 + 128) # PutUvarint (x div 128) @ r) = (Inr (acc + x * 2 ^ (7 * i)), r)"
      using uvarint_more [of i "x mod 128"] i p by (simp add: add.assoc)
    then show ?thesis using True by (subst PutUvarint.simps) simp
  next
    case False
    then show ?thesis
      using uvarint_last [of i x] uvarint_top [OF "1.prems"(1)] "1.prems"(2) by (subst PutUvarint.simps) simp
  qed
qed

lemma ReadUvarint_PutUvarint: "x < 2 ^ 64 \<Longrightarrow> ReadUvarint (PutUvarint x @ r) = (Inr x, r)"
  unfolding ReadUvarint_def using uvarint_loop_put [of x 0 0 r] by simp

end
