(* ===== verification/Cluster_Bus.thy ===== *)
theory Cluster_Bus
  imports Cluster_Slots Binary
begin

text \<open>
  The packets of the cluster bus (src/internal/cluster/bus.go): the slot bitmap, \<open>WritePacket\<close> with its
  fixed header of 2174 bytes, and \<open>ReadPacket\<close>. The connection is the list of bytes still to be read.

  The lemmas show that a packet is read back exactly, that a cut packet is refused, and that the
  bitmap carries every slot.
\<close>

unbundle bit_operations_syntax

section \<open>Definitions\<close>

definition BusMagic :: string where
  "BusMagic = ''VBUS''"

definition TypePing :: "8 word" where "TypePing = 1"
definition TypePong :: "8 word" where "TypePong = 2"
definition TypeFail :: "8 word" where "TypeFail = 3"
definition TypeFailoverAuthReq :: "8 word" where "TypeFailoverAuthReq = 4"
definition TypeFailoverAuthAck :: "8 word" where "TypeFailoverAuthAck = 5"

definition FlagMaster :: "16 word" where "FlagMaster = 1"
definition FlagSlave :: "16 word" where "FlagSlave = 2"
definition FlagPFail :: "16 word" where "FlagPFail = 4"
definition FlagFail :: "16 word" where "FlagFail = 8"

record GossipEntry =
  ge_NodeID :: string
  ge_IP :: string
  ge_Port :: "16 word"
  ge_BusPort :: "16 word"
  ge_Flags :: "16 word"
  ge_PingSent :: int
  ge_PongRecv :: int

record BusPacket =
  bp_Type :: "8 word"
  bp_Epoch :: "64 word"
  bp_SenderID :: string
  bp_SenderIP :: string
  bp_Port :: "16 word"
  bp_BusPort :: "16 word"
  bp_Flags :: "16 word"
  bp_Slots :: "8 word list"
  bp_Gossip :: "GossipEntry list"
  bp_TargetNodeID :: string
  bp_ReqEpoch :: "64 word"

text \<open>The bitmap: bit \<open>i mod 8\<close> of byte \<open>i div 8\<close> is slot \<open>i\<close>.\<close>

definition SlotsToBitmap :: "(nat \<Rightarrow> bool) \<Rightarrow> 8 word list" where
  "SlotsToBitmap slots =
     fold (\<lambda>i bm. if slots i then bm[i div 8 := (bm ! (i div 8)) OR push_bit (i mod 8) 1] else bm)
       [0..<16384] (replicate 2048 0)"

definition BitmapToSlots :: "8 word list \<Rightarrow> nat \<Rightarrow> bool" where
  "BitmapToSlots bm i \<longleftrightarrow> i < 16384 \<and> (bm ! (i div 8)) AND push_bit (i mod 8) 1 \<noteq> 0"

definition padString :: "string \<Rightarrow> nat \<Rightarrow> string" where
  "padString s n = take n s @ replicate (n - length s) (char_of (0 :: nat))"

definition trim_nul :: "string \<Rightarrow> string" where
  "trim_nul s = rev (dropWhile (\<lambda>c. c = char_of (0 :: nat)) (rev s))"

definition put8 :: "8 word \<Rightarrow> char" where "put8 w = char_of (unat w)"
definition get8 :: "char \<Rightarrow> 8 word" where "get8 c = of_nat (of_char c)"
definition put16 :: "16 word \<Rightarrow> string" where "put16 w = PutBE 2 (unat w)"
definition put64 :: "64 word \<Rightarrow> string" where "put64 w = PutBE 8 (unat w)"

definition gossip_bytes :: "GossipEntry \<Rightarrow> string" where
  "gossip_bytes g =
     padString (ge_NodeID g) 40 @ padString (ge_IP g) 16 @ put16 (ge_Port g) @ put16 (ge_BusPort g) @
     put16 (ge_Flags g) @ PutBE 8 (uint64_of (ge_PingSent g)) @ PutBE 8 (uint64_of (ge_PongRecv g))"

definition header_bytes :: "BusPacket \<Rightarrow> string" where
  "header_bytes p =
     BusMagic @ [put8 (bp_Type p)] @ [char_of (0 :: nat)] @ put64 (bp_Epoch p) @
     padString (bp_SenderID p) 40 @ padString (bp_SenderIP p) 16 @
     put16 (bp_Port p) @ put16 (bp_BusPort p) @ put16 (bp_Flags p) @ map put8 (bp_Slots p) @
     padString (bp_TargetNodeID p) 40 @ put64 (bp_ReqEpoch p) @ put16 (of_nat (length (bp_Gossip p)))"

definition WritePacket :: "BusPacket \<Rightarrow> string" where
  "WritePacket p = header_bytes p @ concat (map gossip_bytes (bp_Gossip p))"

datatype bus_error = BusRead read_error | BusBadMagic

definition byte_slice :: "nat \<Rightarrow> nat \<Rightarrow> string \<Rightarrow> string" where
  "byte_slice a b s = take (b - a) (drop a s)"

definition gossip_at :: "string \<Rightarrow> nat \<Rightarrow> GossipEntry" where
  "gossip_at buf off =
     \<lparr>ge_NodeID = trim_nul (byte_slice off (off + 40) buf),
      ge_IP = trim_nul (byte_slice (off + 40) (off + 56) buf),
      ge_Port = of_nat (BE (byte_slice (off + 56) (off + 58) buf)),
      ge_BusPort = of_nat (BE (byte_slice (off + 58) (off + 60) buf)),
      ge_Flags = of_nat (BE (byte_slice (off + 60) (off + 62) buf)),
      ge_PingSent = int64_of (BE (byte_slice (off + 62) (off + 70) buf)),
      ge_PongRecv = int64_of (BE (byte_slice (off + 70) (off + 78) buf))\<rparr>"

definition packet_at :: "string \<Rightarrow> GossipEntry list \<Rightarrow> BusPacket" where
  "packet_at hdr gossip =
     \<lparr>bp_Type = get8 (hdr ! 4),
      bp_Epoch = of_nat (BE (byte_slice 6 14 hdr)),
      bp_SenderID = trim_nul (byte_slice 14 54 hdr),
      bp_SenderIP = trim_nul (byte_slice 54 70 hdr),
      bp_Port = of_nat (BE (byte_slice 70 72 hdr)),
      bp_BusPort = of_nat (BE (byte_slice 72 74 hdr)),
      bp_Flags = of_nat (BE (byte_slice 74 76 hdr)),
      bp_Slots = map get8 (byte_slice 76 2124 hdr),
      bp_Gossip = gossip,
      bp_TargetNodeID = trim_nul (byte_slice 2124 2164 hdr),
      bp_ReqEpoch = of_nat (BE (byte_slice 2164 2172 hdr))\<rparr>"

definition ReadPacket :: "string \<Rightarrow> bus_error + (BusPacket \<times> string)" where
  "ReadPacket r =
     (case read_full 2174 r of
        Inl e \<Rightarrow> Inl (BusRead e)
      | Inr (hdr, r) \<Rightarrow>
          if take 4 hdr \<noteq> BusMagic then Inl BusBadMagic
          else
            let gossipCount = BE (byte_slice 2172 2174 hdr) in
            if gossipCount > 0 then
              (case read_full (gossipCount * 78) r of
                 Inl e \<Rightarrow> Inl (BusRead e)
               | Inr (buf, r) \<Rightarrow> Inr (packet_at hdr (map (\<lambda>i. gossip_at buf (i * 78)) [0..<gossipCount]), r))
            else Inr (packet_at hdr [], r))"

section \<open>Proofs\<close>

subsection \<open>The bitmap\<close>

lemma bitmap_prefix:
  "n \<le> 16384 \<Longrightarrow>
   let bm = fold (\<lambda>i bm. if slots i then bm[i div 8 := (bm ! (i div 8)) OR push_bit (i mod 8) 1] else bm)
              [0..<n] (replicate 2048 (0 :: 8 word))
   in length bm = 2048 \<and> (\<forall>j<2048. \<forall>k<8. bit (bm ! j) k \<longleftrightarrow> 8 * j + k < n \<and> slots (8 * j + k))"
proof (induction n)
  case (Suc n)
  define bm where "bm = fold (\<lambda>i bm. if slots i then bm[i div 8 := (bm ! (i div 8)) OR push_bit (i mod 8) 1] else bm)
              [0..<n] (replicate 2048 (0 :: 8 word))"
  have IH: "length bm = 2048" "\<And>j k. j < 2048 \<Longrightarrow> k < 8 \<Longrightarrow> bit (bm ! j) k \<longleftrightarrow> 8 * j + k < n \<and> slots (8 * j + k)"
    using Suc by (simp_all add: bm_def Let_def)
  have n: "n div 8 < 2048" using Suc.prems by simp
  have one: "bit (2 ^ (n mod 8) :: 8 word) k \<longleftrightarrow> k = n mod 8" if "k < 8" for k
    using that by (auto simp: bit_exp_iff)
  have eq: "8 * j + k = n \<longleftrightarrow> j = n div 8 \<and> k = n mod 8" if "k < 8" for j k using that by auto
  have "bit ((if slots n then bm[n div 8 := (bm ! (n div 8)) OR 2 ^ (n mod 8)] else bm) ! j) k \<longleftrightarrow>
      8 * j + k < Suc n \<and> slots (8 * j + k)" if "j < 2048" "k < 8" for j k
    using that n eq [OF that(2), of j]
    by (auto simp: IH nth_list_update bit_or_iff one less_Suc_eq)
  then show ?case using IH(1) by (cases "slots n") (simp_all add: Let_def flip: bm_def)
qed (simp add: Let_def)

lemma SlotsToBitmap_bits:
  "length (SlotsToBitmap slots) = 2048"
  "j < 2048 \<Longrightarrow> k < 8 \<Longrightarrow> bit (SlotsToBitmap slots ! j) k \<longleftrightarrow> slots (8 * j + k)"
  using bitmap_prefix [of 16384 slots] by (auto simp: SlotsToBitmap_def Let_def)

lemma and_bit_iff: "(w :: 8 word) AND 2 ^ k \<noteq> 0 \<longleftrightarrow> bit w k"
  by (simp add: and_exp_eq_0_iff_not_bit)

lemma Bitmap_roundtrip: "i < 16384 \<Longrightarrow> BitmapToSlots (SlotsToBitmap slots) i = slots i"
  using SlotsToBitmap_bits(2) [of "i div 8" "i mod 8" slots] less_mult_imp_div_less [of i 2048 8]
  by (simp add: BitmapToSlots_def and_bit_iff)

subsection \<open>Packets\<close>

definition text_ok :: "nat \<Rightarrow> string \<Rightarrow> bool" where
  "text_ok n s \<longleftrightarrow> length s \<le> n \<and> (s = [] \<or> last s \<noteq> char_of (0 :: nat))"

definition gossip_ok :: "GossipEntry \<Rightarrow> bool" where
  "gossip_ok g \<longleftrightarrow> text_ok 40 (ge_NodeID g) \<and> text_ok 16 (ge_IP g) \<and> in_int64 (ge_PingSent g) \<and> in_int64 (ge_PongRecv g)"

definition packet_ok :: "BusPacket \<Rightarrow> bool" where
  "packet_ok p \<longleftrightarrow> text_ok 40 (bp_SenderID p) \<and> text_ok 16 (bp_SenderIP p) \<and> text_ok 40 (bp_TargetNodeID p) \<and>
     length (bp_Slots p) = 2048 \<and> length (bp_Gossip p) < 65536 \<and> list_all gossip_ok (bp_Gossip p)"

lemma length_padString [simp]: "length (padString s n) = n"
  by (simp add: padString_def)

lemma trim_padString: "text_ok n s \<Longrightarrow> trim_nul (padString s n) = s"
proof -
  have d: "dropWhile (\<lambda>c. c = z) (replicate k z @ xs) = dropWhile (\<lambda>c. c = z) xs" for z :: char and k xs
    by (induction k) auto
  assume "text_ok n s"
  then show ?thesis
    by (cases s rule: rev_cases) (auto simp: text_ok_def trim_nul_def padString_def d)
qed

lemma put_simps [simp]: "length (put16 w) = 2" "length (put64 v) = 8"
  "of_nat (BE (put16 w)) = w" "of_nat (BE (put64 v)) = v" "get8 (put8 b) = b"
proof -
  show "of_nat (BE (put16 w)) = w" unfolding put16_def using unsigned_less [of w] by (subst BE_PutBE) simp_all
  show "of_nat (BE (put64 v)) = v" unfolding put64_def using unsigned_less [of v] by (subst BE_PutBE) simp_all
  have "unat b < 256" using unsigned_less [of b] by simp
  then show "get8 (put8 b) = b" unfolding put8_def get8_def by (simp add: take_bit_eq_mod)
qed (simp_all add: put16_def put64_def)

lemma slice_skip: "length x \<le> a \<Longrightarrow> byte_slice a b (x @ y) = byte_slice (a - length x) (b - length x) y"
  by (simp add: byte_slice_def)

lemma slice_here: "length x = b \<Longrightarrow> byte_slice 0 b (x @ y) = x" "length x = b \<Longrightarrow> byte_slice 0 b x = x"
  by (simp_all add: byte_slice_def)

lemma length_gossip_bytes [simp]: "length (gossip_bytes g) = 78"
  by (simp add: gossip_bytes_def)

lemma length_header_bytes: "length (bp_Slots p) = 2048 \<Longrightarrow> length (header_bytes p) = 2174"
  by (simp add: header_bytes_def BusMagic_def)

lemma gossip_at_bytes:
  assumes "gossip_ok g" and "length pre = off"
  shows "gossip_at (pre @ gossip_bytes g @ post) off = g"
proof -
  have u: "BE (PutBE 8 (uint64_of i)) = uint64_of i" for i
    using uint64_of_less [of i] by (intro BE_PutBE) simp
  show ?thesis
    using assms unfolding gossip_at_def gossip_bytes_def gossip_ok_def append_assoc
    by (intro GossipEntry.equality) (simp_all add: slice_skip slice_here trim_padString u int64_of_uint64_of)
qed

lemma gossip_list_at:
  assumes "list_all gossip_ok gs"
  shows "map (\<lambda>i. gossip_at (concat (map gossip_bytes gs)) (i * 78)) [0..<length gs] = gs"
proof (rule nth_equalityI)
  fix i assume "i < length (map (\<lambda>i. gossip_at (concat (map gossip_bytes gs)) (i * 78)) [0..<length gs])"
  then have i: "i < length gs" by simp
  have l: "length (concat (map gossip_bytes xs)) = length xs * 78" for xs by (induction xs) auto
  have "gs = take i gs @ gs ! i # drop (Suc i) gs" using i by (simp add: Cons_nth_drop_Suc)
  then have "concat (map gossip_bytes gs) =
      concat (map gossip_bytes (take i gs)) @ gossip_bytes (gs ! i) @ concat (map gossip_bytes (drop (Suc i) gs))"
    by (metis concat.simps(2) concat_append list.simps(9) map_append)
  moreover have "gossip_ok (gs ! i)" using assms i by (simp add: list_all_length)
  ultimately show "map (\<lambda>i. gossip_at (concat (map gossip_bytes gs)) (i * 78)) [0..<length gs] ! i = gs ! i"
    using i gossip_at_bytes [of "gs ! i" "concat (map gossip_bytes (take i gs))" "i * 78"] by (simp add: l)
qed simp

lemma packet_at_bytes:
  assumes "packet_ok p"
  shows "packet_at (header_bytes p) (bp_Gossip p) = p" and "take 4 (header_bytes p) = BusMagic"
    and "BE (byte_slice 2172 2174 (header_bytes p)) = length (bp_Gossip p)"
proof -
  have m: "length BusMagic = 4" by (simp add: BusMagic_def)
  have l: "length (bp_Slots p) = 2048" "length (bp_Gossip p) < 65536" using assms by (simp_all add: packet_ok_def)
  have z: "0 < a \<Longrightarrow> byte_slice a b (c # s) = byte_slice (a - 1) (b - 1) s" for a b c s
    by (cases a) (simp_all add: byte_slice_def)
  show "packet_at (header_bytes p) (bp_Gossip p) = p"
    using assms unfolding packet_at_def header_bytes_def packet_ok_def
    by (intro BusPacket.equality) (simp_all add: slice_skip slice_here z m l nth_append trim_padString o_def)
  show "take 4 (header_bytes p) = BusMagic" by (simp add: header_bytes_def m)
  have "BE (put16 (of_nat (length (bp_Gossip p)))) = length (bp_Gossip p)"
    unfolding put16_def using l by (subst BE_PutBE) (simp_all add: unat_of_nat)
  then show "BE (byte_slice 2172 2174 (header_bytes p)) = length (bp_Gossip p)"
    unfolding header_bytes_def by (simp add: slice_skip slice_here z m l)
qed

lemma ReadPacket_prefix:
  assumes p: "packet_ok p" and k: "k < length (WritePacket p)"
  shows "\<exists>e. ReadPacket (take k (WritePacket p)) = Inl e"
proof (cases "k < 2174")
  case True
  then have "length (take k (WritePacket p)) < 2174" by simp
  then show ?thesis using read_full_short [of "take k (WritePacket p)" 2174] by (auto simp: ReadPacket_def)
next
  case False
  have l: "length (header_bytes p) = 2174" using p by (simp add: length_header_bytes packet_ok_def)
  let ?g = "concat (map gossip_bytes (bp_Gossip p))"
  have g: "length ?g = length (bp_Gossip p) * 78" by (simp add: length_concat o_def sum_list_triv)
  have t: "take k (WritePacket p) = header_bytes p @ take (k - 2174) ?g" using False by (simp add: WritePacket_def l)
  have s: "k - 2174 < length (bp_Gossip p) * 78" using k False by (simp add: WritePacket_def l g)
  then obtain e where "read_full (length (bp_Gossip p) * 78) (take (k - 2174) ?g) = Inl e"
    using read_full_short [of "take (k - 2174) ?g" "length (bp_Gossip p) * 78"] by (auto simp: g)
  then show ?thesis
    using s unfolding t ReadPacket_def by (cases "bp_Gossip p = []") (auto simp: l Let_def packet_at_bytes [OF p])
qed

lemma ReadPacket_written:
  assumes "packet_ok p"
  shows "ReadPacket (WritePacket p @ rest) = Inr (p, rest)"
proof -
  have l: "length (header_bytes p) = 2174" using assms by (simp add: length_header_bytes packet_ok_def)
  have g: "length (concat (map gossip_bytes (bp_Gossip p))) = length (bp_Gossip p) * 78"
    by (simp add: length_concat o_def sum_list_triv)
  have "list_all gossip_ok (bp_Gossip p)" using assms by (simp add: packet_ok_def)
  then show ?thesis
    unfolding ReadPacket_def WritePacket_def append_assoc
    by (cases "bp_Gossip p = []") (use packet_at_bytes [OF assms(1)] in \<open>simp_all add: l g gossip_list_at Let_def\<close>)
qed

text \<open>
  Property C28: a packet written to the bus is read back exactly, whatever follows it, and the slot
  bitmap in it gives back every slot; a packet cut short anywhere is refused. The packet has its
  strings within their fields and without a trailing zero byte, a bitmap of 2048 bytes, fewer than
  65536 gossip entries and times of 64 bits.
\<close>

theorem ReadPacket_WritePacket:
  assumes "packet_ok p" and "k < length (WritePacket p)" and "i < 16384"
  shows "ReadPacket (WritePacket p @ rest) = Inr (p, rest)
    \<and> (\<exists>e. ReadPacket (take k (WritePacket p)) = Inl e)
    \<and> BitmapToSlots (SlotsToBitmap slots) i = slots i"
  using assms ReadPacket_written ReadPacket_prefix Bitmap_roundtrip by blast

theorem ReadPacket_WritePacket_witness:
  "let p = \<lparr>bp_Type = TypePing, bp_Epoch = 7, bp_SenderID = ''n1'', bp_SenderIP = ''10.0.0.1'', bp_Port = 7379,
            bp_BusPort = 17379, bp_Flags = FlagMaster, bp_Slots = SlotsToBitmap (\<lambda>i. i < 5461),
            bp_Gossip = [\<lparr>ge_NodeID = ''n2'', ge_IP = ''10.0.0.2'', ge_Port = 7379, ge_BusPort = 17379,
                          ge_Flags = FlagSlave, ge_PingSent = 0, ge_PongRecv = 5\<rparr>],
            bp_TargetNodeID = [], bp_ReqEpoch = 0\<rparr>
   in ReadPacket (WritePacket p @ ''x'') = Inr (p, ''x'') \<and> (\<exists>e. ReadPacket (take 2200 (WritePacket p)) = Inl e)
      \<and> BitmapToSlots (SlotsToBitmap (\<lambda>i. i < 5461)) 12"
proof -
  define p where "p = \<lparr>bp_Type = TypePing, bp_Epoch = 7, bp_SenderID = ''n1'', bp_SenderIP = ''10.0.0.1'', bp_Port = 7379,
            bp_BusPort = 17379, bp_Flags = FlagMaster, bp_Slots = SlotsToBitmap (\<lambda>i. i < 5461),
            bp_Gossip = [\<lparr>ge_NodeID = ''n2'', ge_IP = ''10.0.0.2'', ge_Port = 7379, ge_BusPort = 17379,
                          ge_Flags = FlagSlave, ge_PingSent = 0, ge_PongRecv = 5\<rparr>],
            bp_TargetNodeID = [], bp_ReqEpoch = 0\<rparr>"
  have "packet_ok p"
    by (simp add: p_def packet_ok_def text_ok_def gossip_ok_def in_int64_def SlotsToBitmap_bits char_of_def)
  moreover have "length (WritePacket p) = 2252"
    by (simp add: WritePacket_def length_header_bytes SlotsToBitmap_bits p_def)
  ultimately show ?thesis
    using ReadPacket_WritePacket [of p 2200 12 "''x''" "\<lambda>i. i < 5461"] by (simp add: Let_def flip: p_def)
qed

end
