(* ===== verification/Cluster_State.thy ===== *)
theory Cluster_State
  imports Cluster_Bus
begin

text \<open>
  The cluster manager (src/internal/cluster/cluster.go, and \<open>NewNode\<close> and \<open>FormatNodeLine\<close> of node.go). Node
  descriptors live at addresses, since the manager reaches one descriptor through \<open>Self\<close>, through the map
  of nodes and through the slot map, and compares both addresses and identifiers. The contents of the
  configuration file are part of the state; the write to it is taken to succeed. Readings of the
  clock and generated identifiers are arguments.

  The lemmas show that the slot map and the slot sets of the known nodes always agree, and what
  the configuration file gives back at a restart.
\<close>

section \<open>Definitions\<close>

subsection \<open>Nodes\<close>

definition NewNode :: "string \<Rightarrow> int \<Rightarrow> string \<Rightarrow> string \<Rightarrow> int \<Rightarrow> int \<Rightarrow> string \<Rightarrow> ClusterNode" where
  "NewNode gen now ident ip port busPort role =
     \<lparr>cn_ID = (if ident = [] then gen else ident),
      cn_IP = (if ip = [] then ''127.0.0.1'' else ip),
      cn_Port = port,
      cn_BusPort = (if busPort \<le> 0 then wrap64 (port + 10000) else busPort),
      cn_Role = (if role = [] then ''master'' else role),
      cn_MasterID = ''-'', cn_Slots = (\<lambda>_. False), cn_Epoch = 1, cn_LinkState = ''connected'',
      cn_PingSent = 0, cn_PongRecv = now, cn_PFail = False, cn_Fail = False\<rparr>"

definition node_flags :: "bool \<Rightarrow> ClusterNode \<Rightarrow> string list" where
  "node_flags isMyself n =
     (if isMyself then [''myself''] else []) @ [cn_Role n] @
     (if cn_Fail n then [''fail''] else if cn_PFail n then [''fail?''] else [])"

definition FormatNodeLine :: "bool \<Rightarrow> ClusterNode \<Rightarrow> string" where
  "FormatNodeLine isMyself n =
     (let masterID = (if cn_MasterID n = [] then ''-'' else cn_MasterID n);
          slotStr = (if cn_Role n = ''master'' then SlotRangesString n else []);
          line = Join [cn_ID n,
                       cn_IP n @ '':'' @ FormatInt (cn_Port n) @ ''@'' @ FormatInt (cn_BusPort n),
                       Join (node_flags isMyself n) '','',
                       masterID,
                       FormatInt (cn_PingSent n),
                       FormatInt (cn_PongRecv n),
                       FormatUint (cn_Epoch n),
                       cn_LinkState n] '' ''
      in if slotStr \<noteq> [] then line @ '' '' @ slotStr else line)"

subsection \<open>The manager\<close>

record ClusterManager =
  cm_Heap :: "nat \<Rightarrow> ClusterNode"
  cm_Next :: nat
  cm_Self :: nat
  cm_Nodes :: "(string, nat) gomap"
  cm_SlotMap :: "nat \<Rightarrow> nat option"
  cm_ConfigFile :: string
  cm_Config :: "string option"
  cm_CurrentEpoch :: "64 word"
  cm_LastVoteEpoch :: "64 word"
  cm_MigratingSlots :: "(nat, string) gomap"
  cm_ImportingSlots :: "(nat, string) gomap"
  cm_NodeTimeout :: int
  cm_failReports :: "(string, (string, int) gomap) gomap"

abbreviation node :: "ClusterManager \<Rightarrow> nat \<Rightarrow> ClusterNode" where
  "node cm a \<equiv> cm_Heap cm a"

abbreviation self :: "ClusterManager \<Rightarrow> ClusterNode" where
  "self cm \<equiv> node cm (cm_Self cm)"

abbreviation self_id :: "ClusterManager \<Rightarrow> string" where
  "self_id cm \<equiv> cn_ID (self cm)"

definition upd_node :: "nat \<Rightarrow> (ClusterNode \<Rightarrow> ClusterNode) \<Rightarrow> ClusterManager \<Rightarrow> ClusterManager" where
  "upd_node a f cm = cm\<lparr>cm_Heap := (cm_Heap cm)(a := f (node cm a))\<rparr>"

definition put_slot :: "nat \<Rightarrow> nat \<Rightarrow> bool \<Rightarrow> ClusterManager \<Rightarrow> ClusterManager" where
  "put_slot a s b = upd_node a (\<lambda>n. n\<lparr>cn_Slots := (cn_Slots n)(s := b)\<rparr>)"

definition put_owner :: "nat \<Rightarrow> nat option \<Rightarrow> ClusterManager \<Rightarrow> ClusterManager" where
  "put_owner s a cm = cm\<lparr>cm_SlotMap := (cm_SlotMap cm)(s := a)\<rparr>"

text \<open>A new descriptor, and its entry in the map of nodes.\<close>

definition add_node :: "string \<Rightarrow> ClusterNode \<Rightarrow> ClusterManager \<Rightarrow> nat \<times> ClusterManager" where
  "add_node key n cm =
     (cm_Next cm,
      cm\<lparr>cm_Heap := (cm_Heap cm)(cm_Next cm := n), cm_Next := Suc (cm_Next cm),
         cm_Nodes := gput key (cm_Next cm) (cm_Nodes cm)\<rparr>)"

definition peer_ids :: "ClusterManager \<Rightarrow> string list" where
  "peer_ids cm = sort (filter (\<lambda>i. i \<noteq> self_id cm) (gkeys (cm_Nodes cm)))"

definition node_by_id :: "ClusterManager \<Rightarrow> string \<Rightarrow> ClusterNode" where
  "node_by_id cm i = node cm (the (gget (cm_Nodes cm) i))"

definition config_lines :: "ClusterManager \<Rightarrow> string list" where
  "config_lines cm =
     FormatNodeLine True (self cm) # map (\<lambda>i. FormatNodeLine False (node_by_id cm i)) (peer_ids cm)"

definition saveConfigLocked :: "ClusterManager \<Rightarrow> ClusterManager" where
  "saveConfigLocked cm =
     (if cm_ConfigFile cm = [] then cm
      else cm\<lparr>cm_Config := Some (concat (map (\<lambda>l. l @ [CHR 0x0A]) (config_lines cm)) @
                ''vars currentEpoch '' @ FormatUint (unat (cm_CurrentEpoch cm)) @ '' lastVoteEpoch 0'' @ [CHR 0x0A])\<rparr>)"

definition FormatNodes :: "ClusterManager \<Rightarrow> string" where
  "FormatNodes cm = Join (config_lines cm) [CHR 0x0A] @ [CHR 0x0A]"

definition GetSlotOwner :: "nat \<Rightarrow> ClusterManager \<Rightarrow> nat option" where
  "GetSlotOwner slot cm = (if slot \<ge> NumSlots then None else cm_SlotMap cm slot)"

subsection \<open>Slot ownership\<close>

definition slot_range_err :: "nat \<Rightarrow> string" where
  "slot_range_err s = ''ERR slot out of range: '' @ Itoa s"

definition not_owned_err :: "nat \<Rightarrow> string" where
  "not_owned_err s = ''ERR slot '' @ Itoa s @ '' is not owned by this node''"

definition unknown_node_err :: "string \<Rightarrow> string" where
  "unknown_node_err i = ''ERR unknown node '' @ i"

definition dont_know_err :: "string \<Rightarrow> string" where
  "dont_know_err i = ''ERR I don'' @ [CHR 0x27] @ ''t know about node '' @ i"

fun check_add :: "ClusterManager \<Rightarrow> nat list \<Rightarrow> string option" where
  "check_add cm [] = None"
| "check_add cm (s # ss) =
     (if s \<ge> NumSlots then Some (slot_range_err s)
      else case cm_SlotMap cm s of
        Some a \<Rightarrow>
          if cn_ID (node cm a) \<noteq> self_id cm
          then Some (''ERR slot '' @ Itoa s @ '' is already busy by node '' @ cn_ID (node cm a))
          else check_add cm ss
      | None \<Rightarrow> check_add cm ss)"

definition AddSlots :: "nat list \<Rightarrow> ClusterManager \<Rightarrow> string option \<times> ClusterManager" where
  "AddSlots slots cm =
     (case check_add cm slots of
        Some e \<Rightarrow> (Some e, cm)
      | None \<Rightarrow>
          (None, saveConfigLocked
             (fold (\<lambda>s cm. put_owner s (Some (cm_Self cm)) (put_slot (cm_Self cm) s True cm)) slots cm)))"

text \<open>Give slot \<open>s\<close> to the node at \<open>a\<close>, taking it from its owner.\<close>

definition take_slot :: "nat \<Rightarrow> nat \<Rightarrow> ClusterManager \<Rightarrow> ClusterManager" where
  "take_slot a s cm =
     (let cm = (case cm_SlotMap cm s of
                  Some b \<Rightarrow> if cn_ID (node cm b) \<noteq> cn_ID (node cm a) then put_slot b s False cm else cm
                | None \<Rightarrow> cm)
      in put_owner s (Some a) (put_slot a s True cm))"

fun assign_loop :: "nat \<Rightarrow> nat list \<Rightarrow> ClusterManager \<Rightarrow> string option \<times> ClusterManager" where
  "assign_loop a [] cm = (None, saveConfigLocked cm)"
| "assign_loop a (s # ss) cm =
     (if s \<ge> NumSlots then (Some (slot_range_err s), cm) else assign_loop a ss (take_slot a s cm))"

definition AssignSlotsToNode :: "string \<Rightarrow> nat list \<Rightarrow> ClusterManager \<Rightarrow> string option \<times> ClusterManager" where
  "AssignSlotsToNode nodeID slots cm =
     (case gget (cm_Nodes cm) nodeID of
        None \<Rightarrow> (Some (unknown_node_err nodeID), cm)
      | Some a \<Rightarrow> assign_loop a slots cm)"

definition owned_by_self :: "ClusterManager \<Rightarrow> nat \<Rightarrow> bool" where
  "owned_by_self cm s =
     (case cm_SlotMap cm s of None \<Rightarrow> False | Some a \<Rightarrow> cn_ID (node cm a) = self_id cm)"

fun check_del :: "ClusterManager \<Rightarrow> nat list \<Rightarrow> string option" where
  "check_del cm [] = None"
| "check_del cm (s # ss) =
     (if s \<ge> NumSlots then Some (slot_range_err s)
      else if \<not> owned_by_self cm s then Some (not_owned_err s)
      else check_del cm ss)"

definition DelSlots :: "nat list \<Rightarrow> ClusterManager \<Rightarrow> string option \<times> ClusterManager" where
  "DelSlots slots cm =
     (case check_del cm slots of
        Some e \<Rightarrow> (Some e, cm)
      | None \<Rightarrow> (None, saveConfigLocked (fold (\<lambda>s cm. put_owner s None (put_slot (cm_Self cm) s False cm)) slots cm)))"

definition SetSlot :: "nat \<Rightarrow> string \<Rightarrow> string \<Rightarrow> ClusterManager \<Rightarrow> string option \<times> ClusterManager" where
  "SetSlot slot subcommand targetNodeID cm =
     (if slot \<ge> NumSlots then (Some (slot_range_err slot), cm)
      else
        let sub = ToUpper subcommand in
        if sub = ''NODE'' then
          (case gget (cm_Nodes cm) targetNodeID of
             None \<Rightarrow> (Some (dont_know_err targetNodeID), cm)
           | Some a \<Rightarrow>
               (let cm = take_slot a slot cm
                in (None, saveConfigLocked
                     (cm\<lparr>cm_MigratingSlots := gdel slot (cm_MigratingSlots cm),
                         cm_ImportingSlots := gdel slot (cm_ImportingSlots cm)\<rparr>))))
        else if sub = ''MIGRATING'' then
          (if \<not> owned_by_self cm slot then (Some (not_owned_err slot), cm)
           else if gget (cm_Nodes cm) targetNodeID = None then (Some (dont_know_err targetNodeID), cm)
           else (None, cm\<lparr>cm_MigratingSlots := gput slot targetNodeID (cm_MigratingSlots cm)\<rparr>))
        else if sub = ''IMPORTING'' then
          (if gget (cm_Nodes cm) targetNodeID = None then (Some (dont_know_err targetNodeID), cm)
           else (None, cm\<lparr>cm_ImportingSlots := gput slot targetNodeID (cm_ImportingSlots cm)\<rparr>))
        else if sub = ''STABLE'' then
          (None, cm\<lparr>cm_MigratingSlots := gdel slot (cm_MigratingSlots cm),
                     cm_ImportingSlots := gdel slot (cm_ImportingSlots cm)\<rparr>)
        else (Some ''ERR Invalid CLUSTER SETSLOT action or number of arguments'', cm))"

subsection \<open>Membership\<close>

definition AddNode :: "ClusterNode \<Rightarrow> ClusterManager \<Rightarrow> ClusterManager" where
  "AddNode n cm =
     (case add_node (cn_ID n) n cm of
        (a, cm) \<Rightarrow>
          saveConfigLocked
            (if cn_Role n = ''master''
             then fold (\<lambda>i cm. if cn_Slots n i then put_owner i (Some a) cm else cm) [0..<NumSlots] cm
             else cm))"

definition release_owner :: "nat \<Rightarrow> nat \<Rightarrow> ClusterManager \<Rightarrow> ClusterManager" where
  "release_owner a i cm =
     (if cn_Slots (node cm a) i \<and> cm_SlotMap cm i = Some a then put_owner i None cm else cm)"

definition RemoveNode :: "string \<Rightarrow> ClusterManager \<Rightarrow> string option \<times> ClusterManager" where
  "RemoveNode nodeID cm =
     (if nodeID = self_id cm then (Some ''ERR cannot remove self node from cluster'', cm)
      else case gget (cm_Nodes cm) nodeID of
        None \<Rightarrow> (Some (unknown_node_err nodeID), cm)
      | Some a \<Rightarrow>
          (let cm = fold (release_owner a) [0..<NumSlots] cm
           in (None, saveConfigLocked (cm\<lparr>cm_Nodes := gdel nodeID (cm_Nodes cm)\<rparr>))))"

definition release_self :: "nat \<Rightarrow> ClusterManager \<Rightarrow> ClusterManager" where
  "release_self i cm =
     (if cn_Slots (self cm) i then
        let cm = put_slot (cm_Self cm) i False cm
        in if cm_SlotMap cm i = Some (cm_Self cm) then put_owner i None cm else cm
      else cm)"

definition Replicate :: "string \<Rightarrow> ClusterManager \<Rightarrow> string option \<times> ClusterManager" where
  "Replicate masterID cm =
     (if masterID = self_id cm then (Some ''ERR cannot replicate self'', cm)
      else case gget (cm_Nodes cm) masterID of
        None \<Rightarrow> (Some (unknown_node_err masterID), cm)
      | Some a \<Rightarrow>
          if cn_Role (node cm a) \<noteq> ''master'' then (Some ''ERR target node is not a master'', cm)
          else
            let cm = fold release_self [0..<NumSlots] cm
            in (None, saveConfigLocked
                 (upd_node (cm_Self cm) (\<lambda>n. n\<lparr>cn_Role := ''slave'', cn_MasterID := masterID\<rparr>) cm)))"

subsection \<open>The text form\<close>

fun Contains :: "string \<Rightarrow> string \<Rightarrow> bool" where
  "Contains [] sub \<longleftrightarrow> sub = []"
| "Contains (c # s) sub \<longleftrightarrow> HasPrefix (c # s) sub \<or> Contains s sub"

definition LastIndexByte :: "string \<Rightarrow> char \<Rightarrow> nat option" where
  "LastIndexByte s b = map_option (\<lambda>i. length s - 1 - i) (IndexByte (rev s) b)"

text \<open>The value \<open>strconv.ParseUint\<close> returns beside its error.\<close>

definition parse_epoch :: "string \<Rightarrow> nat" where
  "parse_epoch s =
     (case ParseUint s of
        Some n \<Rightarrow> n
      | None \<Rightarrow> if s \<noteq> [] \<and> list_all is_digit s then 2 ^ 64 - 1 else 0)"

fun parse_vars :: "string list \<Rightarrow> ClusterManager \<Rightarrow> ClusterManager" where
  "parse_vars (k # v # parts) cm =
     parse_vars parts
       (if k = ''currentEpoch'' then
          (case ParseUint v of Some ep \<Rightarrow> cm\<lparr>cm_CurrentEpoch := of_nat ep\<rparr> | None \<Rightarrow> cm)
        else cm)"
| "parse_vars _ cm = cm"

text \<open>\<open>ip:port@cport\<close>, with the defaults of the source.\<close>

definition parse_addr :: "string \<Rightarrow> string \<times> int \<times> int" where
  "parse_addr addr =
     (let (addr, busPort) =
            (case IndexByte addr CHR ''@'' of
               None \<Rightarrow> (addr, 17379)
             | Some i \<Rightarrow> (take i addr, case Atoi (drop (i + 1) addr) of Some bp \<Rightarrow> bp | None \<Rightarrow> 17379));
          (ip, port) =
            (case LastIndexByte addr CHR '':'' of
               None \<Rightarrow> (''127.0.0.1'', 7379)
             | Some i \<Rightarrow> (take i addr, case Atoi (drop (i + 1) addr) of Some p \<Rightarrow> p | None \<Rightarrow> 7379))
      in (ip, port, busPort))"

text \<open>The descriptor of a node named in a line, made when it is not known.\<close>

definition find_or_add :: "string \<Rightarrow> int \<Rightarrow> string \<Rightarrow> string \<times> int \<times> int \<Rightarrow> string \<Rightarrow> ClusterManager \<Rightarrow> nat \<times> ClusterManager" where
  "find_or_add gen now nodeID addr role cm =
     (case gget (cm_Nodes cm) nodeID of
        Some a \<Rightarrow> (a, cm)
      | None \<Rightarrow> (case addr of (ip, port, busPort) \<Rightarrow> add_node nodeID (NewNode gen now nodeID ip port busPort role) cm))"

definition merge_node ::
  "string \<Rightarrow> int \<Rightarrow> string \<Rightarrow> string \<times> int \<times> int \<Rightarrow> bool \<Rightarrow> string \<Rightarrow> string \<Rightarrow> nat \<Rightarrow> string \<Rightarrow> ClusterManager \<Rightarrow>
   nat \<times> ClusterManager" where
  "merge_node gen now nodeID addr isMyself role masterID epoch linkState cm =
     (if isMyself \<and> (self_id cm = [] \<or> self_id cm = nodeID) then
        (cm_Self cm,
         upd_node (cm_Self cm)
           (\<lambda>n. n\<lparr>cn_ID := nodeID, cn_IP := fst addr, cn_Port := fst (snd addr), cn_BusPort := snd (snd addr),
                 cn_Role := role, cn_MasterID := masterID, cn_Epoch := epoch, cn_LinkState := linkState\<rparr>) cm)
      else if \<not> isMyself \<and> nodeID = self_id cm then (cm_Self cm, cm)
      else
        (case find_or_add gen now nodeID addr role cm of
           (a, cm) \<Rightarrow>
             (a, upd_node a (\<lambda>n. n\<lparr>cn_MasterID := masterID, cn_Epoch := epoch, cn_LinkState := linkState\<rparr>) cm)))"

definition merge_slots :: "nat \<Rightarrow> nat list \<Rightarrow> ClusterManager \<Rightarrow> ClusterManager" where
  "merge_slots a slots cm = fold (\<lambda>s cm. put_owner s (Some a) (put_slot a s True cm)) slots cm"

definition merge_line :: "string \<Rightarrow> int \<Rightarrow> string \<Rightarrow> ClusterManager \<Rightarrow> ClusterManager" where
  "merge_line gen now line cm =
     (let line = TrimSpace line; parts = Fields line in
      if line = [] then cm
      else if HasPrefix line ''vars '' then parse_vars (tl parts) cm
      else if length parts < 8 then cm
      else
        let flags = parts ! 2;
            role = (if Contains flags ''slave'' then ''slave'' else ''master'');
            (a, cm) = merge_node gen now (parts ! 0) (parse_addr (parts ! 1)) (Contains flags ''myself'') role
                        (parts ! 3) (parse_epoch (parts ! 6)) (parts ! 7) cm
        in if length parts \<ge> 9 \<and> role = ''master'' then
             (case ParseSlotRanges (Join (drop 8 parts) '' '') of
                Inl _ \<Rightarrow> cm
              | Inr slots \<Rightarrow> merge_slots a slots cm)
           else cm)"

definition parseAndMergeNodesTextLocked :: "string \<Rightarrow> int \<Rightarrow> string \<Rightarrow> ClusterManager \<Rightarrow> ClusterManager" where
  "parseAndMergeNodesTextLocked gen now text cm = fold (merge_line gen now) (Split text CHR 0x0A) cm"

definition LoadConfig :: "string \<Rightarrow> int \<Rightarrow> ClusterManager \<Rightarrow> ClusterManager" where
  "LoadConfig gen now cm =
     (if cm_ConfigFile cm = [] then cm
      else case cm_Config cm of None \<Rightarrow> cm | Some text \<Rightarrow> parseAndMergeNodesTextLocked gen now text cm)"

text \<open>A manager at start-up: \<open>gen\<close> is the identifier generated for it, \<open>file\<close> the contents of its configuration file.\<close>

definition NewClusterManager ::
  "string \<Rightarrow> int \<Rightarrow> string \<Rightarrow> int \<Rightarrow> int \<Rightarrow> string \<Rightarrow> string option \<Rightarrow> ClusterManager" where
  "NewClusterManager gen now ip port busPort configFile file =
     (let ip = (if ip = [] then ''127.0.0.1'' else ip);
          port = (if port \<le> 0 then 7379 else port);
          busPort = (if busPort \<le> 0 then wrap64 (port + 10000) else busPort);
          configFile = (if configFile = [] then ''nodes.conf'' else configFile);
          n = NewNode gen now [] ip port busPort ''master''
      in LoadConfig gen now
           \<lparr>cm_Heap = (\<lambda>_. n), cm_Next = 1, cm_Self = 0, cm_Nodes = [(cn_ID n, 0)], cm_SlotMap = (\<lambda>_. None),
            cm_ConfigFile = configFile, cm_Config = file, cm_CurrentEpoch = 1, cm_LastVoteEpoch = 0,
            cm_MigratingSlots = [], cm_ImportingSlots = [], cm_NodeTimeout = 2000000000, cm_failReports = []\<rparr>)"

text \<open>\<open>Meet\<close> after the exchange with the peer, whose reply to CLUSTER NODES is \<open>peerNodesText\<close>.\<close>

definition Meet :: "string \<Rightarrow> int \<Rightarrow> string \<Rightarrow> string \<Rightarrow> int \<Rightarrow> int \<Rightarrow> ClusterManager \<Rightarrow> nat \<times> ClusterManager" where
  "Meet gen now peerNodesText peerIP peerPort peerBusPort cm =
     (let peerIP = (if peerIP = [] then ''127.0.0.1'' else peerIP);
          peerBusPort = (if peerBusPort \<le> 0 then wrap64 (peerPort + 10000) else peerBusPort);
          cm = (if peerNodesText \<noteq> [] then parseAndMergeNodesTextLocked gen now peerNodesText cm else cm)
      in case find (\<lambda>(_, a). cn_IP (node cm a) = peerIP \<and> cn_Port (node cm a) = peerPort) (cm_Nodes cm) of
           Some (_, a) \<Rightarrow> (a, saveConfigLocked cm)
         | None \<Rightarrow>
             (case add_node gen (NewNode gen now gen peerIP peerPort peerBusPort ''master'') cm of
                (a, cm) \<Rightarrow> (a, saveConfigLocked cm)))"

subsection \<open>Replies\<close>

text \<open>The blocks of CLUSTER SLOTS: runs of slots whose owners have one identifier.\<close>

fun block_loop :: "ClusterManager \<Rightarrow> (nat \<times> nat \<times> nat) option \<Rightarrow> nat list \<Rightarrow> (nat \<times> nat \<times> nat) list" where
  "block_loop cm cur [] = (case cur of None \<Rightarrow> [] | Some b \<Rightarrow> [b])"
| "block_loop cm cur (i # is) =
     (case cm_SlotMap cm i of
        None \<Rightarrow> (case cur of None \<Rightarrow> [] | Some b \<Rightarrow> [b]) @ block_loop cm None is
      | Some a \<Rightarrow>
          (case cur of
             None \<Rightarrow> block_loop cm (Some (i, i, a)) is
           | Some (st, en, m) \<Rightarrow>
               if cn_ID (node cm m) = cn_ID (node cm a) \<and> int en = int i - 1
               then block_loop cm (Some (st, i, m)) is
               else (st, en, m) # block_loop cm (Some (i, i, a)) is))"

definition node_info :: "ClusterNode \<Rightarrow> Value" where
  "node_info n = Array [BulkString (cn_IP n), Integer (cn_Port n), BulkString (cn_ID n)]"

definition replicas_of :: "ClusterManager \<Rightarrow> string \<Rightarrow> ClusterNode list" where
  "replicas_of cm masterID =
     filter (\<lambda>n. cn_Role n = ''slave'' \<and> cn_MasterID n \<noteq> [] \<and> cn_MasterID n \<noteq> ''-'' \<and> cn_MasterID n = masterID)
       (map (\<lambda>(_, a). node cm a) (cm_Nodes cm))"

definition FormatSlots :: "ClusterManager \<Rightarrow> Value" where
  "FormatSlots cm =
     Array (map (\<lambda>(st, en, m).
         Array ([Integer (int st), Integer (int en), node_info (node cm m)] @
                map node_info (replicas_of cm (cn_ID (node cm m)))))
       (block_loop cm None [0..<NumSlots]))"

definition FormatInfo :: "ClusterManager \<Rightarrow> string" where
  "FormatInfo cm =
     (let assigned = length (filter (\<lambda>i. cm_SlotMap cm i \<noteq> None) [0..<NumSlots]);
          masters = length (filter (\<lambda>(_, a). cn_Role (node cm a) = ''master'') (cm_Nodes cm));
          state = (if assigned = NumSlots then ''ok'' else if assigned > 0 then ''ok'' else ''fail'')
      in ''cluster_state:'' @ state @ CRLF @
         ''cluster_slots_assigned:'' @ Itoa assigned @ CRLF @
         ''cluster_slots_ok:'' @ Itoa assigned @ CRLF @
         ''cluster_slots_pfail:0'' @ CRLF @
         ''cluster_slots_fail:0'' @ CRLF @
         ''cluster_known_nodes:'' @ Itoa (length (cm_Nodes cm)) @ CRLF @
         ''cluster_size:'' @ Itoa masters @ CRLF @
         ''cluster_current_epoch:'' @ FormatUint (unat (cm_CurrentEpoch cm)) @ CRLF @
         ''cluster_my_epoch:'' @ FormatUint (cn_Epoch (self cm)) @ CRLF @
         ''cluster_stats_messages_ping_sent:'' @ FormatInt (cn_PingSent (self cm)) @ CRLF @
         ''cluster_stats_messages_pong_received:'' @ FormatInt (cn_PongRecv (self cm)) @ CRLF @
         ''cluster_stats_messages_sent:0'' @ CRLF @
         ''cluster_stats_messages_received:0'' @ CRLF)"

section \<open>Slot ownership\<close>

text \<open>
  The invariant: the map of nodes sends each identifier to a descriptor with it, \<open>Self\<close> is among them, and
  the owner of a slot is exactly the known node that has the slot in its set.
\<close>

definition nodes_ok :: "ClusterManager \<Rightarrow> bool" where
  "nodes_ok cm \<longleftrightarrow>
     (\<forall>i a. gget (cm_Nodes cm) i = Some a \<longrightarrow> a < cm_Next cm \<and> cn_ID (node cm a) = i) \<and>
     gget (cm_Nodes cm) (self_id cm) = Some (cm_Self cm)"

definition known :: "ClusterManager \<Rightarrow> nat \<Rightarrow> bool" where
  "known cm a \<longleftrightarrow> (\<exists>i. gget (cm_Nodes cm) i = Some a)"

definition agree :: "ClusterManager \<Rightarrow> nat \<Rightarrow> bool" where
  "agree cm s \<longleftrightarrow> (\<forall>a. cm_SlotMap cm s = Some a \<longleftrightarrow> known cm a \<and> cn_Slots (node cm a) s)"

definition cluster_ok :: "ClusterManager \<Rightarrow> bool" where
  "cluster_ok cm \<longleftrightarrow> nodes_ok cm \<and> (\<forall>s<NumSlots. agree cm s)"

lemma nodes_ok_known: "nodes_ok cm \<Longrightarrow> known cm a \<Longrightarrow> a < cm_Next cm \<and> gget (cm_Nodes cm) (cn_ID (node cm a)) = Some a"
  by (auto simp: nodes_ok_def known_def)

lemma known_same_id: "nodes_ok cm \<Longrightarrow> known cm a \<Longrightarrow> known cm b \<Longrightarrow> cn_ID (node cm a) = cn_ID (node cm b) \<Longrightarrow> a = b"
proof -
  assume "nodes_ok cm" "known cm a" "known cm b" "cn_ID (node cm a) = cn_ID (node cm b)"
  then show "a = b" using nodes_ok_known [of cm a] nodes_ok_known [of cm b] by (metis option.inject)
qed

lemma known_self: "nodes_ok cm \<Longrightarrow> known cm (cm_Self cm)"
  by (auto simp: nodes_ok_def known_def)

text \<open>Writing a slot of a node and its owner, and what they leave alone.\<close>

lemma node_simps [simp]:
  "node (put_slot a s b cm) x = (if x = a then (node cm a)\<lparr>cn_Slots := (cn_Slots (node cm a))(s := b)\<rparr> else node cm x)"
  "cm_Nodes (put_slot a s b cm) = cm_Nodes cm" "cm_Self (put_slot a s b cm) = cm_Self cm"
  "cm_Next (put_slot a s b cm) = cm_Next cm" "cm_SlotMap (put_slot a s b cm) = cm_SlotMap cm"
  "cm_Heap (put_owner s o' cm) = cm_Heap cm" "cm_Nodes (put_owner s o' cm) = cm_Nodes cm"
  "cm_Self (put_owner s o' cm) = cm_Self cm" "cm_Next (put_owner s o' cm) = cm_Next cm"
  "cm_SlotMap (put_owner s o' cm) = (cm_SlotMap cm)(s := o')"
  by (simp_all add: put_slot_def put_owner_def upd_node_def)

lemma saveConfig_simps [simp]:
  "cm_Heap (saveConfigLocked cm) = cm_Heap cm" "cm_Nodes (saveConfigLocked cm) = cm_Nodes cm"
  "cm_Self (saveConfigLocked cm) = cm_Self cm" "cm_Next (saveConfigLocked cm) = cm_Next cm"
  "cm_SlotMap (saveConfigLocked cm) = cm_SlotMap cm" "cm_CurrentEpoch (saveConfigLocked cm) = cm_CurrentEpoch cm"
  "cm_LastVoteEpoch (saveConfigLocked cm) = cm_LastVoteEpoch cm"
  by (simp_all add: saveConfigLocked_def)

lemma cluster_ok_cong:
  assumes "cm_Heap cm' = cm_Heap cm" "cm_Nodes cm' = cm_Nodes cm" "cm_Self cm' = cm_Self cm"
    "cm_Next cm' = cm_Next cm" "cm_SlotMap cm' = cm_SlotMap cm"
  shows "cluster_ok cm' \<longleftrightarrow> cluster_ok cm"
  using assms by (simp add: cluster_ok_def nodes_ok_def agree_def known_def)

lemma cluster_ok_save [simp]: "cluster_ok (saveConfigLocked cm) \<longleftrightarrow> cluster_ok cm"
  by (rule cluster_ok_cong) simp_all

lemma nodes_ok_put [simp]: "nodes_ok (put_slot a s b cm) \<longleftrightarrow> nodes_ok cm" "nodes_ok (put_owner s o' cm) \<longleftrightarrow> nodes_ok cm"
  "known (put_slot a s b cm) x \<longleftrightarrow> known cm x" "known (put_owner s o' cm) x \<longleftrightarrow> known cm x"
proof -
  have "cn_ID (node (put_slot a s b cm) x) = cn_ID (node cm x)" for x by simp
  then show "nodes_ok (put_slot a s b cm) \<longleftrightarrow> nodes_ok cm"
    by (simp only: nodes_ok_def node_simps(2-4))
qed (simp_all add: nodes_ok_def known_def)

text \<open>The two ways a slot changes hands.\<close>

lemma agreeD:
  assumes "agree cm s"
  shows "cm_SlotMap cm s = Some a \<Longrightarrow> known cm a" and "known cm b \<Longrightarrow> cn_Slots (node cm b) s \<longleftrightarrow> cm_SlotMap cm s = Some b"
  using assms unfolding agree_def by blast+

lemma cluster_ok_take:
  assumes ok: "cluster_ok cm" and a: "known cm a" and s: "s < NumSlots"
  shows "cluster_ok (take_slot a s cm)"
proof -
  have n: "nodes_ok cm" and g: "\<And>t. t < NumSlots \<Longrightarrow> agree cm t" using ok by (auto simp: cluster_ok_def)
  have other: "known cm b \<Longrightarrow> cn_ID (node cm b) = cn_ID (node cm a) \<longleftrightarrow> b = a" for b
    using known_same_id [OF n] a by blast
  have "agree (take_slot a s cm) t" if t: "t < NumSlots" for t
  proof (cases "t = s")
    case False
    then show ?thesis using g [OF t] by (auto simp: agree_def take_slot_def Let_def known_def split: option.splits)
  next
    case True
    then show ?thesis
      unfolding agree_def take_slot_def Let_def
      by (cases "cm_SlotMap cm s") (use a other agreeD [OF g [OF s]] in \<open>auto split: if_splits\<close>)
  qed
  moreover have "nodes_ok (take_slot a s cm)"
    using n by (auto simp: take_slot_def Let_def split: option.splits)
  ultimately show ?thesis by (simp add: cluster_ok_def)
qed

lemma cluster_ok_drop:
  assumes ok: "cluster_ok cm" and s: "s < NumSlots" and a: "cm_SlotMap cm s \<in> {None, Some a}"
  shows "cluster_ok (put_owner s None (put_slot a s False cm))"
proof -
  have g: "\<And>t. t < NumSlots \<Longrightarrow> agree cm t" using ok by (simp add: cluster_ok_def)
  have "agree (put_owner s None (put_slot a s False cm)) t" if "t < NumSlots" for t
  proof (cases "t = s")
    case True
    have "x = a" if "known cm x" "cn_Slots (node cm x) s" for x
      using agreeD(2) [OF g [OF s] that(1)] that(2) a by auto
    then show ?thesis using True by (auto simp: agree_def)
  next
    case False
    then show ?thesis using g [OF that] by (auto simp: agree_def)
  qed
  then show ?thesis using ok by (simp add: cluster_ok_def)
qed

lemma take_slot_simps [simp]:
  "cm_Nodes (take_slot a s cm) = cm_Nodes cm" "cm_Self (take_slot a s cm) = cm_Self cm"
  "known (take_slot a s cm) x \<longleftrightarrow> known cm x" "cn_ID (node (take_slot a s cm) x) = cn_ID (node cm x)"
  by (simp_all add: take_slot_def Let_def split: option.split)

text \<open>The loops over the slots.\<close>

lemma cluster_ok_assign_loop:
  "cluster_ok cm \<Longrightarrow> known cm a \<Longrightarrow> cluster_ok (snd (assign_loop a ss cm))"
  by (induction a ss cm rule: assign_loop.induct) (simp_all add: cluster_ok_take)

text \<open>Adding a slot that is free or the manager's own is the same step.\<close>

lemma take_own:
  assumes ok: "cluster_ok cm" and s: "s < NumSlots"
    and own: "\<And>b. cm_SlotMap cm s = Some b \<Longrightarrow> cn_ID (node cm b) = self_id cm"
  shows "put_owner s (Some (cm_Self cm)) (put_slot (cm_Self cm) s True cm) = take_slot (cm_Self cm) s cm"
  using own by (simp add: take_slot_def split: option.split)

lemma check_add_None:
  "check_add cm ss = None \<longleftrightarrow>
     (\<forall>s\<in>set ss. s < NumSlots \<and> (\<forall>b. cm_SlotMap cm s = Some b \<longrightarrow> cn_ID (node cm b) = self_id cm))"
  by (induction ss) (auto split: option.splits if_splits)

lemma cluster_ok_add_loop:
  "cluster_ok cm \<Longrightarrow>
   \<forall>s\<in>set ss. s < NumSlots \<and> (\<forall>b. cm_SlotMap cm s = Some b \<longrightarrow> cn_ID (node cm b) = self_id cm) \<Longrightarrow>
   cluster_ok (fold (\<lambda>s cm. put_owner s (Some (cm_Self cm)) (put_slot (cm_Self cm) s True cm)) ss cm)"
proof (induction ss arbitrary: cm)
  case (Cons s ss)
  let ?cm = "take_slot (cm_Self cm) s cm"
  have eq: "put_owner s (Some (cm_Self cm)) (put_slot (cm_Self cm) s True cm) = ?cm"
    using Cons.prems by (intro take_own) auto
  have "known cm (cm_Self cm)" using Cons.prems(1) by (auto simp: cluster_ok_def intro: known_self)
  then have ok: "cluster_ok ?cm" using Cons.prems by (intro cluster_ok_take) auto
  have m: "cm_SlotMap ?cm = (cm_SlotMap cm)(s \<mapsto> cm_Self cm)" by (simp flip: eq)
  have "\<forall>t\<in>set ss. t < NumSlots \<and> (\<forall>b. cm_SlotMap ?cm t = Some b \<longrightarrow> cn_ID (node ?cm b) = self_id ?cm)"
    using Cons.prems(2) by (auto simp: m)
  then show ?case using Cons.IH [OF ok] by (simp add: eq)
qed simp

lemma cluster_ok_AddSlots: "cluster_ok cm \<Longrightarrow> cluster_ok (snd (AddSlots ss cm))"
  using check_add_None [of cm ss] by (simp add: AddSlots_def cluster_ok_add_loop split: option.split)

lemma cluster_ok_AssignSlotsToNode: "cluster_ok cm \<Longrightarrow> cluster_ok (snd (AssignSlotsToNode i ss cm))"
  by (auto simp: AssignSlotsToNode_def known_def split: option.split intro!: cluster_ok_assign_loop)

lemma known_owner: "cluster_ok cm \<Longrightarrow> s < NumSlots \<Longrightarrow> cm_SlotMap cm s = Some a \<Longrightarrow> known cm a"
  by (auto simp: cluster_ok_def dest: agreeD(1))

lemma owned_by_selfD:
  "cluster_ok cm \<Longrightarrow> s < NumSlots \<Longrightarrow> owned_by_self cm s \<Longrightarrow> cm_SlotMap cm s = Some (cm_Self cm)"
  using known_same_id [of cm _ "cm_Self cm"] known_owner [of cm s] known_self [of cm]
  by (fastforce simp: owned_by_self_def cluster_ok_def split: option.splits)

lemma check_del_None: "check_del cm ss = None \<longleftrightarrow> (\<forall>s\<in>set ss. s < NumSlots \<and> owned_by_self cm s)"
  by (induction ss) auto

lemma cluster_ok_del_loop:
  "cluster_ok cm \<Longrightarrow> \<forall>s\<in>set ss. s < NumSlots \<and> cm_SlotMap cm s \<in> {None, Some (cm_Self cm)} \<Longrightarrow>
   cluster_ok (fold (\<lambda>s cm. put_owner s None (put_slot (cm_Self cm) s False cm)) ss cm)"
proof (induction ss arbitrary: cm)
  case (Cons s ss)
  have "cluster_ok (put_owner s None (put_slot (cm_Self cm) s False cm))"
    using Cons.prems by (intro cluster_ok_drop) auto
  then show ?case using Cons.IH Cons.prems(2) by simp
qed simp

lemma cluster_ok_DelSlots: "cluster_ok cm \<Longrightarrow> cluster_ok (snd (DelSlots ss cm))"
proof (cases "check_del cm ss")
  case None
  assume ok: "cluster_ok cm"
  have "\<forall>s\<in>set ss. s < NumSlots \<and> cm_SlotMap cm s \<in> {None, Some (cm_Self cm)}"
    using None owned_by_selfD [OF ok] by (auto simp: check_del_None)
  then show ?thesis using None ok by (simp add: DelSlots_def cluster_ok_del_loop)
qed (simp add: DelSlots_def)

lemma cluster_ok_fields [simp]:
  "cluster_ok (cm\<lparr>cm_MigratingSlots := m\<rparr>) \<longleftrightarrow> cluster_ok cm" "cluster_ok (cm\<lparr>cm_ImportingSlots := m\<rparr>) \<longleftrightarrow> cluster_ok cm"
  "cluster_ok (cm\<lparr>cm_CurrentEpoch := e\<rparr>) \<longleftrightarrow> cluster_ok cm" "cluster_ok (cm\<lparr>cm_LastVoteEpoch := e\<rparr>) \<longleftrightarrow> cluster_ok cm"
  "cluster_ok (cm\<lparr>cm_failReports := r\<rparr>) \<longleftrightarrow> cluster_ok cm"
  by (rule cluster_ok_cong; simp)+

lemma cluster_ok_SetSlot: "cluster_ok cm \<Longrightarrow> cluster_ok (snd (SetSlot s sub i cm))"
  by (auto simp: SetSlot_def Let_def known_def split: option.split intro!: cluster_ok_take)

text \<open>A change of a descriptor that keeps its identifier and its slots.\<close>

lemma cluster_ok_upd:
  assumes ok: "cluster_ok cm" and f: "\<And>n. cn_ID (f n) = cn_ID n" "\<And>n. cn_Slots (f n) = cn_Slots n"
  shows "cluster_ok (upd_node a f cm)"
proof -
  have "cn_ID (node (upd_node a f cm) x) = cn_ID (node cm x)" "cn_Slots (node (upd_node a f cm) x) = cn_Slots (node cm x)" for x
    by (simp_all add: upd_node_def f)
  moreover have "cm_Nodes (upd_node a f cm) = cm_Nodes cm" "cm_Self (upd_node a f cm) = cm_Self cm"
      "cm_Next (upd_node a f cm) = cm_Next cm" "cm_SlotMap (upd_node a f cm) = cm_SlotMap cm"
    by (simp_all add: upd_node_def)
  ultimately show ?thesis using ok by (simp only: cluster_ok_def nodes_ok_def agree_def known_def) blast
qed

lemma cluster_ok_release_self: "cluster_ok cm \<Longrightarrow> i < NumSlots \<Longrightarrow> cluster_ok (release_self i cm)"
proof -
  assume ok: "cluster_ok cm" and i: "i < NumSlots"
  have "known cm (cm_Self cm)" "agree cm i" using ok i by (auto simp: cluster_ok_def intro: known_self)
  then have "cn_Slots (self cm) i \<Longrightarrow> cm_SlotMap cm i = Some (cm_Self cm)" using agreeD(2) by blast
  then show ?thesis
    using cluster_ok_drop [OF ok i, of "cm_Self cm"] ok by (simp add: release_self_def Let_def)
qed

lemma cluster_ok_fold: "cluster_ok cm \<Longrightarrow> (\<And>i cm. i \<in> set is \<Longrightarrow> cluster_ok cm \<Longrightarrow> cluster_ok (f i cm)) \<Longrightarrow> cluster_ok (fold f is cm)"
  by (induction "is" arbitrary: cm) auto

lemma cluster_ok_Replicate: "cluster_ok cm \<Longrightarrow> cluster_ok (snd (Replicate i cm))"
  by (auto simp: Replicate_def Let_def split: option.split
      intro!: cluster_ok_upd cluster_ok_fold cluster_ok_release_self)

lemma fold_release_owner:
  "fold (release_owner a) [0..<n] cm =
     cm\<lparr>cm_SlotMap := (\<lambda>i. if i < n \<and> cn_Slots (node cm a) i \<and> cm_SlotMap cm i = Some a then None else cm_SlotMap cm i)\<rparr>"
proof (induction n)
  case (Suc n)
  then show ?case by (auto simp: release_owner_def put_owner_def less_Suc_eq intro!: ClusterManager.equality ext)
qed simp

lemma cluster_ok_RemoveNode: "cluster_ok cm \<Longrightarrow> cluster_ok (snd (RemoveNode i cm))"
proof (cases "i = self_id cm \<or> gget (cm_Nodes cm) i = None")
  case False
  assume ok: "cluster_ok cm"
  then have n: "nodes_ok cm" and g: "\<And>s. s < NumSlots \<Longrightarrow> agree cm s" by (auto simp: cluster_ok_def)
  obtain a where a: "gget (cm_Nodes cm) i = Some a" and i: "i \<noteq> self_id cm" using False by auto
  define cm' where "cm' = cm\<lparr>cm_SlotMap := (\<lambda>s. if s < NumSlots \<and> cn_Slots (node cm a) s \<and> cm_SlotMap cm s = Some a
      then None else cm_SlotMap cm s), cm_Nodes := gdel i (cm_Nodes cm)\<rparr>"
  have k: "known cm' b \<longleftrightarrow> known cm b \<and> b \<noteq> a" for b
    using n a unfolding known_def nodes_ok_def cm'_def by (auto simp: gomap_simps) (metis option.inject)
  have m: "cm_SlotMap cm' s = (if s < NumSlots \<and> cn_Slots (node cm a) s \<and> cm_SlotMap cm s = Some a then None else cm_SlotMap cm s)"
      "node cm' b = node cm b" for s b by (simp_all add: cm'_def)
  have "agree cm' s" if s: "s < NumSlots" for s
    unfolding agree_def k m using s agreeD [OF g [OF s]] by (cases "cm_SlotMap cm s = Some a") auto
  moreover have "nodes_ok cm'" using n i by (auto simp: nodes_ok_def cm'_def gomap_simps)
  ultimately have "cluster_ok cm'" by (simp add: cluster_ok_def)
  moreover have "snd (RemoveNode i cm) = saveConfigLocked cm'"
    using a i by (simp add: RemoveNode_def fold_release_owner cm'_def)
  ultimately show ?thesis by simp
qed (auto simp: RemoveNode_def)

section \<open>Restart\<close>

text \<open>
  The manager's own descriptor at a restart: a line of the configuration file changes it only when it names the
  identifier just generated.
\<close>

definition fresh_self :: "string \<Rightarrow> ClusterNode \<Rightarrow> ClusterManager \<Rightarrow> bool" where
  "fresh_self gen n cm \<longleftrightarrow>
     cm_Self cm = 0 \<and> cm_Next cm > 0 \<and> node cm 0 = n \<and> cn_ID n = gen \<and> cm_LastVoteEpoch cm = 0 \<and>
     (\<forall>i. gget (cm_Nodes cm) i = Some 0 \<longrightarrow> i = gen)"

lemma fresh_self_slots: "fresh_self gen n cm \<Longrightarrow> a \<noteq> 0 \<Longrightarrow> fresh_self gen n (merge_slots a ss cm)"
proof (induction ss arbitrary: cm)
  case (Cons s ss)
  have "fresh_self gen n (put_owner s (Some a) (put_slot a s True cm))"
    using Cons.prems by (simp add: fresh_self_def put_owner_def put_slot_def upd_node_def)
  then show ?case using Cons by (simp add: merge_slots_def)
qed (simp add: merge_slots_def)

lemma fresh_self_merge_node:
  assumes f: "fresh_self gen n cm" and gen: "gen \<noteq> []" and i: "i \<noteq> gen"
  shows "case merge_node gen' now i addr my role masterID epoch linkState cm of (a, cm') \<Rightarrow> a \<noteq> 0 \<and> fresh_self gen n cm'"
proof -
  have s: "self_id cm = gen" using f by (simp add: fresh_self_def)
  obtain a cm1 where fa: "find_or_add gen' now i addr role cm = (a, cm1)" by fastforce
  have 1: "a \<noteq> 0 \<and> fresh_self gen n cm1"
  proof (cases "gget (cm_Nodes cm) i")
    case (Some b)
    then have "b \<noteq> 0" using f i unfolding fresh_self_def by metis
    then show ?thesis using fa Some f by (simp add: find_or_add_def)
  next
    case None
    obtain m where m: "a = cm_Next cm"
        "cm1 = cm\<lparr>cm_Heap := (cm_Heap cm)(cm_Next cm := m), cm_Next := Suc (cm_Next cm), cm_Nodes := gput i (cm_Next cm) (cm_Nodes cm)\<rparr>"
      using fa None by (cases addr) (auto simp: find_or_add_def add_node_def)
    have "gget (cm_Nodes cm) j = Some 0 \<Longrightarrow> j = gen" for j using f by (simp add: fresh_self_def)
    moreover have "cm_Next cm > 0" "cm_Self cm = 0" "node cm 0 = n" "cn_ID n = gen" "cm_LastVoteEpoch cm = 0"
      using f by (simp_all add: fresh_self_def)
    ultimately show ?thesis unfolding m fresh_self_def by (simp add: gomap_simps)
  qed
  then show ?thesis
    using s gen i by (auto simp: merge_node_def fa upd_node_def fresh_self_def)
qed

lemma fresh_self_vars: "fresh_self gen n cm \<Longrightarrow> fresh_self gen n (parse_vars ps cm)"
proof -
  have "fresh_self gen n (cm\<lparr>cm_CurrentEpoch := e\<rparr>) \<longleftrightarrow> fresh_self gen n cm" for e cm by (simp add: fresh_self_def)
  then show "fresh_self gen n cm \<Longrightarrow> fresh_self gen n (parse_vars ps cm)"
    by (induction ps cm rule: parse_vars.induct) (simp_all split: option.split)
qed

lemma fresh_if: "fresh_self gen n cm1 \<Longrightarrow> fresh_self gen n cm2 \<Longrightarrow> fresh_self gen n (if b then cm1 else cm2)"
  by simp

lemma fresh_self_line:
  assumes f: "fresh_self gen n cm" and gen: "gen \<noteq> []" and l: "take 1 (Fields (TrimSpace line)) \<noteq> [gen]"
  shows "fresh_self gen n (merge_line gen' now line cm)"
proof -
  let ?parts = "Fields (TrimSpace line)"
  let ?role = "if Contains (?parts ! 2) ''slave'' then ''slave'' else ''master''"
  obtain a cm1 where m: "merge_node gen' now (?parts ! 0) (parse_addr (?parts ! 1)) (Contains (?parts ! 2) ''myself'') ?role
      (?parts ! 3) (parse_epoch (?parts ! 6)) (?parts ! 7) cm = (a, cm1)" by fastforce
  have vars: "fresh_self gen n (parse_vars (tl ?parts) cm)" by (rule fresh_self_vars [OF f])
  show ?thesis
  proof (cases "length ?parts < 8")
    case True
    then show ?thesis unfolding merge_line_def Let_def if_P [OF True] by (intro fresh_if f vars)
  next
    case False
    have "?parts ! 0 \<noteq> gen"
    proof
      assume "?parts ! 0 = gen"
      moreover have "?parts \<noteq> []" using False by auto
      ultimately have "take 1 ?parts = [gen]" by (metis One_nat_def hd_conv_nth take0 take_Suc)
      then show False using l by contradiction
    qed
    from fresh_self_merge_node [OF f gen this, of gen' now "parse_addr (?parts ! 1)" "Contains (?parts ! 2) ''myself''" ?role
        "?parts ! 3" "parse_epoch (?parts ! 6)" "?parts ! 7"]
    have c: "a \<noteq> 0" "fresh_self gen n cm1" unfolding m prod.case by blast+
    have "fresh_self gen n (case ParseSlotRanges (Join (drop 8 ?parts) '' '') of Inl _ \<Rightarrow> cm1 | Inr slots \<Rightarrow> merge_slots a slots cm1)"
      using c by (cases "ParseSlotRanges (Join (drop 8 ?parts) '' '')") (simp_all add: fresh_self_slots)
    then show ?thesis
      unfolding merge_line_def Let_def m prod.case by (intro fresh_if f vars c(2))
  qed
qed

text \<open>
  Property C35: a restart gives a node a new identity and no memory of its vote. Whatever the configuration file
  holds, as long as no line names the identifier generated at start-up, the manager comes up under that identifier, owns no
  slot, and has never voted: the line marked \<open>myself\<close> with the node's slots becomes a peer.
\<close>

theorem Restart_new_identity:
  assumes "gen \<noteq> []" and "\<forall>line\<in>set (Split file CHR 0x0A). take 1 (Fields (TrimSpace line)) \<noteq> [gen]"
  shows "let cm = NewClusterManager gen now ip port busPort path (Some file)
    in self_id cm = gen \<and> cn_Slots (self cm) = (\<lambda>_. False) \<and> cm_LastVoteEpoch cm = 0"
proof -
  let ?ip = "if ip = [] then ''127.0.0.1'' else ip" and ?port = "if port \<le> 0 then 7379 else port"
  define n where "n = NewNode gen now [] ?ip ?port (if busPort \<le> 0 then wrap64 (?port + 10000) else busPort) ''master''"
  have fold: "fresh_self gen n (fold (merge_line gen now) ls cm)"
    if "fresh_self gen n cm" "\<forall>l\<in>set ls. take 1 (Fields (TrimSpace l)) \<noteq> [gen]" for ls cm
    using that by (induction ls arbitrary: cm) (auto simp: fresh_self_line assms(1))
  define cm0 where "cm0 = \<lparr>cm_Heap = (\<lambda>_. n), cm_Next = 1, cm_Self = 0, cm_Nodes = [(cn_ID n, 0)], cm_SlotMap = (\<lambda>_. None),
      cm_ConfigFile = (if path = [] then ''nodes.conf'' else path), cm_Config = Some file, cm_CurrentEpoch = 1,
      cm_LastVoteEpoch = 0, cm_MigratingSlots = [], cm_ImportingSlots = [], cm_NodeTimeout = 2000000000, cm_failReports = []\<rparr>"
  have "cm_ConfigFile cm0 \<noteq> []" "cm_Config cm0 = Some file" by (simp_all add: cm0_def)
  then have "NewClusterManager gen now ip port busPort path (Some file) = fold (merge_line gen now) (Split file CHR 0x0A) cm0"
    unfolding NewClusterManager_def Let_def n_def [symmetric] cm0_def [symmetric]
    by (simp add: LoadConfig_def parseAndMergeNodesTextLocked_def)
  moreover have "fresh_self gen n cm0"
    using assms(1) by (simp add: fresh_self_def cm0_def gget_def n_def NewNode_def)
  ultimately have "fresh_self gen n (NewClusterManager gen now ip port busPort path (Some file))"
    using fold assms(2) by simp
  then show ?thesis by (auto simp: fresh_self_def Let_def n_def NewNode_def)
qed

theorem Restart_new_identity_witness:
  "let cm = NewClusterManager ''node-new'' 0 [] 7379 0 []
              (Some (''node-old 127.0.0.1:7379@17379 myself,master - 0 0 1 connected 0-16383'' @ [CHR 0x0A] @
                     ''vars currentEpoch 9 lastVoteEpoch 0'' @ [CHR 0x0A]))
   in self_id cm = ''node-new'' \<and> cn_Slots (self cm) = (\<lambda>_. False) \<and> cm_LastVoteEpoch cm = 0"
proof (rule Restart_new_identity)
  show "\<forall>line\<in>set (Split (''node-old 127.0.0.1:7379@17379 myself,master - 0 0 1 connected 0-16383'' @ [CHR 0x0A] @
        ''vars currentEpoch 9 lastVoteEpoch 0'' @ [CHR 0x0A]) CHR 0x0A).
      take 1 (Fields (TrimSpace line)) \<noteq> [''node-new'']"
    by code_simp
qed simp

end
