(* ===== verification/Cluster_Gossip.thy ===== *)
theory Cluster_Gossip
  imports Cluster_State
begin

text \<open>
  The gossip protocol (src/internal/cluster/gossip.go): what a node does with a packet, the heartbeat
  with its failure detection, and the election of a replica. A call that panics is \<open>None\<close>: the log lines
  cut identifiers to eight bytes and fail on shorter ones. The order in which Go visits the map of
  nodes, the clock and the answers of the network are arguments; a step holds the manager's lock, so the
  interleavings of a cluster are the sequences of steps.

  The lemmas show that every step keeps the slot map and the nodes' slots in agreement, that a master
  votes at most once per epoch while it runs, and where the election and the failure detection fall short of a
  majority.
\<close>

section \<open>Definitions\<close>

subsection \<open>Packets\<close>

text \<open>The eight-byte prefix of an identifier, as the log lines take it.\<close>

definition short_id :: "string \<Rightarrow> string option" where
  "short_id s = (if length s < 8 then None else Some (take 8 s))"

definition add_report :: "int \<Rightarrow> string \<Rightarrow> string \<Rightarrow> ClusterManager \<Rightarrow> ClusterManager" where
  "add_report now target reporter cm =
     cm\<lparr>cm_failReports := gput target
          (gput reporter now (case gget (cm_failReports cm) target of None \<Rightarrow> [] | Some r \<Rightarrow> r)) (cm_failReports cm)\<rparr>"

definition mark_fail :: "ClusterNode \<Rightarrow> ClusterNode" where
  "mark_fail n = n\<lparr>cn_Fail := True, cn_PFail := False, cn_LinkState := ''disconnected''\<rparr>"

definition gossip_step :: "int \<Rightarrow> string \<Rightarrow> GossipEntry \<Rightarrow> ClusterManager \<Rightarrow> ClusterManager" where
  "gossip_step now reporterID g cm =
     (if ge_NodeID g = self_id cm then cm
      else if ge_Flags g AND FlagFail \<noteq> 0 then
        (case gget (cm_Nodes cm) (ge_NodeID g) of None \<Rightarrow> cm | Some a \<Rightarrow> upd_node a mark_fail cm)
      else if ge_Flags g AND FlagPFail \<noteq> 0 then add_report now (ge_NodeID g) reporterID cm
      else cm)"

definition processGossipEntriesLocked :: "int \<Rightarrow> GossipEntry list \<Rightarrow> string \<Rightarrow> ClusterManager \<Rightarrow> ClusterManager" where
  "processGossipEntriesLocked now gossip reporterID cm = fold (gossip_step now reporterID) gossip cm"

definition role_flag :: "ClusterNode \<Rightarrow> 16 word" where
  "role_flag n = (if cn_Role n = ''master'' then FlagMaster else FlagSlave)"

definition gossip_entry :: "ClusterNode \<Rightarrow> GossipEntry" where
  "gossip_entry n =
     \<lparr>ge_NodeID = cn_ID n, ge_IP = cn_IP n, ge_Port = word_of_int (cn_Port n), ge_BusPort = word_of_int (cn_BusPort n),
      ge_Flags = role_flag n OR (if cn_Fail n then FlagFail else if cn_PFail n then FlagPFail else 0),
      ge_PingSent = cn_PingSent n, ge_PongRecv = cn_PongRecv n\<rparr>"

text \<open>The fields every packet of this node shares.\<close>

definition own_packet :: "8 word \<Rightarrow> ClusterManager \<Rightarrow> BusPacket" where
  "own_packet pktType cm =
     \<lparr>bp_Type = pktType, bp_Epoch = cm_CurrentEpoch cm, bp_SenderID = self_id cm, bp_SenderIP = cn_IP (self cm),
      bp_Port = word_of_int (cn_Port (self cm)), bp_BusPort = word_of_int (cn_BusPort (self cm)), bp_Flags = 0,
      bp_Slots = replicate 2048 0, bp_Gossip = [], bp_TargetNodeID = [], bp_ReqEpoch = 0\<rparr>"

definition buildSelfPacketLocked :: "8 word \<Rightarrow> ClusterManager \<Rightarrow> BusPacket" where
  "buildSelfPacketLocked pktType cm =
     (own_packet pktType cm)
       \<lparr>bp_Flags := role_flag (self cm), bp_Slots := SlotsToBitmap (cn_Slots (self cm)),
        bp_Gossip := map gossip_entry (filter (\<lambda>n. cn_ID n \<noteq> self_id cm) (map (\<lambda>(_, a). node cm a) (cm_Nodes cm)))\<rparr>"

text \<open>One slot the sender claims: the owner loses it, unless it is this node at a higher epoch.\<close>

definition sync_slot :: "nat \<Rightarrow> BusPacket \<Rightarrow> nat \<Rightarrow> ClusterManager \<Rightarrow> ClusterManager" where
  "sync_slot sender p i cm =
     (if BitmapToSlots (bp_Slots p) i then
        (case cm_SlotMap cm i of
           None \<Rightarrow> put_owner i (Some sender) (put_slot sender i True cm)
         | Some a \<Rightarrow>
             if cn_ID (node cm a) = cn_ID (node cm sender) then cm
             else if cn_ID (node cm a) = self_id cm \<and> cm_CurrentEpoch cm > bp_Epoch p then cm
             else put_owner i (Some sender) (put_slot sender i True (put_slot a i False cm)))
      else cm)"

definition refresh :: "int \<Rightarrow> ClusterNode \<Rightarrow> ClusterNode" where
  "refresh now n = n\<lparr>cn_PongRecv := now, cn_PFail := False, cn_Fail := False, cn_LinkState := ''connected''\<rparr>"

text \<open>The first part of \<open>ProcessPacket\<close>: the sender, the epoch, the slots.\<close>

definition find_sender :: "string \<Rightarrow> int \<Rightarrow> BusPacket \<Rightarrow> ClusterManager \<Rightarrow> nat \<times> ClusterManager" where
  "find_sender gen now p cm =
     (case gget (cm_Nodes cm) (bp_SenderID p) of
        Some a \<Rightarrow> (a, cm)
      | None \<Rightarrow>
          add_node (bp_SenderID p)
            ((NewNode gen now (bp_SenderID p) (bp_SenderIP p) (uint (bp_Port p)) (uint (bp_BusPort p)) ''master'')
               \<lparr>cn_Role := (if bp_Flags p AND FlagSlave \<noteq> 0 then ''slave'' else ''master'')\<rparr>) cm)"

definition receive :: "string \<Rightarrow> int \<Rightarrow> BusPacket \<Rightarrow> ClusterManager \<Rightarrow> ClusterManager" where
  "receive gen now p cm =
     (let (sender, cm) = find_sender gen now p cm;
          cm = upd_node sender (refresh now) cm;
          cm = (if bp_Epoch p > cm_CurrentEpoch cm then cm\<lparr>cm_CurrentEpoch := bp_Epoch p\<rparr> else cm)
      in if bp_Flags p AND FlagMaster \<noteq> 0 then fold (sync_slot sender p) [0..<NumSlots] cm else cm)"

definition auth_ack :: "BusPacket \<Rightarrow> ClusterManager \<Rightarrow> BusPacket" where
  "auth_ack p cm =
     (own_packet TypeFailoverAuthAck cm)\<lparr>bp_TargetNodeID := bp_SenderID p, bp_ReqEpoch := bp_ReqEpoch p\<rparr>"

definition grants_vote :: "BusPacket \<Rightarrow> ClusterManager \<Rightarrow> bool" where
  "grants_vote p cm \<longleftrightarrow>
     cn_Role (self cm) = ''master'' \<and> bp_ReqEpoch p \<ge> cm_CurrentEpoch cm \<and> bp_ReqEpoch p > cm_LastVoteEpoch cm \<and>
     (case gget (cm_Nodes cm) (bp_TargetNodeID p) of None \<Rightarrow> False | Some a \<Rightarrow> cn_Fail (node cm a))"

definition ProcessPacket ::
  "string \<Rightarrow> int \<Rightarrow> BusPacket \<Rightarrow> ClusterManager \<Rightarrow> (BusPacket option \<times> ClusterManager) option" where
  "ProcessPacket gen now p cm =
     (let cm = receive gen now p cm in
      if bp_Type p = TypePing then
        let cm = processGossipEntriesLocked now (bp_Gossip p) (bp_SenderID p) cm
        in Some (Some (buildSelfPacketLocked TypePong cm), cm)
      else if bp_Type p = TypePong then
        Some (None, processGossipEntriesLocked now (bp_Gossip p) (bp_SenderID p) cm)
      else if bp_Type p = TypeFail then
        (case gget (cm_Nodes cm) (bp_TargetNodeID p) of
           None \<Rightarrow> Some (None, cm)
         | Some a \<Rightarrow>
             if cn_ID (node cm a) = self_id cm then Some (None, cm)
             else if short_id (bp_SenderID p) = None \<or> short_id (cn_ID (node cm a)) = None then None
             else Some (None, upd_node a mark_fail cm))
      else if bp_Type p = TypeFailoverAuthReq then
        (if grants_vote p cm then
           let cm = saveConfigLocked (cm\<lparr>cm_LastVoteEpoch := bp_ReqEpoch p, cm_CurrentEpoch := bp_ReqEpoch p\<rparr>)
           in if short_id (bp_SenderID p) = None then None else Some (Some (auth_ack p cm), cm)
         else Some (None, cm))
      else Some (None, cm))"

text \<open>A connection of the bus: the bytes read, the bytes answered.\<close>

definition handleBusConn :: "string \<Rightarrow> int \<Rightarrow> string \<Rightarrow> ClusterManager \<Rightarrow> (string \<times> ClusterManager) option" where
  "handleBusConn gen now bytes cm =
     (case ReadPacket bytes of
        Inl _ \<Rightarrow> Some ([], cm)
      | Inr (p, _) \<Rightarrow>
          map_option (\<lambda>(reply, cm). (case reply of None \<Rightarrow> [] | Some q \<Rightarrow> WritePacket q, cm)) (ProcessPacket gen now p cm))"

subsection \<open>The heartbeat\<close>

text \<open>
  The audit visits the nodes in the order \<open>order\<close>, counting the masters as it goes; it returns the nodes whose
  failure is broadcast.
\<close>

definition suspect :: "int \<Rightarrow> nat \<Rightarrow> ClusterManager \<Rightarrow> ClusterManager option" where
  "suspect now a cm =
     (let n = node cm a in
      if wrap64 (wrap64 (now - cn_PongRecv n) * 1000000) > cm_NodeTimeout cm \<and> \<not> cn_PFail n \<and> \<not> cn_Fail n then
        (if short_id (cn_ID n) = None then None
         else Some (add_report now (cn_ID n) (self_id cm)
                (upd_node a (\<lambda>n. n\<lparr>cn_PFail := True, cn_LinkState := ''disconnected''\<rparr>) cm)))
      else Some cm)"

definition confirm :: "nat \<Rightarrow> nat \<Rightarrow> ClusterManager \<Rightarrow> (ClusterManager \<times> string list) option" where
  "confirm totalMasters a cm =
     (let n = node cm a;
          reports = (case gget (cm_failReports cm) (cn_ID n) of None \<Rightarrow> 0 | Some r \<Rightarrow> length r)
      in if cn_PFail n \<and> \<not> cn_Fail n \<and> totalMasters > 0 \<and> reports > totalMasters div 2 then
           (if short_id (cn_ID n) = None then None
            else Some (upd_node a (\<lambda>n. n\<lparr>cn_Fail := True, cn_PFail := False\<rparr>) cm, [cn_ID n]))
         else Some (cm, []))"

fun audit_loop :: "int \<Rightarrow> string list \<Rightarrow> nat \<Rightarrow> ClusterManager \<Rightarrow> (ClusterManager \<times> string list) option" where
  "audit_loop now [] totalMasters cm = Some (cm, [])"
| "audit_loop now (i # order) totalMasters cm =
     (let a = the (gget (cm_Nodes cm) i);
          totalMasters = (if cn_Role (node cm a) = ''master'' then Suc totalMasters else totalMasters)
      in if cn_ID (node cm a) = self_id cm then audit_loop now order totalMasters cm
         else case suspect now a cm of
           None \<Rightarrow> None
         | Some cm \<Rightarrow>
             (case confirm totalMasters a cm of
                None \<Rightarrow> None
              | Some (cm, fails) \<Rightarrow>
                  map_option (\<lambda>(cm, fails'). (cm, fails @ fails')) (audit_loop now order totalMasters cm)))"

record heartbeat =
  hb_Fails :: "string list"
  hb_Failover :: "string option"
  hb_Peers :: "(string \<times> string \<times> int) list"
  hb_Ping :: BusPacket

definition failed_master :: "ClusterManager \<Rightarrow> string option" where
  "failed_master cm =
     (if cn_Role (self cm) = ''slave'' \<and> cn_MasterID (self cm) \<noteq> [] \<and> cn_MasterID (self cm) \<noteq> ''-'' then
        (case gget (cm_Nodes cm) (cn_MasterID (self cm)) of
           None \<Rightarrow> None
         | Some a \<Rightarrow> if cn_Fail (node cm a) then Some (cn_ID (node cm a)) else None)
      else None)"

definition heartbeatStep :: "int \<Rightarrow> string list \<Rightarrow> ClusterManager \<Rightarrow> (heartbeat \<times> ClusterManager) option" where
  "heartbeatStep now order cm =
     (case audit_loop now order 0 cm of
        None \<Rightarrow> None
      | Some (cm, fails) \<Rightarrow>
          Some (\<lparr>hb_Fails = fails, hb_Failover = failed_master cm,
                 hb_Peers = map (\<lambda>n. (cn_ID n, cn_IP n, cn_BusPort n))
                   (filter (\<lambda>n. cn_ID n \<noteq> self_id cm \<and> \<not> cn_Fail n) (map (\<lambda>(_, a). node cm a) (cm_Nodes cm))),
                 hb_Ping = buildSelfPacketLocked TypePing cm\<rparr>, cm))"

definition bus_addr :: "ClusterNode \<Rightarrow> string" where
  "bus_addr n = cn_IP n @ '':'' @ FormatInt (cn_BusPort n)"

definition BroadcastFail :: "string \<Rightarrow> ClusterManager \<Rightarrow> BusPacket \<times> string list" where
  "BroadcastFail failedNodeID cm =
     ((own_packet TypeFail cm)\<lparr>bp_TargetNodeID := failedNodeID\<rparr>,
      map bus_addr (filter (\<lambda>n. cn_ID n \<noteq> self_id cm \<and> \<not> cn_Fail n) (map (\<lambda>(_, a). node cm a) (cm_Nodes cm))))"

subsection \<open>The election\<close>

definition active_masters :: "ClusterManager \<Rightarrow> ClusterNode list" where
  "active_masters cm = filter (\<lambda>n. cn_Role n = ''master'' \<and> \<not> cn_Fail n) (map (\<lambda>(_, a). node cm a) (cm_Nodes cm))"

text \<open>Before the lock is released: the request, and the masters it goes to.\<close>

definition election_start :: "string \<Rightarrow> ClusterManager \<Rightarrow> ((BusPacket \<times> string list) \<times> ClusterManager) option" where
  "election_start failedMasterID cm =
     (if cn_Role (self cm) \<noteq> ''slave'' then None
      else
        let cm = cm\<lparr>cm_CurrentEpoch := cm_CurrentEpoch cm + 1\<rparr>
        in Some (((own_packet TypeFailoverAuthReq cm)
                    \<lparr>bp_TargetNodeID := failedMasterID, bp_ReqEpoch := cm_CurrentEpoch cm\<rparr>,
                  map bus_addr (active_masters cm)), cm))"

definition is_vote :: "BusPacket \<Rightarrow> BusPacket \<Rightarrow> bool" where
  "is_vote req r \<longleftrightarrow>
     bp_Type r = TypeFailoverAuthAck \<and> bp_TargetNodeID r = bp_SenderID req \<and> bp_ReqEpoch r = bp_ReqEpoch req"

text \<open>The count: the candidate's own vote and those of the masters that answered.\<close>

definition election_won :: "BusPacket \<Rightarrow> nat \<Rightarrow> BusPacket list \<Rightarrow> bool" where
  "election_won req totalMasters replies \<longleftrightarrow> 1 + length (filter (is_vote req) replies) \<ge> totalMasters div 2 + 1"

definition promote_slot :: "string \<Rightarrow> nat option \<Rightarrow> nat \<Rightarrow> ClusterManager \<Rightarrow> ClusterManager" where
  "promote_slot failedMasterID failed i cm =
     (if (case failed of None \<Rightarrow> False | Some a \<Rightarrow> cn_Slots (node cm a) i) then
        put_owner i (Some (cm_Self cm)) (put_slot (cm_Self cm) i True (put_slot (the failed) i False cm))
      else
        (case cm_SlotMap cm i of
           None \<Rightarrow> cm
         | Some a \<Rightarrow>
             if cn_ID (node cm a) = failedMasterID
             then put_owner i (Some (cm_Self cm)) (put_slot (cm_Self cm) i True cm)
             else cm))"

definition PromoteReplica :: "string \<Rightarrow> ClusterManager \<Rightarrow> ClusterManager option" where
  "PromoteReplica failedMasterID cm =
     (if cn_Role (self cm) = ''master'' then Some cm
      else if short_id (self_id cm) = None then None
      else
        let cm = upd_node (cm_Self cm) (\<lambda>n. n\<lparr>cn_Role := ''master'', cn_MasterID := ''-''\<rparr>) cm
        in Some (saveConfigLocked
             (fold (promote_slot failedMasterID (gget (cm_Nodes cm) failedMasterID)) [0..<NumSlots] cm)))"

text \<open>The whole election, with the network's answers to the request as a function of the address.\<close>

definition RunFailoverElection ::
  "(string \<Rightarrow> BusPacket \<Rightarrow> BusPacket option) \<Rightarrow> string \<Rightarrow> ClusterManager \<Rightarrow> ClusterManager option" where
  "RunFailoverElection net failedMasterID cm =
     (case election_start failedMasterID cm of
        None \<Rightarrow> Some cm
      | Some ((req, addrs), cm) \<Rightarrow>
          if short_id (self_id cm) = None \<or> short_id failedMasterID = None then None
          else if election_won req (length addrs) (List.map_filter (\<lambda>a. net a req) addrs)
          then PromoteReplica failedMasterID cm
          else Some cm)"

section \<open>Slot ownership\<close>

lemma cluster_ok_add_node:
  assumes ok: "cluster_ok cm" and k: "gget (cm_Nodes cm) i = None" and n: "cn_ID n = i" "cn_Slots n = (\<lambda>_. False)"
  shows "cluster_ok (snd (add_node i n cm))" and "known (snd (add_node i n cm)) (cm_Next cm)"
proof -
  let ?cm = "snd (add_node i n cm)"
  have no: "nodes_ok cm" and g: "\<And>s. s < NumSlots \<Longrightarrow> agree cm s" using ok by (auto simp: cluster_ok_def)
  have fresh: "known cm a \<Longrightarrow> a \<noteq> cm_Next cm" for a using nodes_ok_known [OF no, of a] by auto
  have kn: "known ?cm a \<longleftrightarrow> known cm a \<or> a = cm_Next cm" for a
    using k by (auto simp: known_def add_node_def gomap_simps) (metis option.distinct(1))
  have h: "node ?cm a = (if a = cm_Next cm then n else node cm a)" "cm_SlotMap ?cm = cm_SlotMap cm" for a
    by (simp_all add: add_node_def)
  have "agree ?cm s" if "s < NumSlots" for s
    using agreeD [OF g [OF that]] fresh n(2) unfolding agree_def kn h by auto
  moreover have "nodes_ok ?cm"
    using no k n(1) unfolding nodes_ok_def by (auto simp: add_node_def gomap_simps less_Suc_eq)
  ultimately show "cluster_ok ?cm" by (simp add: cluster_ok_def)
  show "known ?cm (cm_Next cm)" by (simp add: kn)
qed

lemma cluster_ok_sync_slot:
  assumes ok: "cluster_ok cm" and i: "i < NumSlots" and k: "known cm sender"
  shows "cluster_ok (sync_slot sender p i cm) \<and> (\<forall>a. known (sync_slot sender p i cm) a = known cm a)"
proof -
  have "sync_slot sender p i cm \<in> {cm, take_slot sender i cm}"
    by (simp add: sync_slot_def take_slot_def Let_def split: option.split)
  then show ?thesis using cluster_ok_take [OF ok k i] ok by auto
qed

lemma cluster_ok_sync:
  "cluster_ok cm \<Longrightarrow> known cm sender \<Longrightarrow> \<forall>i\<in>set is. i < NumSlots \<Longrightarrow> cluster_ok (fold (sync_slot sender p) is cm)"
  by (induction "is" arbitrary: cm) (use cluster_ok_sync_slot in auto)

lemma known_upd [simp]: "known (upd_node a f cm) x \<longleftrightarrow> known cm x" "known (cm\<lparr>cm_CurrentEpoch := e\<rparr>) x \<longleftrightarrow> known cm x"
  by (simp_all add: known_def upd_node_def)

lemma find_sender_ok:
  assumes ok: "cluster_ok cm" and p: "bp_SenderID p \<noteq> []"
  shows "cluster_ok (snd (find_sender gen now p cm)) \<and> known (snd (find_sender gen now p cm)) (fst (find_sender gen now p cm))"
proof (cases "gget (cm_Nodes cm) (bp_SenderID p)")
  case None
  then show ?thesis
    using cluster_ok_add_node [OF ok None] p by (simp add: find_sender_def NewNode_def) (simp add: add_node_def)
qed (use ok in \<open>auto simp: find_sender_def known_def\<close>)

lemma cluster_ok_receive: "cluster_ok cm \<Longrightarrow> bp_SenderID p \<noteq> [] \<Longrightarrow> cluster_ok (receive gen now p cm)"
  using find_sender_ok [of cm p gen now]
  by (auto simp: receive_def Let_def refresh_def split: prod.split intro!: cluster_ok_sync cluster_ok_upd)

lemma cluster_ok_add_report [simp]: "cluster_ok (add_report now t r cm) \<longleftrightarrow> cluster_ok cm"
  by (simp add: add_report_def)

lemma cluster_ok_mark_fail: "cluster_ok cm \<Longrightarrow> cluster_ok (upd_node a mark_fail cm)"
  by (rule cluster_ok_upd) (simp_all add: mark_fail_def)

lemma cluster_ok_gossip: "cluster_ok cm \<Longrightarrow> cluster_ok (processGossipEntriesLocked now gs r cm)"
  unfolding processGossipEntriesLocked_def
  by (rule cluster_ok_fold) (auto simp: gossip_step_def cluster_ok_mark_fail split: option.split)

lemma cluster_ok_ProcessPacket:
  "cluster_ok cm \<Longrightarrow> bp_SenderID p \<noteq> [] \<Longrightarrow> ProcessPacket gen now p cm = Some (r, cm') \<Longrightarrow> cluster_ok cm'"
  using cluster_ok_receive [of cm p gen now]
  by (auto simp: ProcessPacket_def Let_def cluster_ok_gossip cluster_ok_mark_fail split: if_splits option.splits)

lemma cluster_ok_suspect: "cluster_ok cm \<Longrightarrow> suspect now a cm = Some cm' \<Longrightarrow> cluster_ok cm'"
  by (auto simp: suspect_def Let_def split: if_splits intro!: cluster_ok_upd)

lemma cluster_ok_confirm: "cluster_ok cm \<Longrightarrow> confirm t a cm = Some (cm', fs) \<Longrightarrow> cluster_ok cm'"
  by (auto simp: confirm_def Let_def split: if_splits intro!: cluster_ok_upd)

lemma cluster_ok_audit_loop: "cluster_ok cm \<Longrightarrow> audit_loop now order t cm = Some (cm', fs) \<Longrightarrow> cluster_ok cm'"
proof (induction now order t cm arbitrary: cm' fs rule: audit_loop.induct)
  case (2 now i order t cm)
  then show ?case
    by (auto simp: Let_def split: if_splits option.splits prod.splits)
       (metis cluster_ok_suspect cluster_ok_confirm)+
qed simp

lemma promote_slot_cases:
  assumes ok: "cluster_ok cm" and i: "i < NumSlots" and f: "f = gget (cm_Nodes cm) m"
  shows "promote_slot m f i cm \<in> {cm, take_slot (cm_Self cm) i cm}"
proof -
  have n: "nodes_ok cm" and g: "agree cm i" using ok i by (auto simp: cluster_ok_def)
  show ?thesis
  proof (cases "cm_SlotMap cm i")
    case None
    then have "\<not> cn_Slots (node cm a) i" if "f = Some a" for a
      using agreeD(2) [OF g, of a] that f by (auto simp: known_def)
    then show ?thesis using None by (simp add: promote_slot_def split: option.split)
  next
    case (Some b)
    then have b: "known cm b" by (rule agreeD(1) [OF g])
    show ?thesis
    proof (cases "f = Some b")
      case True
      then have "cn_Slots (node cm b) i" using agreeD(2) [OF g b] Some by simp
      moreover have "cn_ID (node cm b) = self_id cm \<longleftrightarrow> b = cm_Self cm"
        using known_same_id [OF n b known_self [OF n]] by auto
      ultimately show ?thesis
        using True Some by (auto simp: promote_slot_def take_slot_def Let_def put_slot_def put_owner_def upd_node_def)
    next
      case False
      have "cn_ID (node cm b) \<noteq> m" using False f nodes_ok_known [OF n b] by auto
      moreover have "\<not> cn_Slots (node cm a) i" if "f = Some a" for a
        using agreeD(2) [OF g, of a] that f False Some by (auto simp: known_def)
      ultimately show ?thesis using Some by (simp add: promote_slot_def split: option.split)
    qed
  qed
qed

lemma cluster_ok_promote_loop:
  "cluster_ok cm \<Longrightarrow> \<forall>i\<in>set is. i < NumSlots \<Longrightarrow> f = gget (cm_Nodes cm) m \<Longrightarrow>
   cluster_ok (fold (promote_slot m f) is cm)"
proof (induction "is" arbitrary: cm)
  case (Cons i "is")
  have "known cm (cm_Self cm)" using Cons.prems(1) by (auto simp: cluster_ok_def intro: known_self)
  then have t: "cluster_ok (take_slot (cm_Self cm) i cm)" using Cons.prems by (intro cluster_ok_take) auto
  have "promote_slot m f i cm = cm \<or> promote_slot m f i cm = take_slot (cm_Self cm) i cm"
    using promote_slot_cases [OF Cons.prems(1) _ Cons.prems(3), of i] Cons.prems(2) by auto
  then show ?case using Cons.IH [of cm] Cons.IH [of "take_slot (cm_Self cm) i cm"] t Cons.prems by auto
qed simp

lemma cluster_ok_PromoteReplica: "cluster_ok cm \<Longrightarrow> PromoteReplica m cm = Some cm' \<Longrightarrow> cluster_ok cm'"
  by (auto simp: PromoteReplica_def Let_def upd_node_def split: if_splits
      intro!: cluster_ok_promote_loop cluster_ok_upd [unfolded upd_node_def])

lemma cluster_ok_election_start: "cluster_ok cm \<Longrightarrow> election_start m cm = Some (r, cm') \<Longrightarrow> cluster_ok cm'"
  by (auto simp: election_start_def Let_def split: if_splits)

text \<open>
  The steps of a node: the administrator's commands on slots, the packets it receives, its heartbeat, its elections.
  \<open>Meet\<close> and \<open>AddNode\<close> are not among them: they give a node slots without
  clearing them in the set of the previous owner.
\<close>

datatype cluster_op =
    OpAddSlots "nat list"
  | OpAssignSlots string "nat list"
  | OpDelSlots "nat list"
  | OpSetSlot nat string string
  | OpRemoveNode string
  | OpReplicate string
  | OpPacket string int BusPacket
  | OpHeartbeat int "string list"
  | OpElect string
  | OpPromote string

fun cluster_step :: "cluster_op \<Rightarrow> ClusterManager \<Rightarrow> (BusPacket option \<times> ClusterManager) option" where
  "cluster_step (OpAddSlots ss) cm = Some (None, snd (AddSlots ss cm))"
| "cluster_step (OpAssignSlots i ss) cm = Some (None, snd (AssignSlotsToNode i ss cm))"
| "cluster_step (OpDelSlots ss) cm = Some (None, snd (DelSlots ss cm))"
| "cluster_step (OpSetSlot s sub i) cm = Some (None, snd (SetSlot s sub i cm))"
| "cluster_step (OpRemoveNode i) cm = Some (None, snd (RemoveNode i cm))"
| "cluster_step (OpReplicate i) cm = Some (None, snd (Replicate i cm))"
| "cluster_step (OpPacket gen now p) cm = ProcessPacket gen now p cm"
| "cluster_step (OpHeartbeat now order) cm = map_option (\<lambda>(_, cm). (None, cm)) (heartbeatStep now order cm)"
| "cluster_step (OpElect m) cm = (case election_start m cm of None \<Rightarrow> Some (None, cm) | Some (_, cm) \<Rightarrow> Some (None, cm))"
| "cluster_step (OpPromote m) cm = map_option (\<lambda>cm. (None, cm)) (PromoteReplica m cm)"

text \<open>A run: the packets answered, in order; \<open>None\<close> when a step panics.\<close>

fun cluster_run :: "cluster_op list \<Rightarrow> ClusterManager \<Rightarrow> (BusPacket list \<times> ClusterManager) option" where
  "cluster_run [] cm = Some ([], cm)"
| "cluster_run (op # ops) cm =
     (case cluster_step op cm of
        None \<Rightarrow> None
      | Some (r, cm) \<Rightarrow>
          map_option (\<lambda>(rs, cm). ((case r of None \<Rightarrow> [] | Some q \<Rightarrow> [q]) @ rs, cm)) (cluster_run ops cm))"

definition op_named :: "cluster_op \<Rightarrow> bool" where
  "op_named op = (case op of OpPacket _ _ p \<Rightarrow> bp_SenderID p \<noteq> [] | _ \<Rightarrow> True)"

lemma cluster_ok_step: "cluster_ok cm \<Longrightarrow> op_named op \<Longrightarrow> cluster_step op cm = Some (r, cm') \<Longrightarrow> cluster_ok cm'"
  by (cases op)
     (auto simp: op_named_def heartbeatStep_def cluster_ok_AddSlots cluster_ok_AssignSlotsToNode cluster_ok_DelSlots
       cluster_ok_SetSlot cluster_ok_RemoveNode cluster_ok_Replicate
       split: option.splits prod.splits
       dest: cluster_ok_ProcessPacket cluster_ok_audit_loop cluster_ok_election_start cluster_ok_PromoteReplica)

lemma cluster_ok_run:
  "cluster_ok cm \<Longrightarrow> list_all op_named ops \<Longrightarrow> cluster_run ops cm = Some (rs, cm') \<Longrightarrow> cluster_ok cm'"
proof (induction ops arbitrary: cm rs)
  case (Cons op ops)
  then show ?case by (auto split: option.splits prod.splits) (metis cluster_ok_step)+
qed simp

lemma cluster_ok_New: "cluster_ok (NewClusterManager gen now ip port busPort file None)"
  by (simp add: NewClusterManager_def LoadConfig_def Let_def cluster_ok_def nodes_ok_def agree_def known_def gget_def NewNode_def)

text \<open>
  Property C3: through every sequence of the steps above (slot commands, packets, heartbeats, elections and promotions) of
  a node that started without a configuration file, no slot ever has two owners: a known node has a slot in its
  set exactly when the slot map names that node, and every owner the slot map names is a known node.
  The packets carry a sender identifier.
\<close>

theorem Slot_agreement:
  assumes "list_all op_named ops"
    and "cluster_run ops (NewClusterManager gen now ip port busPort file None) = Some (rs, cm)" and "s < NumSlots"
  shows "(GetSlotOwner s cm = Some a \<longleftrightarrow> known cm a \<and> cn_Slots (node cm a) s)
    \<and> (known cm a \<and> known cm b \<and> cn_Slots (node cm a) s \<and> cn_Slots (node cm b) s \<longrightarrow> a = b)"
proof -
  have "agree cm s" using cluster_ok_run [OF cluster_ok_New assms(1,2)] assms(3) by (simp add: cluster_ok_def)
  then have "\<forall>x. GetSlotOwner s cm = Some x \<longleftrightarrow> known cm x \<and> cn_Slots (node cm x) s"
    using assms(3) by (simp add: agree_def GetSlotOwner_def)
  then show ?thesis by (metis option.inject)
qed

theorem Slot_agreement_witness:
  "\<exists>rs cm. cluster_run [OpAddSlots [5], OpPacket [] 9 (own_packet TypePong (NewClusterManager ''node-two'' 0 [] 7380 0 [] None))]
       (NewClusterManager ''node-one'' 0 [] 7379 0 [] None) = Some (rs, cm)
     \<and> (GetSlotOwner 5 cm = Some 0) = (known cm 0 \<and> cn_Slots (node cm 0) 5)"
proof -
  let ?ops = "[OpAddSlots [5], OpPacket [] 9 (own_packet TypePong (NewClusterManager ''node-two'' 0 [] 7380 0 [] None))]"
  let ?cm = "NewClusterManager ''node-one'' 0 [] 7379 0 [] None"
  have "list_all op_named ?ops"
    by (simp add: op_named_def own_packet_def NewClusterManager_def LoadConfig_def NewNode_def Let_def)
  moreover obtain rs cm where "cluster_run ?ops ?cm = Some (rs, cm)"
    by (auto simp: ProcessPacket_def Let_def own_packet_def TypePong_def TypePing_def)
  ultimately show ?thesis using Slot_agreement [of ?ops _ _ _ _ _ _ rs cm 5 0 0] by (auto simp: NumSlots_def)
qed

section \<open>Votes\<close>

text \<open>No step but a granted vote changes the epoch of the last vote.\<close>

lemma LastVote_simps [simp]:
  "cm_LastVoteEpoch (upd_node a f cm) = cm_LastVoteEpoch cm"
  "cm_LastVoteEpoch (put_slot a s b cm) = cm_LastVoteEpoch cm"
  "cm_LastVoteEpoch (put_owner s o' cm) = cm_LastVoteEpoch cm"
  "cm_LastVoteEpoch (add_report now t r cm) = cm_LastVoteEpoch cm"
  "cm_LastVoteEpoch (snd (add_node i n cm)) = cm_LastVoteEpoch cm"
  by (simp_all add: upd_node_def put_slot_def put_owner_def add_report_def add_node_def)

lemma LastVote_fold:
  "(\<And>i cm. cm_LastVoteEpoch (f i cm) = cm_LastVoteEpoch cm) \<Longrightarrow> cm_LastVoteEpoch (fold f is cm) = cm_LastVoteEpoch cm"
  by (induction "is" arbitrary: cm) auto

lemma LastVote_take [simp]: "cm_LastVoteEpoch (take_slot a s cm) = cm_LastVoteEpoch cm"
  by (simp add: take_slot_def Let_def split: option.split)

lemma LastVote_assign [simp]: "cm_LastVoteEpoch (snd (assign_loop a ss cm)) = cm_LastVoteEpoch cm"
  by (induction a ss cm rule: assign_loop.induct) auto

lemma LastVote_commands [simp]:
  "cm_LastVoteEpoch (snd (AddSlots ss cm)) = cm_LastVoteEpoch cm"
  "cm_LastVoteEpoch (snd (AssignSlotsToNode i ss cm)) = cm_LastVoteEpoch cm"
  "cm_LastVoteEpoch (snd (DelSlots ss cm)) = cm_LastVoteEpoch cm"
  "cm_LastVoteEpoch (snd (SetSlot s sub i cm)) = cm_LastVoteEpoch cm"
  "cm_LastVoteEpoch (snd (RemoveNode i cm)) = cm_LastVoteEpoch cm"
  "cm_LastVoteEpoch (snd (Replicate i cm)) = cm_LastVoteEpoch cm"
  by (simp_all add: AddSlots_def AssignSlotsToNode_def DelSlots_def SetSlot_def RemoveNode_def Replicate_def Let_def
      LastVote_fold release_owner_def release_self_def split: option.split)

lemma LastVote_receive [simp]: "cm_LastVoteEpoch (receive gen now p cm) = cm_LastVoteEpoch cm"
proof -
  have "cm_LastVoteEpoch (sync_slot a p i cm) = cm_LastVoteEpoch cm" for a i cm
    by (simp add: sync_slot_def split: option.split)
  moreover have "cm_LastVoteEpoch (snd (find_sender gen now p cm)) = cm_LastVoteEpoch cm"
    by (simp add: find_sender_def split: option.split)
  ultimately show ?thesis by (simp add: receive_def Let_def LastVote_fold case_prod_unfold)
qed

lemma LastVote_gossip [simp]: "cm_LastVoteEpoch (processGossipEntriesLocked now gs r cm) = cm_LastVoteEpoch cm"
  unfolding processGossipEntriesLocked_def
  by (rule LastVote_fold) (simp add: gossip_step_def split: option.split)

lemma LastVote_suspect: "suspect now a cm = Some cm' \<Longrightarrow> cm_LastVoteEpoch cm' = cm_LastVoteEpoch cm"
  by (auto simp: suspect_def Let_def split: if_splits)

lemma LastVote_confirm: "confirm t a cm = Some (cm', fs) \<Longrightarrow> cm_LastVoteEpoch cm' = cm_LastVoteEpoch cm"
  by (auto simp: confirm_def Let_def split: if_splits)

lemma LastVote_audit:
  "audit_loop now order t cm = Some (cm', fs) \<Longrightarrow> cm_LastVoteEpoch cm' = cm_LastVoteEpoch cm"
proof (induction order arbitrary: t cm fs)
  case (Cons i order)
  let ?a = "the (gget (cm_Nodes cm) i)" and ?t = "if cn_Role (node cm (the (gget (cm_Nodes cm) i))) = ''master'' then Suc t else t"
  show ?case
  proof (cases "cn_ID (node cm ?a) = self_id cm")
    case True
    then show ?thesis using Cons.prems by (intro Cons.IH [of ?t]) (simp add: Let_def)
  next
    case False
    then obtain cm1 cm2 f1 f2 where 1: "suspect now ?a cm = Some cm1" "confirm ?t ?a cm1 = Some (cm2, f1)"
        and 2: "audit_loop now order ?t cm2 = Some (cm', f2)"
      using Cons.prems by (auto simp: Let_def split: option.splits)
    show ?thesis using Cons.IH [OF 2] LastVote_suspect [OF 1(1)] LastVote_confirm [OF 1(2)] by simp
  qed
qed simp

lemma LastVote_promote: "PromoteReplica m cm = Some cm' \<Longrightarrow> cm_LastVoteEpoch cm' = cm_LastVoteEpoch cm"
proof -
  have "cm_LastVoteEpoch (promote_slot m f i cm) = cm_LastVoteEpoch cm" for f i cm
    by (simp add: promote_slot_def split: option.split)
  then show "PromoteReplica m cm = Some cm' \<Longrightarrow> cm_LastVoteEpoch cm' = cm_LastVoteEpoch cm"
    by (auto simp: PromoteReplica_def Let_def LastVote_fold split: if_splits)
qed

definition is_ack :: "BusPacket \<Rightarrow> bool" where
  "is_ack r \<longleftrightarrow> bp_Type r = TypeFailoverAuthAck"

lemma vote_step:
  assumes "cluster_step op cm = Some (r, cm')"
  shows "case r of None \<Rightarrow> cm_LastVoteEpoch cm' = cm_LastVoteEpoch cm
    | Some q \<Rightarrow> if is_ack q then cm_LastVoteEpoch cm < cm_LastVoteEpoch cm' \<and> bp_ReqEpoch q = cm_LastVoteEpoch cm'
               else cm_LastVoteEpoch cm' = cm_LastVoteEpoch cm"
proof (cases op)
  case (OpPacket gen now p)
  then show ?thesis
    using assms
    by (auto simp: ProcessPacket_def Let_def grants_vote_def is_ack_def auth_ack_def own_packet_def buildSelfPacketLocked_def
        TypePong_def TypeFailoverAuthAck_def split: if_splits option.splits)
qed (use assms in \<open>auto simp: heartbeatStep_def election_start_def Let_def dest: LastVote_audit LastVote_promote
      split: option.splits prod.splits if_splits\<close>)

text \<open>
  Property C14: while it runs, a node grants at most one vote per epoch. In every sequence of commands, packets,
  heartbeats and promotions, the acknowledgements it sends carry strictly increasing epochs, all above that of
  its last vote, so two candidates of one epoch never both hold its vote.
\<close>

theorem Vote_once:
  assumes "cluster_run ops cm = Some (rs, cm')"
  shows "sorted_wrt (<) (cm_LastVoteEpoch cm # map bp_ReqEpoch (filter is_ack rs))"
  using assms
proof (induction ops arbitrary: cm rs)
  case (Cons op ops)
  obtain r cm1 where step: "cluster_step op cm = Some (r, cm1)" using Cons.prems by (auto split: option.splits)
  then obtain rs1 where run: "cluster_run ops cm1 = Some (rs1, cm')"
      and rs: "rs = (case r of None \<Rightarrow> [] | Some q \<Rightarrow> [q]) @ rs1"
    using Cons.prems by (auto split: option.splits)
  show ?case
    using Cons.IH [OF run] vote_step [OF step] unfolding rs
    by (cases r) (auto split: if_splits dest: less_trans)
qed simp

section \<open>Elections\<close>

text \<open>A promotion takes over exactly the slots of the failed master.\<close>

lemma promote_slot_keeps:
  "cm_Nodes (promote_slot m f i cm) = cm_Nodes cm" "cm_Self (promote_slot m f i cm) = cm_Self cm"
  "cn_Role (node (promote_slot m f i cm) a) = cn_Role (node cm a)"
  by (simp_all add: promote_slot_def split: option.split)

lemma promote_loop_keeps:
  "cm_Nodes (fold (promote_slot m f) is cm) = cm_Nodes cm" "cm_Self (fold (promote_slot m f) is cm) = cm_Self cm"
  "cn_Role (node (fold (promote_slot m f) is cm) a) = cn_Role (node cm a)"
  by (induction "is" arbitrary: cm) (simp_all add: promote_slot_keeps)

lemma promote_loop_owner:
  assumes "cluster_ok cm" "set is \<subseteq> {..<NumSlots}" "gget (cm_Nodes cm) m = Some f" "s < NumSlots"
  shows "cm_SlotMap (fold (promote_slot m (Some f)) is cm) s =
    (if s \<in> set is \<and> cm_SlotMap cm s = Some f then Some (cm_Self cm) else cm_SlotMap cm s)"
  using assms
proof (induction "is" arbitrary: cm)
  case (Cons i "is")
  have i: "i < NumSlots" using Cons.prems(2) by simp
  have kf: "known cm f" and ag: "agree cm i" and n: "nodes_ok cm"
    using Cons.prems(1,3) i by (auto simp: known_def cluster_ok_def)
  have fid: "cn_ID (node cm f) = m" using Cons.prems(3) n by (simp add: nodes_ok_def)
  have slot: "cn_Slots (node cm f) i \<longleftrightarrow> cm_SlotMap cm i = Some f" by (rule agreeD(2) [OF ag kf])
  have other: "cm_SlotMap cm i = Some b \<Longrightarrow> cn_ID (node cm b) = m \<Longrightarrow> b = f" for b
    by (rule known_same_id [OF n agreeD(1) [OF ag] kf]) (simp_all add: fid)
  have map1: "cm_SlotMap (promote_slot m (Some f) i cm) =
      (if cm_SlotMap cm i = Some f then (cm_SlotMap cm)(i \<mapsto> cm_Self cm) else cm_SlotMap cm)"
  proof (cases "cm_SlotMap cm i")
    case (Some b)
    show ?thesis
    proof (cases "b = f")
      case False
      then have "cn_ID (node cm b) \<noteq> m" using other [OF Some] by blast
      then show ?thesis using False Some by (simp add: promote_slot_def slot)
    qed (simp add: promote_slot_def slot Some)
  qed (simp add: promote_slot_def slot)
  have "known cm (cm_Self cm)" using n by (rule known_self)
  then have t: "cluster_ok (take_slot (cm_Self cm) i cm)" by (rule cluster_ok_take [OF Cons.prems(1) _ i])
  have "promote_slot m (Some f) i cm = cm \<or> promote_slot m (Some f) i cm = take_slot (cm_Self cm) i cm"
    using promote_slot_cases [OF Cons.prems(1) i, of "Some f" m] Cons.prems(3) by simp
  then have ok1: "cluster_ok (promote_slot m (Some f) i cm)" using t Cons.prems(1) by (elim disjE) simp_all
  have "cm_SlotMap (fold (promote_slot m (Some f)) is (promote_slot m (Some f) i cm)) s =
      (if s \<in> set is \<and> cm_SlotMap (promote_slot m (Some f) i cm) s = Some f then Some (cm_Self cm)
       else cm_SlotMap (promote_slot m (Some f) i cm) s)"
    using Cons.IH [OF ok1] Cons.prems(2-4) by (simp add: promote_slot_keeps)
  then show ?case by (cases "s = i"; cases "cm_SlotMap cm i = Some f") (simp_all add: map1)
qed simp

lemma PromoteReplica_takes:
  assumes ok: "cluster_ok cm" and r: "cn_Role (self cm) \<noteq> ''master''" "8 \<le> length (self_id cm)"
    and f: "gget (cm_Nodes cm) m = Some f"
  shows "\<exists>cm'. PromoteReplica m cm = Some cm' \<and> cn_Role (self cm') = ''master'' \<and>
    (\<forall>s<NumSlots. GetSlotOwner s cm' = (if GetSlotOwner s cm = Some f then Some (cm_Self cm') else GetSlotOwner s cm))"
proof -
  define cm1 where "cm1 = upd_node (cm_Self cm) (\<lambda>n. n\<lparr>cn_Role := ''master'', cn_MasterID := ''-''\<rparr>) cm"
  have ok1: "cluster_ok cm1" unfolding cm1_def by (rule cluster_ok_upd [OF ok]) simp_all
  have k: "cm_Nodes cm1 = cm_Nodes cm" "cm_Self cm1 = cm_Self cm" "cm_SlotMap cm1 = cm_SlotMap cm" "cn_Role (node cm1 (cm_Self cm)) = ''master''"
    by (simp_all add: cm1_def upd_node_def)
  show ?thesis
    using r f promote_loop_owner [OF ok1, of "[0..<NumSlots]" m f]
    by (intro exI [of _ "saveConfigLocked (fold (promote_slot m (gget (cm_Nodes cm1) m)) [0..<NumSlots] cm1)"])
       (auto simp: PromoteReplica_def short_id_def Let_def k promote_loop_keeps GetSlotOwner_def subset_iff simp flip: cm1_def)
qed

text \<open>
  A cluster of two live masters and a failed one with two replicas, as each of the five sees it. The failed
  master has all the slots.
\<close>

definition sample_node :: "string \<Rightarrow> int \<Rightarrow> string \<Rightarrow> ClusterNode" where
  "sample_node ident port role = NewNode [] 0 ident ''10.0.0.1'' port (port + 10000) role"

definition sample_cluster :: "nat \<Rightarrow> ClusterManager" where
  "sample_cluster k =
     (let ns = [(sample_node ''master-F'' 7379 ''master'')\<lparr>cn_Fail := True, cn_Slots := (\<lambda>i. i < NumSlots)\<rparr>,
                sample_node ''master-X'' 7380 ''master'', sample_node ''master-Y'' 7381 ''master'',
                (sample_node ''replica-P'' 7382 ''slave'')\<lparr>cn_MasterID := ''master-F''\<rparr>,
                (sample_node ''replica-Q'' 7383 ''slave'')\<lparr>cn_MasterID := ''master-F''\<rparr>]
      in \<lparr>cm_Heap = (\<lambda>a. ns ! a), cm_Next = 5, cm_Self = k,
          cm_Nodes = [(''master-F'', 0), (''master-X'', 1), (''master-Y'', 2), (''replica-P'', 3), (''replica-Q'', 4)],
          cm_SlotMap = (\<lambda>i. if i < NumSlots then Some 0 else None), cm_ConfigFile = [], cm_Config = None,
          cm_CurrentEpoch = 1, cm_LastVoteEpoch = 0, cm_MigratingSlots = [], cm_ImportingSlots = [],
          cm_NodeTimeout = 2000000000, cm_failReports = []\<rparr>)"

lemma sample_self: "cm_Self (sample_cluster k) = k"
  by (simp add: sample_cluster_def Let_def)

lemma sample_nodes:
  "gget (cm_Nodes (sample_cluster k)) i = Some a \<longleftrightarrow>
     (i, a) \<in> {(''master-F'', 0), (''master-X'', 1), (''master-Y'', 2), (''replica-P'', 3), (''replica-Q'', 4)}"
  by (subst gget_Some_iff) (simp_all add: sample_cluster_def Let_def gomap_ok_def)

lemma sample_ids:
  "cn_ID (node (sample_cluster k) 0) = ''master-F''" "cn_ID (node (sample_cluster k) 1) = ''master-X''"
  "cn_ID (node (sample_cluster k) 2) = ''master-Y''" "cn_ID (node (sample_cluster k) 3) = ''replica-P''"
  "cn_ID (node (sample_cluster k) 4) = ''replica-Q''"
  "cn_Slots (node (sample_cluster k) 0) = (\<lambda>i. i < NumSlots)"
  "a \<in> {1, 2, 3, 4} \<Longrightarrow> cn_Slots (node (sample_cluster k) a) = (\<lambda>i. False)"
  by (auto simp: sample_cluster_def sample_node_def NewNode_def Let_def)

lemma cluster_ok_sample: "k < 5 \<Longrightarrow> cluster_ok (sample_cluster k)"
proof -
  assume "k < 5"
  then have k: "k = 0 \<or> k = 1 \<or> k = 2 \<or> k = 3 \<or> k = 4" by auto
  have f: "cm_Self (sample_cluster k) = k" "cm_Next (sample_cluster k) = 5"
      "cm_SlotMap (sample_cluster k) s = (if s < NumSlots then Some 0 else None)" for s
    by (simp_all add: sample_cluster_def Let_def)
  have kn: "known (sample_cluster k) a \<longleftrightarrow> a = 0 \<or> a \<in> {1, 2, 3, 4}" for a
    unfolding known_def sample_nodes by (simp del: One_nat_def) blast
  have "cn_Slots (node (sample_cluster k) a) s \<longleftrightarrow> a = 0" if "s < NumSlots" "known (sample_cluster k) a" for a s
    using that sample_ids(6) [of k] sample_ids(7) [of a k] unfolding kn by (elim disjE) auto
  then have "agree (sample_cluster k) s" if "s < NumSlots" for s
    unfolding agree_def f using that kn [of 0] by auto
  moreover have "nodes_ok (sample_cluster k)"
    unfolding nodes_ok_def f sample_nodes
  proof (intro conjI allI impI)
    show "(cn_ID (node (sample_cluster k) k), k) \<in> {(''master-F'', 0), (''master-X'', 1), (''master-Y'', 2), (''replica-P'', 3), (''replica-Q'', 4)}"
      using k by (elim disjE) (simp_all add: sample_self sample_ids del: One_nat_def)
  qed (auto simp: sample_ids simp del: One_nat_def)
  ultimately show ?thesis by (simp add: cluster_ok_def)
qed

lemma sample_request:
  assumes "k = 3 \<or> k = 4"
  shows "election_start ''master-F'' (sample_cluster k) =
    Some (((own_packet TypeFailoverAuthReq (sample_cluster k))
             \<lparr>bp_Epoch := 2, bp_TargetNodeID := ''master-F'', bp_ReqEpoch := 2\<rparr>,
           [''10.0.0.1:17380'', ''10.0.0.1:17381'']), (sample_cluster k)\<lparr>cm_CurrentEpoch := 2\<rparr>)"
proof -
  have "FormatInt 17380 = ''17380''" "FormatInt 17381 = ''17381''" by code_simp+
  then show ?thesis
    using assms
    by (auto simp: election_start_def sample_cluster_def sample_node_def NewNode_def own_packet_def active_masters_def
        bus_addr_def Let_def)
qed

lemma sample_vote:
  assumes "k = 1 \<or> k = 2" and "j = 3 \<or> j = 4"
  defines "p \<equiv> (own_packet TypeFailoverAuthReq (sample_cluster j))
             \<lparr>bp_Epoch := 2, bp_TargetNodeID := ''master-F'', bp_ReqEpoch := 2\<rparr>"
  shows "\<exists>q cm. ProcessPacket gen now p (sample_cluster k) = Some (Some q, cm) \<and> is_vote p q"
proof -
  have "bp_SenderID p = (if j = 3 then ''replica-P'' else ''replica-Q'')"
      "bp_Type p = 4" "bp_Epoch p = 2" "bp_ReqEpoch p = 2" "bp_Flags p = 0" "bp_TargetNodeID p = ''master-F''"
    using assms(2) by (auto simp: p_def own_packet_def sample_self sample_ids TypeFailoverAuthReq_def)
  then show ?thesis
    using assms(1,2)
    by (auto simp: ProcessPacket_def receive_def find_sender_def Let_def sample_cluster_def sample_node_def NewNode_def
        gget_def upd_node_def refresh_def grants_vote_def short_id_def saveConfigLocked_def auth_ack_def own_packet_def is_vote_def
        TypePing_def TypePong_def TypeFail_def TypeFailoverAuthReq_def TypeFailoverAuthAck_def)
qed

text \<open>
  Property C33: the election does not elect one master. With two live masters, two replicas of a failed master
  start an election in the same epoch, each gets the vote of one live master, both count a majority
  since each adds its own vote to those of the masters, and both take over all its slots.
\<close>

theorem Election_split:
  "\<exists>reqP addrsP cmP reqQ addrsQ cmQ ackX cmX ackY cmY cmP' cmQ'.
     election_start ''master-F'' (sample_cluster 3) = Some ((reqP, addrsP), cmP) \<and>
     election_start ''master-F'' (sample_cluster 4) = Some ((reqQ, addrsQ), cmQ) \<and>
     bp_ReqEpoch reqP = bp_ReqEpoch reqQ \<and>
     ProcessPacket gen now reqP (sample_cluster 1) = Some (Some ackX, cmX) \<and>
     ProcessPacket gen now reqQ (sample_cluster 2) = Some (Some ackY, cmY) \<and>
     election_won reqP (length addrsP) [ackX] \<and> election_won reqQ (length addrsQ) [ackY] \<and>
     PromoteReplica ''master-F'' cmP = Some cmP' \<and> PromoteReplica ''master-F'' cmQ = Some cmQ' \<and>
     (\<forall>s < NumSlots. GetSlotOwner s cmP' = Some 3 \<and> GetSlotOwner s cmQ' = Some 4)"
proof -
  have promote: "\<exists>cm'. PromoteReplica ''master-F'' ((sample_cluster k)\<lparr>cm_CurrentEpoch := 2\<rparr>) = Some cm' \<and>
      (\<forall>s < NumSlots. GetSlotOwner s cm' = Some k)"
    if "k = 3 \<or> k = 4" for k
  proof -
    let ?cm = "(sample_cluster k)\<lparr>cm_CurrentEpoch := 2\<rparr>"
    have "cluster_ok ?cm" using that cluster_ok_sample [of k] by auto
    moreover have "gget (cm_Nodes ?cm) ''master-F'' = Some 0" "8 \<le> length (self_id ?cm)" "cn_Role (self ?cm) \<noteq> ''master''"
      and o: "s < NumSlots \<Longrightarrow> GetSlotOwner s ?cm = Some 0" for s
      using that
      by (auto simp: sample_nodes sample_self sample_ids sample_cluster_def sample_node_def NewNode_def Let_def GetSlotOwner_def NumSlots_def gget_def)
    moreover have "cm_Self cm' = k" if "PromoteReplica ''master-F'' ?cm = Some cm'" for cm'
      using that by (auto simp: PromoteReplica_def Let_def promote_loop_keeps upd_node_def sample_self split: if_splits)
    ultimately show ?thesis using PromoteReplica_takes [of ?cm "''master-F''" 0] by fastforce
  qed
  show ?thesis
    using sample_request [of 3] sample_request [of 4] sample_vote [of 1 3 gen now] sample_vote [of 2 4 gen now]
      promote [of 3] promote [of 4]
    by (simp add: election_won_def) blast
qed

theorem Election_split_witness:
  "\<exists>reqP addrsP cmP cmP' reqQ addrsQ cmQ cmQ'.
     election_start ''master-F'' (sample_cluster 3) = Some ((reqP, addrsP), cmP) \<and> PromoteReplica ''master-F'' cmP = Some cmP' \<and>
     election_start ''master-F'' (sample_cluster 4) = Some ((reqQ, addrsQ), cmQ) \<and> PromoteReplica ''master-F'' cmQ = Some cmQ' \<and>
     GetSlotOwner 16383 cmP' = Some 3 \<and> GetSlotOwner 16383 cmQ' = Some 4"
proof -
  have "16383 < NumSlots" by (simp add: NumSlots_def)
  then show ?thesis using Election_split [of "[]" 0] by blast
qed

lemma ProcessPacket_request: "bp_Type p = TypeFailoverAuthReq \<Longrightarrow> 8 \<le> length (bp_SenderID p) \<Longrightarrow> \<exists>r cm'. ProcessPacket gen now p cm = Some (r, cm')"
  by (simp add: ProcessPacket_def Let_def short_id_def TypeFailoverAuthReq_def TypePing_def TypePong_def TypeFail_def)

text \<open>Two candidates ask one of the live masters in turn.\<close>

theorem Vote_once_witness:
  "\<exists>rs cm. cluster_run (map (\<lambda>j. OpPacket [] 0 (fst (fst (the (election_start ''master-F'' (sample_cluster j)))))) [3, 4])
       (sample_cluster 1) = Some (rs, cm)
     \<and> sorted_wrt (<) (cm_LastVoteEpoch (sample_cluster 1) # map bp_ReqEpoch (filter is_ack rs))"
proof -
  let ?p = "\<lambda>j. fst (fst (the (election_start ''master-F'' (sample_cluster j))))"
  have t: "bp_Type (?p j) = TypeFailoverAuthReq" "8 \<le> length (bp_SenderID (?p j))" if "j = 3 \<or> j = 4" for j
    using that by (auto simp: sample_request own_packet_def sample_self sample_ids)
  obtain r1 cm1 where 1: "ProcessPacket [] 0 (?p 3) (sample_cluster 1) = Some (r1, cm1)"
    using ProcessPacket_request [OF t, of 3] by blast
  obtain r2 cm2 where 2: "ProcessPacket [] 0 (?p 4) cm1 = Some (r2, cm2)"
    using ProcessPacket_request [OF t, of 4] by blast
  obtain rs where run: "cluster_run (map (\<lambda>j. OpPacket [] 0 (?p j)) [3, 4]) (sample_cluster 1) = Some (rs, cm2)"
    using 1 2 by simp
  show ?thesis by (intro exI conjI) (rule run, rule Vote_once [OF run])
qed

section \<open>Failure detection\<close>

text \<open>What the audit of one node leaves alone: the map of nodes, all the roles, every other node and the reports on it.\<close>

lemma audit_keeps:
  assumes "nodes_ok cm" and "gget (cm_Nodes cm) j = Some b" and "suspect now b cm = Some cm1" and "confirm t b cm1 = Some (cm2, fs)"
  shows "cm_Nodes cm2 = cm_Nodes cm" and "self_id cm2 = self_id cm" and "cm_NodeTimeout cm2 = cm_NodeTimeout cm"
    and "\<And>x. cn_Role (node cm2 x) = cn_Role (node cm x)" and "nodes_ok cm2" and "set fs \<subseteq> {j}"
proof -
  have 1: "cm_Nodes cm1 = cm_Nodes cm" "cm_Self cm1 = cm_Self cm" "cm_Next cm1 = cm_Next cm" "cm_NodeTimeout cm1 = cm_NodeTimeout cm"
    "\<And>x. cn_Role (node cm1 x) = cn_Role (node cm x)" "\<And>x. cn_ID (node cm1 x) = cn_ID (node cm x)"
    using assms(3) by (auto simp: suspect_def Let_def upd_node_def add_report_def split: if_splits)
  have 2: "cm_Nodes cm2 = cm_Nodes cm1" "cm_Self cm2 = cm_Self cm1" "cm_Next cm2 = cm_Next cm1" "cm_NodeTimeout cm2 = cm_NodeTimeout cm1"
    "\<And>x. cn_Role (node cm2 x) = cn_Role (node cm1 x)" "\<And>x. cn_ID (node cm2 x) = cn_ID (node cm1 x)"
    "set fs \<subseteq> {cn_ID (node cm1 b)}"
    using assms(4) by (auto simp: confirm_def Let_def upd_node_def split: if_splits)
  have "cn_ID (node cm b) = j" using assms(1,2) by (simp add: nodes_ok_def)
  then show "cm_Nodes cm2 = cm_Nodes cm" "self_id cm2 = self_id cm" "cm_NodeTimeout cm2 = cm_NodeTimeout cm"
    "\<And>x. cn_Role (node cm2 x) = cn_Role (node cm x)" "set fs \<subseteq> {j}"
    using 1 2 by simp_all
  show "nodes_ok cm2" using assms(1) unfolding nodes_ok_def 1 2 .
qed

lemma audit_other:
  assumes "nodes_ok cm" and "gget (cm_Nodes cm) j = Some b" and "suspect now b cm = Some cm1" and "confirm t b cm1 = Some (cm2, fs)"
    and "gget (cm_Nodes cm) i = Some a" and "j \<noteq> i"
  shows "node cm2 a = node cm a" and "gget (cm_failReports cm2) i = gget (cm_failReports cm) i"
proof -
  have "cn_ID (node cm b) = j" "a \<noteq> b" using assms(1,2,5,6) by (auto simp: nodes_ok_def)
  then show "node cm2 a = node cm a" "gget (cm_failReports cm2) i = gget (cm_failReports cm) i"
    using assms(3,4,6)
    by (auto simp: suspect_def confirm_def Let_def upd_node_def add_report_def gget_gput split: if_splits)
qed

definition count_master :: "ClusterManager \<Rightarrow> string \<Rightarrow> nat \<Rightarrow> nat" where
  "count_master cm j t = (if cn_Role (node_by_id cm j) = ''master'' then Suc t else t)"

lemma audit_loop_step:
  assumes "nodes_ok cm" and "gget (cm_Nodes cm) j = Some b" and "audit_loop now (j # order) t cm = Some (cm', fs)"
  shows "if j = self_id cm then audit_loop now order (count_master cm j t) cm = Some (cm', fs)
    else \<exists>cm1 cm2 f1 f2. suspect now b cm = Some cm1 \<and> confirm (count_master cm j t) b cm1 = Some (cm2, f1) \<and>
      audit_loop now order (count_master cm j t) cm2 = Some (cm', f2) \<and> fs = f1 @ f2"
proof -
  have "cn_ID (node cm b) = j" using assms(1,2) by (simp add: nodes_ok_def)
  then show ?thesis
    using assms(2,3) by (auto simp: count_master_def node_by_id_def Let_def split: option.splits prod.splits if_splits)
qed

lemma audit_loop_fails:
  assumes "nodes_ok cm" and "\<forall>j \<in> set order. gget (cm_Nodes cm) j \<noteq> None"
    and "audit_loop now order t cm = Some (cm', fs)"
  shows "set fs \<subseteq> set order"
  using assms
proof (induction order arbitrary: t cm fs)
  case (Cons j order)
  obtain b where b: "gget (cm_Nodes cm) j = Some b" using Cons.prems(2) by auto
  note S = audit_loop_step [OF Cons.prems(1) b Cons.prems(3)]
  show ?case
  proof (cases "j = self_id cm")
    case True
    then show ?thesis using Cons.IH [OF Cons.prems(1)] Cons.prems(2) S by fastforce
  next
    case False
    then obtain cm1 cm2 f1 f2 where "suspect now b cm = Some cm1" "confirm (count_master cm j t) b cm1 = Some (cm2, f1)"
      "audit_loop now order (count_master cm j t) cm2 = Some (cm', f2)" "fs = f1 @ f2"
      using S by auto
    then show ?thesis
      using Cons.IH [of cm2] audit_keeps [OF Cons.prems(1) b] Cons.prems(2) by fastforce
  qed
qed simp

lemma audit_loop_meets:
  assumes "nodes_ok cm" and "\<forall>j \<in> set (js @ ks). gget (cm_Nodes cm) j \<noteq> None" and "i \<notin> set (js @ ks)"
    and "gget (cm_Nodes cm) i = Some a" and "cn_Role (node cm a) = ''master''" and "i \<noteq> self_id cm"
    and "wrap64 (wrap64 (now - cn_PongRecv (node cm a)) * 1000000) > cm_NodeTimeout cm"
    and "\<not> cn_PFail (node cm a)" and "\<not> cn_Fail (node cm a)" and "gget (cm_failReports cm) i = None"
    and "audit_loop now (js @ i # ks) t cm = Some (cm', fs)"
  shows "i \<in> set fs \<longleftrightarrow> t = 0 \<and> (\<forall>j \<in> set js. cn_Role (node_by_id cm j) \<noteq> ''master'')"
  using assms
proof (induction js arbitrary: t cm fs)
  case Nil
  have c: "count_master cm i t = Suc t" using Nil.prems(4,5) by (simp add: count_master_def node_by_id_def)
  have "audit_loop now (i # ks) t cm = Some (cm', fs)" using Nil.prems(11) by simp
  from audit_loop_step [OF Nil.prems(1,4) this] Nil.prems(6) obtain cm1 cm2 f1 f2 where
    1: "suspect now a cm = Some cm1" "confirm (Suc t) a cm1 = Some (cm2, f1)"
      "audit_loop now ks (Suc t) cm2 = Some (cm', f2)" "fs = f1 @ f2"
    by (auto simp: c)
  have "i \<notin> set f2"
    using audit_loop_fails [OF _ _ 1(3)] audit_keeps [OF Nil.prems(1,4) 1(1,2)] Nil.prems(2,3) by auto
  moreover have "i \<in> set f1 \<longleftrightarrow> t = 0"
  proof -
    have "cn_ID (node cm a) = i" using Nil.prems(1,4) by (simp add: nodes_ok_def)
    moreover have "length (gput (self_id cm) now []) = 1" by (simp add: gput_def)
    ultimately show ?thesis
      using 1(1,2) Nil.prems(7-10)
      by (auto simp: suspect_def confirm_def Let_def upd_node_def add_report_def gget_gput split: if_splits)
  qed
  ultimately show ?case by (simp add: 1(4))
next
  case (Cons j js)
  obtain b where b: "gget (cm_Nodes cm) j = Some b" using Cons.prems(2) by auto
  have "audit_loop now (j # js @ i # ks) t cm = Some (cm', fs)" using Cons.prems(11) by simp
  note S = audit_loop_step [OF Cons.prems(1) b this]
  show ?case
  proof (cases "j = self_id cm")
    case True
    then have "audit_loop now (js @ i # ks) (count_master cm j t) cm = Some (cm', fs)" using S by simp
    from Cons.IH [OF Cons.prems(1) _ _ Cons.prems(4-10) this] Cons.prems(2,3)
    show ?thesis by (auto simp: count_master_def)
  next
    case False
    then obtain cm1 cm2 f1 f2 where 1: "suspect now b cm = Some cm1" "confirm (count_master cm j t) b cm1 = Some (cm2, f1)"
      "audit_loop now (js @ i # ks) (count_master cm j t) cm2 = Some (cm', f2)" "fs = f1 @ f2"
      using S by auto
    have ne: "j \<noteq> i" using Cons.prems(3) by auto
    note K = audit_keeps [OF Cons.prems(1) b 1(1,2)] and O = audit_other [OF Cons.prems(1) b 1(1,2) Cons.prems(4) ne]
    have "i \<in> set f2 \<longleftrightarrow> count_master cm j t = 0 \<and> (\<forall>j \<in> set js. cn_Role (node_by_id cm2 j) \<noteq> ''master'')"
    proof (rule Cons.IH [OF K(5) _ _ _ _ _ _ _ _ _ 1(3)])
      show "\<forall>j \<in> set (js @ ks). gget (cm_Nodes cm2) j \<noteq> None" "i \<notin> set (js @ ks)" using Cons.prems(2,3) K(1) by auto
      show "wrap64 (wrap64 (now - cn_PongRecv (node cm2 a)) * 1000000) > cm_NodeTimeout cm2"
        unfolding K(3) O(1) by (rule Cons.prems(7))
    qed (simp_all only: K(1,2) O Cons.prems(4-6,8-10) not_False_eq_True)
    moreover have "cn_Role (node_by_id cm2 x) = cn_Role (node_by_id cm x)" for x using K by (simp add: node_by_id_def)
    ultimately show ?thesis using K(6) ne by (auto simp: 1(4) count_master_def)
  qed
qed

text \<open>
  Property C34: a node can be declared failed on the word of one. The heartbeat compares the number of reports with
  half of the masters counted so far in its walk over the map of nodes, not of all masters. When a node alone
  finds another master silent, and nobody else has reported it, that master's failure is confirmed and
  broadcast if and only if the walk meets it before every other master, however many masters
  there are: the outcome depends on the order in which the map is walked and not on a majority.
\<close>

theorem Heartbeat_minority_fail:
  assumes "cluster_ok cm" and "\<forall>j \<in> set (js @ ks). gget (cm_Nodes cm) j \<noteq> None" and "i \<notin> set (js @ ks)"
    and "gget (cm_Nodes cm) i = Some a" and "cn_Role (node cm a) = ''master''" and "i \<noteq> self_id cm"
    and "wrap64 (wrap64 (now - cn_PongRecv (node cm a)) * 1000000) > cm_NodeTimeout cm"
    and "\<not> cn_PFail (node cm a)" and "\<not> cn_Fail (node cm a)" and "gget (cm_failReports cm) i = None"
    and "heartbeatStep now (js @ i # ks) cm = Some (hb, cm')"
  shows "i \<in> set (hb_Fails hb) \<longleftrightarrow> (\<forall>j \<in> set js. cn_Role (node_by_id cm j) \<noteq> ''master'')"
proof -
  obtain cm1 fs where "audit_loop now (js @ i # ks) 0 cm = Some (cm1, fs)" "hb_Fails hb = fs"
    using assms(11) by (auto simp: heartbeatStep_def split: option.splits prod.splits)
  then show ?thesis using audit_loop_meets [OF _ assms(2-10)] assms(1) by (simp add: cluster_ok_def)
qed

text \<open>One of the two live masters has not heard of the other for five seconds; it meets it first, or after another master.\<close>

theorem Heartbeat_minority_fail_witness:
  "\<exists>hb cm hb' cm'. heartbeatStep 5000 [''master-Y'', ''master-X'', ''master-F''] (sample_cluster 1) = Some (hb, cm) \<and>
     heartbeatStep 5000 [''master-X'', ''master-Y'', ''master-F''] (sample_cluster 1) = Some (hb', cm') \<and>
     ''master-Y'' \<in> set (hb_Fails hb) \<and> ''master-Y'' \<notin> set (hb_Fails hb')"
proof -
  let ?cm = "sample_cluster 1" and ?Y = "''master-Y''"
  have "\<exists>hb cm. heartbeatStep 5000 [?Y, ''master-X'', ''master-F''] ?cm = Some (hb, cm)"
    by (simp add: heartbeatStep_def sample_cluster_def sample_node_def NewNode_def Let_def gget_def
        suspect_def confirm_def upd_node_def add_report_def short_id_def wrap64_def gput_def)
  moreover have "\<exists>hb cm. heartbeatStep 5000 [''master-X'', ?Y, ''master-F''] ?cm = Some (hb, cm)"
    by (simp add: heartbeatStep_def sample_cluster_def sample_node_def NewNode_def Let_def gget_def
        suspect_def confirm_def upd_node_def add_report_def short_id_def wrap64_def gput_def)
  ultimately obtain hb cm hb' cm' where h: "heartbeatStep 5000 [?Y, ''master-X'', ''master-F''] ?cm = Some (hb, cm)"
    "heartbeatStep 5000 [''master-X'', ?Y, ''master-F''] ?cm = Some (hb', cm')" by blast
  have f: "gget (cm_Nodes ?cm) ?Y = Some 2" "gget (cm_Nodes ?cm) ''master-X'' = Some 1" "gget (cm_Nodes ?cm) ''master-F'' = Some 0"
    "cn_Role (node ?cm 2) = ''master''" "cn_Role (node ?cm 1) = ''master''" "self_id ?cm = ''master-X''"
    "wrap64 (wrap64 (5000 - cn_PongRecv (node ?cm 2)) * 1000000) > cm_NodeTimeout ?cm"
    "\<not> cn_PFail (node ?cm 2)" "\<not> cn_Fail (node ?cm 2)" "gget (cm_failReports ?cm) ?Y = None"
    by (simp_all add: sample_cluster_def sample_node_def NewNode_def Let_def gget_def wrap64_def)
  have ok: "cluster_ok ?cm" by (rule cluster_ok_sample) simp
  have "?Y \<in> set (hb_Fails hb)"
    using Heartbeat_minority_fail [OF ok _ _ f(1,4) _ f(7-10), of "[]" "[''master-X'', ''master-F'']" hb cm] h(1) f by simp
  moreover have "?Y \<notin> set (hb_Fails hb')"
    using Heartbeat_minority_fail [OF ok _ _ f(1,4) _ f(7-10), of "[''master-X'']" "[''master-F'']" hb' cm'] h(2) f
    by (simp add: node_by_id_def)
  ultimately show ?thesis using h by blast
qed

text \<open>What \<open>receive\<close> keeps: the known nodes and every identifier.\<close>

lemma sync_keeps:
  "cm_Nodes (sync_slot a p i cm) = cm_Nodes cm" "cm_Self (sync_slot a p i cm) = cm_Self cm"
  "cn_ID (node (sync_slot a p i cm) x) = cn_ID (node cm x)"
  by (simp_all add: sync_slot_def split: option.split)

lemma sync_loop_keeps:
  "cm_Nodes (fold (sync_slot a p) is cm) = cm_Nodes cm" "cm_Self (fold (sync_slot a p) is cm) = cm_Self cm"
  "cn_ID (node (fold (sync_slot a p) is cm) x) = cn_ID (node cm x)"
  by (induction "is" arbitrary: cm) (simp_all add: sync_keeps)

lemma receive_keeps:
  assumes ok: "cluster_ok cm" and a: "gget (cm_Nodes cm) i = Some a"
  shows "gget (cm_Nodes (receive gen now p cm)) i = Some a" and "self_id (receive gen now p cm) = self_id cm"
proof -
  have s: "cm_Self cm < cm_Next cm"
    using ok nodes_ok_known [OF _ known_self] by (auto simp: cluster_ok_def)
  obtain b cm1 where f: "find_sender gen now p cm = (b, cm1)" by fastforce
  have 1: "gget (cm_Nodes cm1) i = Some a" "cm_Self cm1 = cm_Self cm" "cn_ID (node cm1 (cm_Self cm)) = self_id cm"
    using f a s by (auto simp: find_sender_def add_node_def gomap_simps split: option.splits)
  show "gget (cm_Nodes (receive gen now p cm)) i = Some a" and "self_id (receive gen now p cm) = self_id cm"
    using 1 by (auto simp: receive_def f Let_def sync_loop_keeps upd_node_def refresh_def)
qed

text \<open>
  Property C37: a short message on the cluster bus stops a node. A FAIL packet whose sender identifier has fewer
  than eight bytes, naming any other known node, makes the log line's slice panic; the bus takes it from anyone
  who can connect.
\<close>

theorem Bus_short_sender_panics:
  assumes "packet_ok p" and "bp_Type p = TypeFail" and "bp_SenderID p \<noteq> []" and "length (bp_SenderID p) < 8"
    and "cluster_ok cm" and "gget (cm_Nodes cm) (bp_TargetNodeID p) = Some a" and "bp_TargetNodeID p \<noteq> self_id cm"
  shows "handleBusConn gen now (WritePacket p) cm = None"
proof -
  have r: "ReadPacket (WritePacket p) = Inr (p, [])" using ReadPacket_written [OF assms(1), of "[]"] by simp
  have keep: "gget (cm_Nodes (receive gen now p cm)) (bp_TargetNodeID p) = Some a \<and> self_id (receive gen now p cm) = self_id cm"
    using receive_keeps [OF assms(5,6)] by simp
  have "cn_ID (node (receive gen now p cm) a) = bp_TargetNodeID p"
    using cluster_ok_receive [OF assms(5,3), of gen now] keep by (auto simp: cluster_ok_def nodes_ok_def)
  then have "ProcessPacket gen now p cm = None"
    using keep assms(2,4,7)
    by (simp add: ProcessPacket_def Let_def TypeFail_def TypePing_def TypePong_def short_id_def)
  then show ?thesis by (simp add: handleBusConn_def r)
qed

theorem Bus_short_sender_panics_witness:
  "handleBusConn [] 0 (WritePacket ((own_packet TypeFail (sample_cluster 1))\<lparr>bp_SenderID := ''x'', bp_TargetNodeID := ''master-F''\<rparr>))
     (sample_cluster 2) = None"
proof (rule Bus_short_sender_panics)
  show "packet_ok ((own_packet TypeFail (sample_cluster 1))\<lparr>bp_SenderID := ''x'', bp_TargetNodeID := ''master-F''\<rparr>)"
    by (simp add: packet_ok_def own_packet_def text_ok_def sample_cluster_def sample_node_def NewNode_def Let_def char_of_def)
  show "gget (cm_Nodes (sample_cluster 2)) (bp_TargetNodeID ((own_packet TypeFail (sample_cluster 1))\<lparr>bp_SenderID := ''x'', bp_TargetNodeID := ''master-F''\<rparr>)) = Some 0"
    by (simp add: sample_nodes)
qed (simp_all add: cluster_ok_sample own_packet_def sample_self sample_ids)

end
