(* ===== verification/Crc64.thy ===== *)
theory Crc64
  imports Binary
begin

text \<open>
  The checksum of the snapshot files (src/internal/persistence/crc64.go): the table built at start-up and the
  running digest.

  The lemmas show that the table-driven step is eight steps of the bitwise register, that the register loses no
  information, and so that every change confined to eight consecutive bytes changes the checksum.
\<close>

unbundle bit_operations_syntax

section \<open>Definitions\<close>

definition poly :: "64 word" where
  "poly = 0xad93d23594c935a9"

definition crc64_bit :: "64 word \<Rightarrow> 64 word" where
  "crc64_bit crc = (if crc AND 1 \<noteq> 0 then drop_bit 1 crc XOR poly else drop_bit 1 crc)"

definition crc64Table :: "64 word list" where
  "crc64Table = map (\<lambda>i. (crc64_bit ^^ 8) (of_nat i)) [0..<256]"

definition crc64_step :: "char \<Rightarrow> 64 word \<Rightarrow> 64 word" where
  "crc64_step b crc = crc64Table ! unat (take_bit 8 crc XOR of_nat (byte b)) XOR drop_bit 8 crc"

definition UpdateCRC64 :: "64 word \<Rightarrow> string \<Rightarrow> 64 word" where
  "UpdateCRC64 crc p = fold crc64_step p crc"

definition ChecksumCRC64 :: "string \<Rightarrow> 64 word" where
  "ChecksumCRC64 s = UpdateCRC64 0 s"

text \<open>The running digest.\<close>

record Digest =
  dg_crc :: "64 word"

definition NewCRC64 :: Digest where
  "NewCRC64 = \<lparr>dg_crc = 0\<rparr>"

definition Digest_Reset :: "Digest \<Rightarrow> Digest" where
  "Digest_Reset d = d\<lparr>dg_crc := 0\<rparr>"

definition Digest_Write :: "string \<Rightarrow> Digest \<Rightarrow> nat \<times> Digest" where
  "Digest_Write p d = (length p, d\<lparr>dg_crc := UpdateCRC64 (dg_crc d) p\<rparr>)"

definition Sum64 :: "Digest \<Rightarrow> 64 word" where
  "Sum64 d = dg_crc d"

definition Digest_Sum :: "string \<Rightarrow> Digest \<Rightarrow> string" where
  "Digest_Sum s d = s @ PutLE 8 (unat (dg_crc d))"

section \<open>Proofs\<close>

lemma and_1_iff: "(w :: 64 word) AND 1 \<noteq> 0 \<longleftrightarrow> bit w 0"
  using and_exp_eq_0_iff_not_bit [of w 0] by simp

lemma crc64_bit_xor: "crc64_bit (x XOR y) = crc64_bit x XOR crc64_bit y"
  unfolding crc64_bit_def and_1_iff
  by (auto simp: bit_xor_iff drop_bit_xor intro!: bit_word_eqI)

lemma crc64_pow_xor: "(crc64_bit ^^ n) (x XOR y) = (crc64_bit ^^ n) x XOR (crc64_bit ^^ n) y"
  by (induction n) (simp_all add: crc64_bit_xor)

text \<open>A register whose low bits are clear is only shifted.\<close>

lemma crc64_pow_low: "(\<And>k. k < n \<Longrightarrow> \<not> bit x k) \<Longrightarrow> (crc64_bit ^^ n) x = drop_bit n x"
proof (induction n arbitrary: x)
  case (Suc n)
  have "\<not> bit x 0" using Suc.prems by blast
  then have "crc64_bit x = drop_bit 1 x" by (simp add: crc64_bit_def and_1_iff)
  moreover have "(crc64_bit ^^ n) (drop_bit 1 x) = drop_bit n (drop_bit 1 x)"
    using Suc.prems by (intro Suc.IH) (simp add: bit_drop_bit_eq)
  ultimately show ?case by (simp add: funpow_Suc_right del: funpow.simps)
qed simp

text \<open>The top bit of the polynomial is set, so a step can be undone.\<close>

lemma poly_top: "bit poly 63"
  unfolding poly_def by simp

lemma xor_cancel: "(a :: 64 word) XOR c = b XOR c \<Longrightarrow> a = b"
proof -
  assume "a XOR c = b XOR c"
  then have "(a XOR c) XOR c = (b XOR c) XOR c" by (rule arg_cong)
  then show "a = b" by (simp only: xor.assoc xor_self_eq xor.right_neutral)
qed

lemma crc64_bit_inj: "crc64_bit x = crc64_bit y \<Longrightarrow> x = y"
proof -
  assume eq: "crc64_bit x = crc64_bit y"
  have top: "bit (crc64_bit z) 63 \<longleftrightarrow> bit z 0" for z
    using poly_top bit_imp_le_length [of z 64]
    by (auto simp: crc64_bit_def and_1_iff bit_xor_iff bit_drop_bit_eq)
  have low: "bit x 0 \<longleftrightarrow> bit y 0" using top [of x] top [of y] eq by simp
  have "drop_bit 1 x = drop_bit 1 y"
    using eq low xor_cancel unfolding crc64_bit_def and_1_iff by (cases "bit y 0") metis+
  then have high: "bit x (Suc k) \<longleftrightarrow> bit y (Suc k)" for k by (metis One_nat_def bit_drop_bit_eq comp_apply plus_1_eq_Suc)
  show "x = y"
  proof (rule bit_word_eqI)
    fix k show "bit x k \<longleftrightarrow> bit y k" using low high by (cases k) simp_all
  qed
qed

lemma crc64_pow_inj: "(crc64_bit ^^ n) x = (crc64_bit ^^ n) y \<Longrightarrow> x = y"
  by (induction n) (auto dest: crc64_bit_inj)

lemma byte_bits: "bit (of_nat (byte b) :: 64 word) k \<Longrightarrow> k < 8"
proof (rule ccontr)
  assume b: "bit (of_nat (byte b) :: 64 word) k" and k: "\<not> k < 8"
  have "byte b < 2 ^ 8" by simp
  then have "take_bit 8 (of_nat (byte b) :: 64 word) = of_nat (byte b)"
    by (metis of_nat_take_bit take_bit_nat_eq_self_iff)
  then show False using b k by (metis bit_take_bit_iff)
qed

lemma crc64_step_bits: "crc64_step b crc = (crc64_bit ^^ 8) (crc XOR of_nat (byte b))"
proof -
  let ?b = "of_nat (byte b) :: 64 word"
  let ?lo = "take_bit 8 crc XOR ?b" and ?hi = "push_bit 8 (drop_bit 8 crc)"
  have tb: "take_bit 8 ?b = ?b" by (rule bit_word_eqI) (auto simp: bit_take_bit_iff dest: byte_bits)
  have lo: "unat ?lo < 256"
  proof -
    have "take_bit 8 ?lo = ?lo" using tb by (simp add: take_bit_xor)
    then have "unat ?lo < 2 ^ 8" by (metis take_bit_nat_less_exp unsigned_take_bit_eq)
    then show ?thesis by simp
  qed
  have "crc XOR ?b = ?lo XOR ?hi"
    by (rule bit_word_eqI) (auto simp: bit_xor_iff bit_take_bit_iff bit_push_bit_iff bit_drop_bit_eq)
  then have "(crc64_bit ^^ 8) (crc XOR ?b) = (crc64_bit ^^ 8) ?lo XOR (crc64_bit ^^ 8) ?hi" by (simp only: crc64_pow_xor)
  moreover have "(crc64_bit ^^ 8) ?hi = drop_bit 8 ?hi" by (rule crc64_pow_low) (simp add: bit_push_bit_iff)
  moreover have "drop_bit 8 ?hi = drop_bit 8 crc"
    by (rule bit_word_eqI) (auto simp: bit_drop_bit_eq bit_push_bit_iff dest: bit_imp_le_length)
  moreover have "crc64Table ! unat ?lo = (crc64_bit ^^ 8) ?lo" using lo by (simp add: crc64Table_def)
  ultimately show ?thesis by (simp add: crc64_step_def)
qed

lemma UpdateCRC64_inj: "UpdateCRC64 c p = UpdateCRC64 d p \<Longrightarrow> c = d"
proof (induction p arbitrary: c d)
  case (Cons b p)
  then have "crc64_step b c = crc64_step b d" by (simp add: UpdateCRC64_def)
  then have "c XOR of_nat (byte b) = d XOR of_nat (byte b)" unfolding crc64_step_bits by (rule crc64_pow_inj)
  then show ?case by (rule xor_cancel)
qed (simp add: UpdateCRC64_def)

text \<open>Up to eight bytes together: they enter the register as one little-endian number.\<close>

lemma LE_less: "LE w < 256 ^ length w"
proof (induction w)
  case (Cons c w)
  have "byte c < 256" by simp
  moreover have "LE w + 1 \<le> 256 ^ length w" using Cons by simp
  then have "256 * LE w + 256 \<le> 256 * 256 ^ length w" by (metis add_mult_distrib2 mult.right_neutral mult_le_mono2)
  ultimately have "byte c + 256 * LE w < 256 * 256 ^ length w" by linarith
  then show ?case by simp
qed simp

lemma LE_inj: "length v = length w \<Longrightarrow> LE v = LE w \<Longrightarrow> v = w"
proof (induction v w rule: list_induct2)
  case (Cons c v d w)
  have e: "byte c + 256 * LE v = byte d + 256 * LE w" using Cons.prems by simp
  have "byte c < 256" "byte d < 256" by simp_all
  then have "byte c = byte d" using arg_cong [OF e, where f = "\<lambda>n. n mod 256"] by simp
  then show ?case using Cons.IH e by simp
qed simp

lemma LE_Cons_xor:
  assumes "length w < 8"
  shows "(of_nat (LE (b # w)) :: 64 word) = of_nat (byte b) XOR push_bit 8 (of_nat (LE w))"
    and "drop_bit 8 (push_bit 8 (of_nat (LE w) :: 64 word)) = of_nat (LE w)"
proof -
  have "of_nat (byte b) AND push_bit 8 (of_nat (LE w) :: 64 word) = 0"
    by (rule bit_word_eqI) (auto simp: bit_and_iff bit_push_bit_iff dest: byte_bits)
  then have "of_nat (byte b) + push_bit 8 (of_nat (LE w) :: 64 word) = of_nat (byte b) XOR push_bit 8 (of_nat (LE w))"
    by (rule disjunctive_add_eq_xor)
  then show "(of_nat (LE (b # w)) :: 64 word) = of_nat (byte b) XOR push_bit 8 (of_nat (LE w))"
    by (simp add: push_bit_eq_mult mult.commute)
  have "LE w < 256 ^ 7" using LE_less [of w] assms power_increasing [of "length w" 7 "256 :: nat"] by simp
  then have "LE w < 2 ^ 56" by simp
  then have "take_bit 56 (of_nat (LE w) :: 64 word) = of_nat (LE w)"
    by (metis of_nat_take_bit take_bit_nat_eq_self_iff)
  then have "\<not> bit (of_nat (LE w) :: 64 word) k" if "\<not> k < 56" for k using that by (metis bit_take_bit_iff)
  then show "drop_bit 8 (push_bit 8 (of_nat (LE w) :: 64 word)) = of_nat (LE w)"
    by (intro bit_word_eqI) (auto simp: bit_drop_bit_eq bit_push_bit_iff)
qed

lemma UpdateCRC64_window:
  "length w \<le> 8 \<Longrightarrow> UpdateCRC64 c w = (crc64_bit ^^ (8 * length w)) (c XOR of_nat (LE w))"
proof (induction w arbitrary: c)
  case (Cons b w)
  let ?w = "of_nat (LE w) :: 64 word"
  have low: "(crc64_bit ^^ 8) (push_bit 8 ?w) = ?w"
    using crc64_pow_low [of 8 "push_bit 8 ?w"] LE_Cons_xor(2) [of w] Cons.prems by (simp add: bit_push_bit_iff)
  have "UpdateCRC64 c (b # w) = UpdateCRC64 ((crc64_bit ^^ 8) (c XOR of_nat (byte b))) w"
    by (simp add: UpdateCRC64_def crc64_step_bits)
  also have "\<dots> = (crc64_bit ^^ (8 * length w)) ((crc64_bit ^^ 8) (c XOR of_nat (byte b)) XOR ?w)"
    using Cons by simp
  also have "(crc64_bit ^^ 8) (c XOR of_nat (byte b)) XOR ?w = (crc64_bit ^^ 8) ((c XOR of_nat (byte b)) XOR push_bit 8 ?w)"
    by (subst (2) crc64_pow_xor) (simp only: low)
  also have "(c XOR of_nat (byte b)) XOR push_bit 8 ?w = c XOR of_nat (LE (b # w))"
    using LE_Cons_xor(1) [of w b] Cons.prems by (simp add: xor.assoc)
  finally show ?case using funpow_add [of "8 * length w" 8 crc64_bit] by (simp only: list.size o_apply mult_Suc_right) (simp add: add.commute)
qed (simp add: UpdateCRC64_def)

lemma UpdateCRC64_append: "UpdateCRC64 c (p @ q) = UpdateCRC64 (UpdateCRC64 c p) q"
  by (simp add: UpdateCRC64_def)

lemma UpdateCRC64_burst:
  assumes "length v = length w" "length w \<le> 8" "v \<noteq> w"
  shows "UpdateCRC64 c (p @ v @ q) \<noteq> UpdateCRC64 c (p @ w @ q)"
proof
  let ?c = "UpdateCRC64 c p"
  assume "UpdateCRC64 c (p @ v @ q) = UpdateCRC64 c (p @ w @ q)"
  then have "UpdateCRC64 ?c v = UpdateCRC64 ?c w" unfolding UpdateCRC64_append by (rule UpdateCRC64_inj)
  then have "?c XOR of_nat (LE v) = ?c XOR of_nat (LE w)"
    using assms by (simp only: UpdateCRC64_window) (rule crc64_pow_inj)
  then have "(of_nat (LE v) :: 64 word) = of_nat (LE w)" by (metis xor.commute xor_cancel)
  moreover
  have "LE x < 2 ^ 64" if "length x \<le> 8" for x
    using LE_less [of x] that power_increasing [of "length x" 8 "256 :: nat"] by simp
  then have "unat (of_nat (LE x) :: 64 word) = LE x" if "length x \<le> 8" for x using that by (simp add: unat_of_nat)
  ultimately have "LE v = LE w" using assms by metis
  then show False using LE_inj assms by blast
qed

end
