(* ===== verification/Rdb.thy ===== *)
theory Rdb
  imports Crc64 Skiplist
begin

text \<open>
  The snapshot files (src/internal/persistence/rdb.go): the value encodings, \<open>SaveRDB\<close>, \<open>LoadRDB\<close> and
  the manager that runs them. A file is its bytes; writes to it are taken to succeed. \<open>LoadRDB\<close> gives
  the entries it hands to its handler, in order, beside its result, since it calls the handler before it knows
  the checksum; the engine's handler never fails. A length too large to allocate is a panic.

  The lemmas show that a snapshot is read back exactly and that the checksum finds every change of up to eight
  consecutive bytes.
\<close>

section \<open>Definitions\<close>

definition RDBMagicHeader :: string where "RDBMagicHeader = ''REDIS0009''"

definition OpcodeAUX :: char where "OpcodeAUX = CHR 0xFA"
definition OpcodeRESIZEDB :: char where "OpcodeRESIZEDB = CHR 0xFB"
definition OpcodeEXPIRETIMEMS :: char where "OpcodeEXPIRETIMEMS = CHR 0xFC"
definition OpcodeEXPIRETIME :: char where "OpcodeEXPIRETIME = CHR 0xFD"
definition OpcodeSELECTDB :: char where "OpcodeSELECTDB = CHR 0xFE"
definition OpcodeEOF :: char where "OpcodeEOF = CHR 0xFF"

definition RDBTypeString :: char where "RDBTypeString = CHR 0x00"
definition RDBTypeList :: char where "RDBTypeList = CHR 0x01"
definition RDBTypeSet :: char where "RDBTypeSet = CHR 0x02"
definition RDBTypeZSet :: char where "RDBTypeZSet = CHR 0x03"
definition RDBTypeHash :: char where "RDBTypeHash = CHR 0x04"
definition RDBTypeStream :: char where "RDBTypeStream = CHR 0x06"
definition RDBTypeVector :: char where "RDBTypeVector = CHR 0xF0"

datatype rdb_error =
    RdbRead read_error
  | RdbPanic
  | RdbTooShort
  | ErrInvalidRDBHeader
  | ErrCRCMismatch
  | ErrUnsupportedRDBType

type_synonym field_map = "(string, string) gomap"

datatype rdb_value =
    RvString string
  | RvItems "string list"
  | RvFields field_map
  | RvZSet "(float64 \<times> string) list"
  | RvStream "(string \<times> field_map) list"
  | RvVector int "(string, 32 word list) gomap"

record RDBEntry =
  re_Key :: string
  re_Type :: char
  re_ExpiresAt :: int
  re_Value :: rdb_value

subsection \<open>Encodings\<close>

definition writeVarint :: "nat \<Rightarrow> string" where
  "writeVarint n = PutUvarint n"

definition readVarint :: "string \<Rightarrow> rdb_error + nat \<times> string" where
  "readVarint r = (case ReadUvarint r of (Inl e, _) \<Rightarrow> Inl (RdbRead e) | (Inr n, r) \<Rightarrow> Inr (n, r))"

definition writeString :: "string \<Rightarrow> string" where
  "writeString s = writeVarint (length s) @ s"

text \<open>The largest allocation; \<open>make\<close> panics above it.\<close>

definition maxAlloc :: nat where
  "maxAlloc = 2 ^ 48"

definition readString :: "string \<Rightarrow> rdb_error + string \<times> string" where
  "readString r =
     (case readVarint r of
        Inl e \<Rightarrow> Inl e
      | Inr (n, r) \<Rightarrow>
          if n > maxAlloc then Inl RdbPanic
          else case read_full n r of Inl e \<Rightarrow> Inl (RdbRead e) | Inr (buf, r) \<Rightarrow> Inr (buf, r))"

text \<open>A count, and that many items read by \<open>dec\<close> into a slice whose elements take \<open>sz\<close> bytes (a map has \<open>sz = 0\<close>).\<close>

definition read_counted :: "nat \<Rightarrow> (string \<Rightarrow> rdb_error + 'a \<times> string) \<Rightarrow> string \<Rightarrow> rdb_error + 'a list \<times> string" where
  "read_counted sz dec r =
     (case readVarint r of
        Inl e \<Rightarrow> Inl e
      | Inr (n, r) \<Rightarrow> if n * sz > maxAlloc then Inl RdbPanic else decode_n dec n r)"

definition write_counted :: "('a \<Rightarrow> string) \<Rightarrow> 'a list \<Rightarrow> string" where
  "write_counted enc xs = writeVarint (length xs) @ concat (map enc xs)"

definition and_then ::
  "(string \<Rightarrow> rdb_error + 'a \<times> string) \<Rightarrow> (string \<Rightarrow> rdb_error + 'b \<times> string) \<Rightarrow> string \<Rightarrow> rdb_error + ('a \<times> 'b) \<times> string" where
  "and_then da db r =
     (case da r of
        Inl e \<Rightarrow> Inl e
      | Inr (a, r) \<Rightarrow> (case db r of Inl e \<Rightarrow> Inl e | Inr (b, r) \<Rightarrow> Inr ((a, b), r)))"

definition write_pair :: "string \<times> string \<Rightarrow> string" where
  "write_pair = (\<lambda>(f, v). writeString f @ writeString v)"

definition read_pair :: "string \<Rightarrow> rdb_error + (string \<times> string) \<times> string" where
  "read_pair = and_then readString readString"

text \<open>Pairs read into a map.\<close>

definition to_map :: "('k \<times> 'v) list \<Rightarrow> ('k, 'v) gomap" where
  "to_map kvs = fold (\<lambda>(k, v). gput k v) kvs []"

definition read_fields :: "string \<Rightarrow> rdb_error + field_map \<times> string" where
  "read_fields r = (case read_counted 0 read_pair r of Inl e \<Rightarrow> Inl e | Inr (kvs, r) \<Rightarrow> Inr (to_map kvs, r))"

definition write_bits :: "nat \<Rightarrow> 'w::len word \<Rightarrow> string" where
  "write_bits n w = PutLE n (unat w)"

definition read_bits :: "nat \<Rightarrow> string \<Rightarrow> rdb_error + 'w::len word \<times> string" where
  "read_bits n r = (case read_full n r of Inl e \<Rightarrow> Inl (RdbRead e) | Inr (b, r) \<Rightarrow> Inr (of_nat (LE b), r))"

definition write_zitem :: "float64 \<times> string \<Rightarrow> string" where
  "write_zitem = (\<lambda>(score, member). write_bits 8 score @ writeString member)"

definition read_zitem :: "string \<Rightarrow> rdb_error + (float64 \<times> string) \<times> string" where
  "read_zitem = and_then (read_bits 8) readString"

definition write_sitem :: "string \<times> field_map \<Rightarrow> string" where
  "write_sitem = (\<lambda>(ident, fs). writeString ident @ write_counted write_pair fs)"

definition read_sitem :: "string \<Rightarrow> rdb_error + (string \<times> field_map) \<times> string" where
  "read_sitem = and_then readString read_fields"

definition write_vec :: "string \<times> 32 word list \<Rightarrow> string" where
  "write_vec = (\<lambda>(ident, vec). writeString ident @ concat (map (write_bits 4) vec))"

definition read_floats :: "nat \<Rightarrow> string \<Rightarrow> rdb_error + 32 word list \<times> string" where
  "read_floats dim r = (if dim * 4 > maxAlloc then Inl RdbPanic else decode_n (read_bits 4) dim r)"

definition read_vec :: "nat \<Rightarrow> string \<Rightarrow> rdb_error + (string \<times> 32 word list) \<times> string" where
  "read_vec dim = and_then readString (read_floats dim)"

definition encodeValue :: "char \<Rightarrow> rdb_value \<Rightarrow> rdb_error + string" where
  "encodeValue valType val =
     (case val of
        RvString s \<Rightarrow> if valType = RDBTypeString then Inr (writeString s) else Inl ErrUnsupportedRDBType
      | RvItems xs \<Rightarrow>
          if valType = RDBTypeList \<or> valType = RDBTypeSet then Inr (write_counted writeString xs)
          else Inl ErrUnsupportedRDBType
      | RvFields fs \<Rightarrow> if valType = RDBTypeHash then Inr (write_counted write_pair fs) else Inl ErrUnsupportedRDBType
      | RvZSet zs \<Rightarrow> if valType = RDBTypeZSet then Inr (write_counted write_zitem zs) else Inl ErrUnsupportedRDBType
      | RvStream ss \<Rightarrow> if valType = RDBTypeStream then Inr (write_counted write_sitem ss) else Inl ErrUnsupportedRDBType
      | RvVector dim vs \<Rightarrow>
          if valType = RDBTypeVector then Inr (writeVarint (uint64_of dim) @ write_counted write_vec vs)
          else Inl ErrUnsupportedRDBType)"

definition map_value :: "('a \<Rightarrow> 'b) \<Rightarrow> rdb_error + 'a \<times> string \<Rightarrow> rdb_error + 'b \<times> string" where
  "map_value f r = (case r of Inl e \<Rightarrow> Inl e | Inr (a, r) \<Rightarrow> Inr (f a, r))"

definition decodeValue :: "char \<Rightarrow> string \<Rightarrow> rdb_error + rdb_value \<times> string" where
  "decodeValue valType r =
     (if valType = RDBTypeString then map_value RvString (readString r)
      else if valType = RDBTypeList \<or> valType = RDBTypeSet then map_value RvItems (read_counted 16 readString r)
      else if valType = RDBTypeHash then map_value RvFields (read_fields r)
      else if valType = RDBTypeZSet then map_value RvZSet (read_counted 24 read_zitem r)
      else if valType = RDBTypeStream then map_value RvStream (read_counted 24 read_sitem r)
      else if valType = RDBTypeVector then
        (case readVarint r of
           Inl e \<Rightarrow> Inl e
         | Inr (dim, r) \<Rightarrow> map_value (\<lambda>vs. RvVector (int64_of dim) (to_map vs)) (read_counted 0 (read_vec dim) r))
      else Inl ErrUnsupportedRDBType)"

subsection \<open>Saving\<close>

definition re_expired :: "int \<Rightarrow> RDBEntry \<Rightarrow> bool" where
  "re_expired now e \<longleftrightarrow> re_ExpiresAt e > 0 \<and> re_ExpiresAt e \<le> now"

definition expire_prefix :: "RDBEntry \<Rightarrow> string" where
  "expire_prefix e =
     (if re_ExpiresAt e > 0 then OpcodeEXPIRETIMEMS # PutLE 8 (uint64_of (re_ExpiresAt e)) else [])"

fun encode_entries :: "RDBEntry list \<Rightarrow> rdb_error + string" where
  "encode_entries [] = Inr []"
| "encode_entries (e # es) =
     (case encodeValue (re_Type e) (re_Value e) of
        Inl err \<Rightarrow> Inl err
      | Inr v \<Rightarrow>
          (case encode_entries es of
             Inl err \<Rightarrow> Inl err
           | Inr out \<Rightarrow> Inr (expire_prefix e @ [re_Type e] @ writeString (re_Key e) @ v @ out)))"

definition rdb_payload :: "int \<Rightarrow> RDBEntry list \<Rightarrow> field_map \<Rightarrow> rdb_error + string" where
  "rdb_payload now entries aux =
     (let validEntries = filter (\<lambda>e. \<not> re_expired now e) entries;
          expireCount = length (filter (\<lambda>e. re_ExpiresAt e > 0) validEntries)
      in case encode_entries validEntries of
           Inl err \<Rightarrow> Inl err
         | Inr out \<Rightarrow>
             Inr (RDBMagicHeader @
                  concat (map (\<lambda>(k, v). OpcodeAUX # writeString k @ writeString v) aux) @
                  [OpcodeSELECTDB] @ writeVarint 0 @
                  [OpcodeRESIZEDB] @ writeVarint (length validEntries) @ writeVarint expireCount @
                  out @ [OpcodeEOF]))"

definition SaveRDB :: "int \<Rightarrow> RDBEntry list \<Rightarrow> field_map \<Rightarrow> rdb_error + string" where
  "SaveRDB now entries aux =
     (case rdb_payload now entries aux of
        Inl err \<Rightarrow> Inl err
      | Inr payload \<Rightarrow> Inr (payload @ PutLE 8 (unat (Sum64 (snd (Digest_Write payload NewCRC64))))))"

subsection \<open>Loading\<close>

text \<open>The time limit of a record and the byte after it.\<close>

definition read_expiry :: "char \<Rightarrow> string \<Rightarrow> rdb_error + (int \<times> char) \<times> string" where
  "read_expiry b r =
     (let limit_then = (\<lambda>n f r. case read_full n r of
              Inl e \<Rightarrow> Inl (RdbRead e)
            | Inr (bs, r) \<Rightarrow> (case read_byte r of Inl e \<Rightarrow> Inl (RdbRead e) | Inr (b, r) \<Rightarrow> Inr ((f (LE bs), b), r)))
      in if b = OpcodeEXPIRETIME then limit_then 4 (\<lambda>sec. int sec * 1000) r
         else if b = OpcodeEXPIRETIMEMS then limit_then 8 int64_of r
         else Inr ((0, b), r))"

definition read_entry :: "char \<Rightarrow> string \<Rightarrow> rdb_error + RDBEntry \<times> string" where
  "read_entry b r =
     (case read_expiry b r of
        Inl e \<Rightarrow> Inl e
      | Inr ((expiresAt, valType), r) \<Rightarrow>
          map_value (\<lambda>(key, val). \<lparr>re_Key = key, re_Type = valType, re_ExpiresAt = expiresAt, re_Value = val\<rparr>)
            (and_then readString (decodeValue valType) r))"

text \<open>A reader that never grows its input.\<close>

definition shrinks :: "(string \<Rightarrow> rdb_error + 'a \<times> string) \<Rightarrow> bool" where
  "shrinks dec \<longleftrightarrow> (\<forall>r x r'. dec r = Inr (x, r') \<longrightarrow> length r' \<le> length r)"

lemma length_uvarint: "length (snd (uvarint_loop i x r)) \<le> length r"
proof (induction i x r rule: uvarint_loop.induct)
  case (1 i x r)
  show ?case
  proof (cases r)
    case (Cons c cs)
    then show ?thesis using 1 [of c cs] by (subst uvarint_loop.simps) (auto intro: le_SucI)
  qed (subst uvarint_loop.simps, simp)
qed

lemma length_ReadUvarint: "length (snd (ReadUvarint r)) \<le> length r"
  unfolding ReadUvarint_def by (rule length_uvarint)

lemma shrinks_readVarint: "shrinks readVarint"
  unfolding shrinks_def readVarint_def
  by (auto split: prod.splits sum.splits) (metis length_ReadUvarint snd_conv)

lemma shrinks_readString: "shrinks readString"
  using shrinks_readVarint unfolding shrinks_def readString_def
  by (fastforce simp: read_full_def split: prod.splits sum.splits if_splits)

lemma shrinks_decode_n: "shrinks dec \<Longrightarrow> shrinks (decode_n dec n)"
proof (induction n)
  case (Suc n)
  then show ?case unfolding shrinks_def by (fastforce split: sum.splits prod.splits)
qed (simp add: shrinks_def)

lemma shrinks_counted: "shrinks dec \<Longrightarrow> shrinks (read_counted sz dec)"
  using shrinks_readVarint shrinks_decode_n [of dec] unfolding shrinks_def read_counted_def
  by (fastforce split: sum.splits prod.splits if_splits)

lemma shrinks_and_then: "shrinks da \<Longrightarrow> shrinks db \<Longrightarrow> shrinks (and_then da db)"
  unfolding shrinks_def and_then_def by (fastforce split: sum.splits prod.splits)

lemma shrinks_bits: "shrinks (read_bits n)"
  unfolding shrinks_def read_bits_def by (auto simp: read_full_def split: sum.splits prod.splits if_splits)

lemma shrinks_floats: "shrinks (read_floats dim)"
  using shrinks_decode_n [OF shrinks_bits, where n = dim] unfolding shrinks_def read_floats_def by auto

lemma shrinks_map_value: "shrinks dec \<Longrightarrow> shrinks (\<lambda>r. map_value f (dec r))"
  unfolding shrinks_def map_value_def by (auto split: sum.splits)

lemma shrinks_read_pair: "shrinks read_pair"
  unfolding read_pair_def by (rule shrinks_and_then [OF shrinks_readString shrinks_readString])

lemma shrinks_fields: "shrinks read_fields"
  using shrinks_counted [OF shrinks_read_pair, of 0] unfolding shrinks_def read_fields_def by (fastforce split: sum.splits)

lemma shrinks_items: "shrinks read_zitem" "shrinks read_sitem" "shrinks (read_vec dim)"
  unfolding read_zitem_def read_sitem_def read_vec_def
  by (intro shrinks_and_then shrinks_readString shrinks_fields shrinks_bits shrinks_floats)+

lemma shrinks_if: "shrinks f \<Longrightarrow> shrinks g \<Longrightarrow> shrinks (\<lambda>r. if b then f r else g r)"
  by (simp add: shrinks_def)

lemma shrinks_error: "shrinks (\<lambda>_. Inl e)"
  by (simp add: shrinks_def)

lemma shrinks_decodeValue: "shrinks (decodeValue t)"
proof -
  have v: "shrinks (\<lambda>r. case readVarint r of Inl e \<Rightarrow> Inl e | Inr (dim, r) \<Rightarrow>
      map_value (\<lambda>vs. RvVector (int64_of dim) (to_map vs)) (read_counted 0 (read_vec dim) r))"
    using shrinks_readVarint shrinks_map_value [OF shrinks_counted [OF shrinks_items(3)]] unfolding shrinks_def
    by (fastforce split: sum.splits)
  note parts = shrinks_map_value [OF shrinks_readString] shrinks_map_value [OF shrinks_fields]
    shrinks_map_value [OF shrinks_counted [OF shrinks_readString]]
    shrinks_map_value [OF shrinks_counted [OF shrinks_items(1)]]
    shrinks_map_value [OF shrinks_counted [OF shrinks_items(2)]]
  show ?thesis
    unfolding decodeValue_def [abs_def] by (intro shrinks_if parts v shrinks_error)
qed

lemma length_read_expiry: "read_expiry b r = Inr (x, r') \<Longrightarrow> length r' \<le> length r"
  unfolding read_expiry_def Let_def
  by (auto simp: read_full_def read_byte_def split: sum.splits prod.splits if_splits list.splits)
     (metis diff_le_self length_Cons length_drop le_trans le_SucI order_refl)+

lemma length_read_entry: "read_entry b r = Inr (e, r') \<Longrightarrow> length r' \<le> length r"
proof -
  assume e: "read_entry b r = Inr (e, r')"
  then obtain x t r1 where 1: "read_expiry b r = Inr ((x, t), r1)" by (auto simp: read_entry_def split: sum.splits)
  then obtain kv where "and_then readString (decodeValue t) r1 = Inr (kv, r')"
    using e by (auto simp: read_entry_def map_value_def split: sum.splits)
  then have "length r' \<le> length r1"
    using shrinks_and_then [OF shrinks_readString shrinks_decodeValue] unfolding shrinks_def by blast
  then show ?thesis using length_read_expiry [OF 1] by simp
qed

text \<open>The loop over the records.\<close>

function load_loop :: "int \<Rightarrow> field_map \<Rightarrow> string \<Rightarrow> RDBEntry list \<times> (rdb_error + field_map)" where
  "load_loop now aux r =
     (case r of
        [] \<Rightarrow> ([], Inr aux)
      | b # r \<Rightarrow>
          if b = OpcodeEOF then ([], Inr aux)
          else if b = OpcodeAUX then
            (case read_pair r of
               Inl e \<Rightarrow> ([], Inl e)
             | Inr ((k, v), r) \<Rightarrow> load_loop now (gput k v aux) r)
          else if b = OpcodeSELECTDB then load_loop now aux (snd (ReadUvarint r))
          else if b = OpcodeRESIZEDB then load_loop now aux (snd (ReadUvarint (snd (ReadUvarint r))))
          else
            (case read_entry b r of
               Inl e \<Rightarrow> ([], Inl e)
             | Inr (entry, r) \<Rightarrow>
                 (case load_loop now aux r of
                    (es, res) \<Rightarrow> (if re_expired now entry then es else entry # es, res))))"
  by pat_completeness auto

termination
proof (relation "measure (\<lambda>(now, aux, r). length r)", goal_cases)
  case (2 now aux r b r' y kv r'' k v)
  then show ?case using shrinks_read_pair by (auto simp: shrinks_def less_Suc_eq_le)
next
  case (3 now aux r b r')
  then show ?case using length_ReadUvarint [of r'] by (simp add: less_Suc_eq_le)
next
  case (4 now aux r b r')
  then show ?case
    using length_ReadUvarint [of r'] length_ReadUvarint [of "snd (ReadUvarint r')"] by (simp add: less_Suc_eq_le)
next
  case (5 now aux r b r' y e r'')
  then show ?case using length_read_entry [of b r' e r''] by (simp add: less_Suc_eq_le)
qed simp

declare load_loop.simps [simp del]

definition LoadRDB :: "int \<Rightarrow> string \<Rightarrow> RDBEntry list \<times> (rdb_error + field_map)" where
  "LoadRDB now file =
     (if length file < 18 then ([], Inl RdbTooShort)
      else
        let payload = take (length file - 8) file in
        if take 5 payload \<noteq> ''REDIS'' then ([], Inl ErrInvalidRDBHeader)
        else case load_loop now [] (drop 9 payload) of
          (es, Inl e) \<Rightarrow> (es, Inl e)
        | (es, Inr aux) \<Rightarrow>
            (let expectedCRC = LE (drop (length file - 8) file);
                 actualCRC = unat (Sum64 (snd (Digest_Write payload NewCRC64)))
             in if expectedCRC \<noteq> 0 \<and> actualCRC \<noteq> expectedCRC then (es, Inl ErrCRCMismatch) else (es, Inr aux)))"

subsection \<open>The manager\<close>

text \<open>
  The manager with the file it writes. A save reads the clock for the time of the save; a background save
  is its start and its end, between which other steps may happen.
\<close>

record RDBManager =
  rm_path :: string
  rm_file :: "string option"
  rm_lastSaveTime :: int
  rm_lastBgSaveStatus :: string
  rm_bgInProgress :: bool

definition NewRDBManager :: "int \<Rightarrow> string \<Rightarrow> string option \<Rightarrow> RDBManager" where
  "NewRDBManager unixTime path file =
     \<lparr>rm_path = (if path = [] then ''dump.rdb'' else path), rm_file = file, rm_lastSaveTime = unixTime,
      rm_lastBgSaveStatus = ''ok'', rm_bgInProgress = False\<rparr>"

definition rm_Save :: "int \<Rightarrow> int \<Rightarrow> RDBEntry list \<Rightarrow> field_map \<Rightarrow> RDBManager \<Rightarrow> rdb_error option \<times> RDBManager" where
  "rm_Save now unixTime entries aux rm =
     (case SaveRDB now entries aux of
        Inl e \<Rightarrow> (Some e, rm\<lparr>rm_lastBgSaveStatus := ''err''\<rparr>)
      | Inr file \<Rightarrow> (None, rm\<lparr>rm_file := Some file, rm_lastSaveTime := unixTime, rm_lastBgSaveStatus := ''ok''\<rparr>))"

definition BgSave_start :: "RDBManager \<Rightarrow> RDBManager option" where
  "BgSave_start rm = (if rm_bgInProgress rm then None else Some (rm\<lparr>rm_bgInProgress := True\<rparr>))"

definition BgSave_finish :: "int \<Rightarrow> int \<Rightarrow> RDBEntry list \<Rightarrow> field_map \<Rightarrow> RDBManager \<Rightarrow> RDBManager" where
  "BgSave_finish now unixTime entries aux rm = (snd (rm_Save now unixTime entries aux rm))\<lparr>rm_bgInProgress := False\<rparr>"

section \<open>Round trip\<close>

text \<open>Every encoder and its reader meet the \<open>codec\<close> contract.\<close>

definition str_ok :: "string \<Rightarrow> bool" where
  "str_ok s \<longleftrightarrow> length s \<le> maxAlloc"

lemma readVarint_write [codec_simps]: "n < 2 ^ 64 \<Longrightarrow> readVarint (writeVarint n @ r) = Inr (n, r)"
  by (simp add: readVarint_def writeVarint_def ReadUvarint_PutUvarint)

interpretation string_codec: codec writeString readString str_ok
  by unfold_locales (simp add: readString_def writeString_def str_ok_def maxAlloc_def codec_simps)

definition pair_ok :: "string \<times> string \<Rightarrow> bool" where
  "pair_ok = (\<lambda>(k, v). str_ok k \<and> str_ok v)"

interpretation pair_codec: codec write_pair read_pair pair_ok
  by unfold_locales (auto simp: write_pair_def read_pair_def and_then_def pair_ok_def string_codec.dec_enc)

lemma read_bits_write [codec_simps]:
  "2 ^ LENGTH('w::len) = (256 :: nat) ^ n \<Longrightarrow> read_bits n (write_bits n (w :: 'w word) @ r) = Inr (w, r)"
  using unsigned_less [of w, where ?'a = nat] by (simp add: read_bits_def write_bits_def LE_PutLE)

definition zitem_ok :: "float64 \<times> string \<Rightarrow> bool" where
  "zitem_ok = (\<lambda>(_, m). str_ok m)"

interpretation zitem_codec: codec write_zitem read_zitem zitem_ok
  by unfold_locales
     (auto simp: write_zitem_def read_zitem_def and_then_def zitem_ok_def string_codec.dec_enc codec_simps)

lemma to_map_id: "gomap_ok m \<Longrightarrow> to_map m = m"
proof -
  have *: "distinct (map fst (acc @ m)) \<Longrightarrow> fold (\<lambda>(k, v). gput k v) m acc = acc @ m" for acc
  proof (induction m arbitrary: acc)
    case (Cons kv m)
    have "k \<notin> fst ` set acc \<Longrightarrow> AList.update k v acc = acc @ [(k, v)]" for k v by (induction acc) auto
    then show ?case using Cons.IH [of "acc @ [kv]"] Cons.prems by (cases kv) (auto simp: gput_def)
  qed simp
  show "gomap_ok m \<Longrightarrow> to_map m = m" unfolding to_map_def gomap_ok_def using * [of "[]"] by simp
qed

lemma read_counted_write:
  assumes "codec enc dec ok" "list_all ok xs" "length xs < 2 ^ 64" "length xs * sz \<le> maxAlloc"
  shows "read_counted sz dec (write_counted enc xs @ r) = Inr (xs, r)"
  using codec.decode_n_concat [OF assms(1,2)] assms(3,4) by (simp add: read_counted_def write_counted_def codec_simps)

definition fields_ok :: "field_map \<Rightarrow> bool" where
  "fields_ok m \<longleftrightarrow> gomap_ok m \<and> list_all pair_ok m \<and> length m < 2 ^ 64"

interpretation fields_codec: codec "write_counted write_pair" read_fields fields_ok
  by unfold_locales
     (simp add: read_fields_def fields_ok_def to_map_id read_counted_write [OF pair_codec.codec_axioms])

definition sitem_ok :: "string \<times> field_map \<Rightarrow> bool" where
  "sitem_ok = (\<lambda>(i, m). str_ok i \<and> fields_ok m)"

interpretation sitem_codec: codec write_sitem read_sitem sitem_ok
  by unfold_locales
     (auto simp: write_sitem_def read_sitem_def and_then_def sitem_ok_def string_codec.dec_enc fields_codec.dec_enc)

interpretation float_codec: codec "write_bits 4 :: 32 word \<Rightarrow> string" "read_bits 4" "\<lambda>_. True"
  by unfold_locales (simp add: codec_simps)

definition vec_ok :: "nat \<Rightarrow> string \<times> 32 word list \<Rightarrow> bool" where
  "vec_ok dim = (\<lambda>(i, v). str_ok i \<and> length v = dim \<and> dim * 4 \<le> maxAlloc)"

interpretation vec_codec: codec write_vec "read_vec dim" "vec_ok dim"
proof
  fix x :: "string \<times> 32 word list" and rest
  assume ok: "vec_ok dim x"
  obtain i v where x: "x = (i, v)" by force
  have "list_all (\<lambda>_. True) v" by (simp add: list_all_iff)
  from float_codec.decode_n_concat [OF this, of rest]
  show "read_vec dim (write_vec x @ rest) = Inr (x, rest)"
    using ok by (simp add: x vec_ok_def write_vec_def read_vec_def and_then_def string_codec.dec_enc read_floats_def)
qed

definition value_fits :: "char \<Rightarrow> rdb_value \<Rightarrow> bool" where
  "value_fits t v =
     (case v of
        RvString s \<Rightarrow> t = RDBTypeString \<and> str_ok s
      | RvItems xs \<Rightarrow> (t = RDBTypeList \<or> t = RDBTypeSet) \<and> list_all str_ok xs \<and> length xs * 16 \<le> maxAlloc
      | RvFields m \<Rightarrow> t = RDBTypeHash \<and> fields_ok m
      | RvZSet zs \<Rightarrow> t = RDBTypeZSet \<and> list_all zitem_ok zs \<and> length zs * 24 \<le> maxAlloc
      | RvStream ss \<Rightarrow> t = RDBTypeStream \<and> list_all sitem_ok ss \<and> length ss * 24 \<le> maxAlloc
      | RvVector dim vs \<Rightarrow> t = RDBTypeVector \<and> 0 \<le> dim \<and> dim < 2 ^ 63 \<and> gomap_ok vs \<and> length vs < 2 ^ 64 \<and>
          list_all (vec_ok (nat dim)) vs)"

lemmas rdb_types = RDBTypeString_def RDBTypeList_def RDBTypeSet_def RDBTypeZSet_def RDBTypeHash_def
  RDBTypeStream_def RDBTypeVector_def

lemma decodeValue_encode:
  assumes "value_fits t v"
  shows "\<exists>out. encodeValue t v = Inr out \<and> (\<forall>r. decodeValue t (out @ r) = Inr (v, r))"
proof (cases v)
  case (RvVector dim vs)
  then have "uint64_of dim = nat dim" "int64_of (nat dim) = dim" "nat dim < 2 ^ 64"
    using assms by (auto simp: value_fits_def uint64_of_def int64_of_def in_int64_def)
  then show ?thesis
    using assms RvVector
    by (simp add: value_fits_def encodeValue_def decodeValue_def rdb_types map_value_def codec_simps to_map_id
        read_counted_write [OF vec_codec.codec_axioms])
qed (use assms in \<open>auto simp: value_fits_def encodeValue_def decodeValue_def rdb_types map_value_def maxAlloc_def
      string_codec.dec_enc fields_codec.dec_enc read_counted_write [OF string_codec.codec_axioms]
      read_counted_write [OF zitem_codec.codec_axioms] read_counted_write [OF sitem_codec.codec_axioms]\<close>)

definition entry_fits :: "RDBEntry \<Rightarrow> bool" where
  "entry_fits e \<longleftrightarrow> str_ok (re_Key e) \<and> 0 \<le> re_ExpiresAt e \<and> in_int64 (re_ExpiresAt e) \<and> value_fits (re_Type e) (re_Value e)"

lemmas rdb_opcodes = OpcodeAUX_def OpcodeRESIZEDB_def OpcodeEXPIRETIMEMS_def OpcodeEXPIRETIME_def OpcodeSELECTDB_def OpcodeEOF_def

lemma value_fits_type: "value_fits t v \<Longrightarrow>
  t \<noteq> OpcodeEOF \<and> t \<noteq> OpcodeAUX \<and> t \<noteq> OpcodeSELECTDB \<and> t \<noteq> OpcodeRESIZEDB \<and> t \<noteq> OpcodeEXPIRETIME \<and> t \<noteq> OpcodeEXPIRETIMEMS"
  by (cases v) (auto simp: value_fits_def rdb_types rdb_opcodes)

lemma read_entry_write:
  assumes fits: "entry_fits e" and out: "\<forall>r. decodeValue (re_Type e) (out @ r) = Inr (re_Value e, r)"
    and bytes: "b # bs = expire_prefix e @ [re_Type e] @ writeString (re_Key e) @ out @ r"
  shows "read_entry b bs = Inr (e, r)" and "b \<notin> {OpcodeEOF, OpcodeAUX, OpcodeSELECTDB, OpcodeRESIZEDB}"
proof -
  have t: "value_fits (re_Type e) (re_Value e)" and k: "str_ok (re_Key e)"
    and x: "0 \<le> re_ExpiresAt e" "int64_of (uint64_of (re_ExpiresAt e)) = re_ExpiresAt e"
    using fits by (auto simp: entry_fits_def int64_of_uint64_of)
  have le: "LE (PutLE 8 (uint64_of i)) = uint64_of i" for i using uint64_of_less [of i] by (intro LE_PutLE) simp
  have body: "and_then readString (decodeValue (re_Type e)) (writeString (re_Key e) @ out @ r) = Inr ((re_Key e, re_Value e), r)"
    using out by (simp add: and_then_def string_codec.dec_enc [OF k])
  have "read_entry b bs = Inr (e, r) \<and> b \<notin> {OpcodeEOF, OpcodeAUX, OpcodeSELECTDB, OpcodeRESIZEDB}"
  proof (cases "re_ExpiresAt e > 0")
    case True
    then have "b = OpcodeEXPIRETIMEMS"
        "bs = PutLE 8 (uint64_of (re_ExpiresAt e)) @ re_Type e # writeString (re_Key e) @ out @ r"
      using bytes by (auto simp: expire_prefix_def)
    moreover have "OpcodeEXPIRETIMEMS \<noteq> OpcodeEXPIRETIME" by (simp add: rdb_opcodes)
    ultimately show ?thesis
      by (simp add: read_entry_def read_expiry_def Let_def read_byte_def le x body map_value_def)
         (simp add: rdb_opcodes)
  next
    case False
    then have "b = re_Type e" "bs = writeString (re_Key e) @ out @ r" "re_ExpiresAt e = 0"
      using bytes x(1) by (auto simp: expire_prefix_def)
    then show ?thesis
      using value_fits_type [OF t] by (simp add: read_entry_def read_expiry_def Let_def body map_value_def)
  qed
  then show "read_entry b bs = Inr (e, r)" and "b \<notin> {OpcodeEOF, OpcodeAUX, OpcodeSELECTDB, OpcodeRESIZEDB}" by blast+
qed

lemma load_loop_entries:
  "list_all entry_fits es \<Longrightarrow>
   \<exists>out. encode_entries es = Inr out \<and>
     load_loop now aux (out @ [OpcodeEOF]) = (filter (\<lambda>e. \<not> re_expired now e) es, Inr aux)"
proof (induction es)
  case Nil
  show ?case by (simp add: load_loop.simps)
next
  case (Cons e es)
  then obtain out where out: "encode_entries es = Inr out"
      "load_loop now aux (out @ [OpcodeEOF]) = (filter (\<lambda>e. \<not> re_expired now e) es, Inr aux)" by auto
  have fits: "entry_fits e" using Cons.prems by simp
  then obtain v where v: "encodeValue (re_Type e) (re_Value e) = Inr v" "\<forall>r. decodeValue (re_Type e) (v @ r) = Inr (re_Value e, r)"
    using decodeValue_encode [of "re_Type e" "re_Value e"] by (auto simp: entry_fits_def)
  let ?all = "expire_prefix e @ [re_Type e] @ writeString (re_Key e) @ v @ out @ [OpcodeEOF]"
  obtain b bs where bs: "?all = b # bs" by (cases ?all) auto
  note R = read_entry_write [OF fits v(2) bs [symmetric]]
  have "load_loop now aux (b # bs) = (filter (\<lambda>e. \<not> re_expired now e) (e # es), Inr aux)"
    using R by (subst load_loop.simps) (simp add: out(2))
  then show ?case using out(1) v(1) bs by simp
qed

lemma load_loop_aux:
  "list_all pair_ok kvs \<Longrightarrow>
   load_loop now aux (concat (map (\<lambda>(k, v). OpcodeAUX # writeString k @ writeString v) kvs) @ r) =
   load_loop now (fold (\<lambda>(k, v). gput k v) kvs aux) r"
proof (induction kvs arbitrary: aux)
  case (Cons kv kvs)
  obtain k v where kv: "kv = (k, v)" by force
  have "pair_ok (k, v)" using Cons.prems kv by simp
  from pair_codec.dec_enc [OF this]
  have "read_pair (writeString k @ writeString v @ s) = Inr ((k, v), s)" for s by (simp add: write_pair_def)
  moreover have "OpcodeAUX \<noteq> OpcodeEOF" by (simp add: rdb_opcodes)
  ultimately show ?case using Cons by (simp add: kv load_loop.simps [of now aux "OpcodeAUX # _"])
qed simp

lemma load_loop_sizes:
  assumes "a < 2 ^ 64" "b < 2 ^ 64" "c < 2 ^ 64"
  shows "load_loop now aux ([OpcodeSELECTDB] @ writeVarint a @ [OpcodeRESIZEDB] @ writeVarint b @ writeVarint c @ r) = load_loop now aux r"
proof -
  have "load_loop now aux (OpcodeRESIZEDB # writeVarint b @ writeVarint c @ r) = load_loop now aux r"
    using assms by (subst load_loop.simps) (simp add: writeVarint_def ReadUvarint_PutUvarint, simp add: rdb_opcodes)
  moreover have "load_loop now aux (OpcodeSELECTDB # writeVarint a @ s) = load_loop now aux s" for s
    using assms by (subst load_loop.simps) (simp add: writeVarint_def ReadUvarint_PutUvarint, simp add: rdb_opcodes)
  ultimately show ?thesis by simp
qed

text \<open>The payload, without the trailer.\<close>

lemma payload_loads:
  assumes es: "list_all entry_fits es" "length es < 2 ^ 64" and aux: "gomap_ok aux" "list_all pair_ok aux"
  shows "\<exists>body. rdb_payload now es aux = Inr (RDBMagicHeader @ body) \<and> 6 \<le> length body \<and>
    load_loop now' [] body = (filter (\<lambda>e. \<not> re_expired now' e) (filter (\<lambda>e. \<not> re_expired now e) es), Inr aux)"
proof -
  let ?es = "filter (\<lambda>e. \<not> re_expired now e) es"
  have f: "list_all entry_fits ?es" using es(1) by (auto simp: list_all_iff)
  obtain out where out: "encode_entries ?es = Inr out"
      "load_loop now' aux (out @ [OpcodeEOF]) = (filter (\<lambda>e. \<not> re_expired now' e) ?es, Inr aux)"
    using load_loop_entries [OF f] by blast
  have l: "length ?es < 2 ^ 64" "length (filter (\<lambda>e. re_ExpiresAt e > 0) ?es) < 2 ^ 64"
    using es(2) by (meson le_less_trans length_filter_le)+
  have "fold (\<lambda>(k, v). gput k v) aux [] = aux" using to_map_id [OF aux(1)] by (simp add: to_map_def)
  then have "load_loop now' [] (concat (map (\<lambda>(k, v). OpcodeAUX # writeString k @ writeString v) aux) @
      [OpcodeSELECTDB] @ writeVarint 0 @ [OpcodeRESIZEDB] @ writeVarint (length ?es) @
      writeVarint (length (filter (\<lambda>e. re_ExpiresAt e > 0) ?es)) @ out @ [OpcodeEOF]) =
      (filter (\<lambda>e. \<not> re_expired now' e) ?es, Inr aux)"
    using load_loop_aux [OF aux(2)] load_loop_sizes [OF _ l, of 0] out(2) by simp
  moreover have "1 \<le> length (writeVarint n)" for n unfolding writeVarint_def by (subst PutUvarint.simps) simp
  then have "3 \<le> length (writeVarint 0) + length (writeVarint (length ?es)) + length (writeVarint (length (filter (\<lambda>e. re_ExpiresAt e > 0) ?es)))"
    by (metis add_mono numeral_3_eq_3 One_nat_def plus_1_eq_Suc add_Suc_right add.commute)
  ultimately show ?thesis using out(1) by (simp add: rdb_payload_def Let_def)
qed

lemma LoadRDB_file:
  assumes "length trailer = 8" "6 \<le> length body" "load_loop now [] body = (es, Inr aux)"
  shows "LoadRDB now (RDBMagicHeader @ body @ trailer) =
    (es, if LE trailer \<noteq> 0 \<and> unat (ChecksumCRC64 (RDBMagicHeader @ body)) \<noteq> LE trailer then Inl ErrCRCMismatch else Inr aux)"
proof -
  have "length RDBMagicHeader = 9" "take 5 RDBMagicHeader = ''REDIS''" by (simp_all add: RDBMagicHeader_def)
  moreover have "body \<noteq> []" using assms(2) by auto
  ultimately show ?thesis
    using assms by (simp add: LoadRDB_def Let_def Sum64_def Digest_Write_def NewCRC64_def ChecksumCRC64_def)
qed

text \<open>
  Property C7: a snapshot is read back exactly. Saving entries and auxiliary fields gives a file, and loading
  it at any later time hands over, in the same order and with their time limits, exactly the entries that have not
  expired by then, and returns the auxiliary fields. The entries have values of the type they name, keys and values
  within what can be allocated, and no negative time limit.
\<close>

theorem RDB_roundtrip:
  assumes "list_all entry_fits es" "length es < 2 ^ 64" "gomap_ok aux" "list_all pair_ok aux" "now \<le> now'"
  shows "\<exists>file. SaveRDB now es aux = Inr file \<and>
    LoadRDB now' file = (filter (\<lambda>e. \<not> re_expired now' e) es, Inr aux)"
proof -
  obtain body where b: "rdb_payload now es aux = Inr (RDBMagicHeader @ body)" "6 \<le> length body"
      "load_loop now' [] body = (filter (\<lambda>e. \<not> re_expired now' e) (filter (\<lambda>e. \<not> re_expired now e) es), Inr aux)"
    using payload_loads [OF assms(1-4)] by blast
  have "filter (\<lambda>e. \<not> re_expired now' e) (filter (\<lambda>e. \<not> re_expired now e) es) = filter (\<lambda>e. \<not> re_expired now' e) es"
    using assms(5) by (auto simp: re_expired_def intro!: filter_cong)
  moreover have "LE (PutLE 8 (unat c)) = unat c" for c :: "64 word"
    using unsigned_less [of c, where ?'a = nat] by (intro LE_PutLE) simp
  ultimately show ?thesis
    using b(1) LoadRDB_file [OF _ b(2,3)] by (simp add: SaveRDB_def Sum64_def Digest_Write_def NewCRC64_def ChecksumCRC64_def)
qed

theorem RDB_roundtrip_witness:
  "let es = [\<lparr>re_Key = ''a'', re_Type = RDBTypeString, re_ExpiresAt = 0, re_Value = RvString ''x''\<rparr>,
             \<lparr>re_Key = ''b'', re_Type = RDBTypeHash, re_ExpiresAt = 50, re_Value = RvFields [(''f'', ''v'')]\<rparr>,
             \<lparr>re_Key = ''c'', re_Type = RDBTypeSet, re_ExpiresAt = 20, re_Value = RvItems [''m'']\<rparr>]
   in \<exists>file. SaveRDB 10 es [(''k'', ''v'')] = Inr file \<and> LoadRDB 30 file = (take 2 es, Inr [(''k'', ''v'')])"
  using RDB_roundtrip [of "[\<lparr>re_Key = ''a'', re_Type = RDBTypeString, re_ExpiresAt = 0, re_Value = RvString ''x''\<rparr>,
             \<lparr>re_Key = ''b'', re_Type = RDBTypeHash, re_ExpiresAt = 50, re_Value = RvFields [(''f'', ''v'')]\<rparr>,
             \<lparr>re_Key = ''c'', re_Type = RDBTypeSet, re_ExpiresAt = 20, re_Value = RvItems [''m'']\<rparr>]" "[(''k'', ''v'')]" 10 30]
  by (simp add: entry_fits_def value_fits_def str_ok_def maxAlloc_def in_int64_def fields_ok_def pair_ok_def gomap_ok_def
      re_expired_def rdb_types)

section \<open>Corruption\<close>

lemma LoadRDB_success:
  assumes "LoadRDB now (payload @ t) = (es, Inr aux)" "length t = 8" "LE t \<noteq> 0"
  shows "unat (ChecksumCRC64 payload) = LE t"
  using assms
  by (auto simp: LoadRDB_def Let_def Sum64_def Digest_Write_def NewCRC64_def ChecksumCRC64_def split: if_splits prod.splits sum.splits)

text \<open>
  Property C17: the checksum finds every change within eight consecutive bytes. When a file with a non-zero checksum
  loads, no file of the same length that differs from it only within eight consecutive bytes before the checksum loads.
\<close>

theorem RDB_burst_detected:
  assumes "LoadRDB now (p @ w @ q @ t) = (es, Inr aux)" and "length t = 8" and "LE t \<noteq> 0"
    and "length v = length w" and "length w \<le> 8" and "v \<noteq> w"
  shows "\<exists>es' e. LoadRDB now' (p @ v @ q @ t) = (es', Inl e)"
proof (rule ccontr)
  assume "\<not> ?thesis"
  then obtain es' aux' where "LoadRDB now' (p @ v @ q @ t) = (es', Inr aux')"
    by (metis old.sum.exhaust surj_pair)
  then have "unat (ChecksumCRC64 (p @ v @ q)) = LE t"
    using LoadRDB_success [of now' "p @ v @ q" t es' aux'] assms(2,3) by simp
  moreover have "unat (ChecksumCRC64 (p @ w @ q)) = LE t"
    using LoadRDB_success [of now "p @ w @ q" t es aux] assms(1-3) by simp
  ultimately have "ChecksumCRC64 (p @ v @ q) = ChecksumCRC64 (p @ w @ q)" by (metis unsigned_word_eqI)
  then show False using UpdateCRC64_burst [OF assms(4-6), of 0 p q] by (simp add: ChecksumCRC64_def)
qed

theorem RDB_burst_detected_witness:
  "\<exists>x y t. LoadRDB 0 (''REDIS000'' @ [x] @ [OpcodeEOF] @ t) = ([], Inr []) \<and>
     (\<exists>es e. LoadRDB 9 (''REDIS000'' @ [y] @ [OpcodeEOF] @ t) = (es, Inl e))"
proof -
  let ?c = "\<lambda>x. ChecksumCRC64 (''REDIS000'' @ [x] @ [OpcodeEOF])"
  have "?c CHR ''8'' \<noteq> ?c CHR ''9''"
    using UpdateCRC64_burst [of "[CHR ''8'']" "[CHR ''9'']" 0 "''REDIS000''" "[OpcodeEOF]"] by (simp add: ChecksumCRC64_def)
  then have "?c CHR ''8'' \<noteq> 0 \<or> ?c CHR ''9'' \<noteq> 0" by argo
  then obtain x where x: "?c x \<noteq> 0" by blast
  define y where "y = (if x = CHR ''8'' then CHR ''9'' else CHR ''8'')"
  have y: "y \<noteq> x" by (simp add: y_def)
  let ?t = "PutLE 8 (unat (?c x))"
  have t: "LE ?t = unat (?c x)" using unsigned_less [of "?c x", where ?'a = nat] by (intro LE_PutLE) simp
  have "unat (?c x) \<noteq> 0" using x by (simp add: unat_eq_0)
  then have t0: "LE ?t \<noteq> 0" unfolding t .
  have ok: "LoadRDB 0 (''REDIS000'' @ [x] @ [OpcodeEOF] @ ?t) = ([], Inr [])"
    using t by (simp add: LoadRDB_def Let_def load_loop.simps [of 0 "[]" "[OpcodeEOF]"] Sum64_def Digest_Write_def NewCRC64_def
        ChecksumCRC64_def)
  have "\<exists>es e. LoadRDB 9 (''REDIS000'' @ [y] @ [OpcodeEOF] @ ?t) = (es, Inl e)"
    using RDB_burst_detected [OF ok _ t0, of "[y]" 9] y by simp
  then show ?thesis using ok by blast
qed

text \<open>
  Property C36: the checksum comes too late. The entries handed over do not depend on it: a file with a wrong
  checksum hands over the entries of its payload like one with the right checksum, before the mismatch is
  reported; and a file whose checksum field is zero is never checked.
\<close>

theorem RDB_checksum_late:
  assumes "length t = 8" and "10 \<le> length payload" and "take 5 payload = ''REDIS''"
  shows "fst (LoadRDB now (payload @ t)) = fst (load_loop now [] (drop 9 payload))
    \<and> LoadRDB now (payload @ replicate 8 (char_of (0 :: nat))) = load_loop now [] (drop 9 payload)"
proof -
  have z: "LE (replicate n (char_of (0 :: nat))) = 0" for n by (induction n) simp_all
  obtain es res where L: "load_loop now [] (drop 9 payload) = (es, res)" by (rule prod.exhaust)
  have 1: "fst (LoadRDB now (payload @ t)) = es"
    unfolding LoadRDB_def Let_def using assms L by (cases res) simp_all
  have "LoadRDB now (payload @ u) = (es, res)" if "length u = 8" "LE u = 0" for u
    unfolding LoadRDB_def Let_def using assms L that by (cases res) simp_all
  from this [OF length_replicate z] show ?thesis using 1 L by simp
qed

theorem RDB_checksum_late_witness:
  "let payload = RDBMagicHeader @ [RDBTypeString, CHR 0x01, CHR ''k'', CHR 0x01, CHR ''v'', OpcodeEOF]
   in fst (LoadRDB 5 (payload @ ''badcheck'')) =
        [\<lparr>re_Key = ''k'', re_Type = RDBTypeString, re_ExpiresAt = 0, re_Value = RvString ''v''\<rparr>]"
proof -
  let ?body = "[RDBTypeString, CHR 0x01, CHR ''k'', CHR 0x01, CHR ''v'', OpcodeEOF]"
  let ?e = "\<lparr>re_Key = ''k'', re_Type = RDBTypeString, re_ExpiresAt = 0, re_Value = RvString ''v''\<rparr>"
  have one: "writeVarint 1 = [CHR 0x01]" by (simp add: writeVarint_def PutUvarint.simps char_of_def bit_0)
  have "list_all entry_fits [?e]" by (simp add: entry_fits_def value_fits_def str_ok_def maxAlloc_def in_int64_def)
  from load_loop_entries [OF this, of 5 "[]"]
  have "load_loop 5 [] ?body = ([?e], Inr [])"
    using one by (simp add: encodeValue_def expire_prefix_def writeString_def re_expired_def)
  then show ?thesis
    using RDB_checksum_late [of "''badcheck''" "RDBMagicHeader @ ?body" 5] by (simp add: RDBMagicHeader_def Let_def)
qed

end
