(* ===== verification/Aof.thy ===== *)
theory Aof
  imports Resp "HOL-Library.Sublist"
begin

text \<open>
  The append-only file of src/internal/persistence/aof.go: the buffered writer in front of the file, the three
  policies for forcing it to the disk, and the replay at start-up.

  The file is three strings: the bytes on the disk, the bytes the operating system holds, and the bytes in the writer's
  buffer of 64 KB. Writing to an open file and syncing it succeed; a closed file refuses writes, and the writer keeps
  its first error. The goroutine of \<open>everysec\<close> is a step that may happen between any two commands.
\<close>

section \<open>Definitions\<close>

type_synonym FsyncPolicy = string

definition FsyncAlways :: FsyncPolicy where "FsyncAlways = ''always''"
definition FsyncEverySec :: FsyncPolicy where "FsyncEverySec = ''everysec''"
definition FsyncNo :: FsyncPolicy where "FsyncNo = ''no''"

record AOF =
  af_synced :: string
  af_cached :: string
  af_buf :: string
  af_err :: bool
  af_open :: bool
  af_policy :: FsyncPolicy
  af_ticking :: bool

definition OpenAOF :: "string \<Rightarrow> FsyncPolicy \<Rightarrow> AOF" where
  "OpenAOF file policy =
     \<lparr>af_synced = file, af_cached = [], af_buf = [], af_err = False, af_open = True, af_policy = policy,
      af_ticking = (policy = FsyncEverySec)\<rparr>"

text \<open>The writer of Go's bufio with its buffer of 64 KB, and the file's \<open>Sync\<close>.\<close>

definition writer_size :: nat where
  "writer_size = 65536"

definition bufio_Flush :: "AOF \<Rightarrow> AOF" where
  "bufio_Flush a =
     (if af_err a \<or> af_buf a = [] then a
      else if af_open a then a\<lparr>af_cached := af_cached a @ af_buf a, af_buf := []\<rparr>
      else a\<lparr>af_err := True\<rparr>)"

lemma diff_less_add: "b \<noteq> [] \<Longrightarrow> n - k < n + length b"
  by (cases b) auto

function bufio_Write :: "string \<Rightarrow> AOF \<Rightarrow> AOF" where
  "bufio_Write p a =
     (let n = writer_size - length (af_buf a) in
      if af_err a then a
      else if length p \<le> n then a\<lparr>af_buf := af_buf a @ p\<rparr>
      else if af_buf a = [] then
        (if af_open a then a\<lparr>af_cached := af_cached a @ p\<rparr> else a\<lparr>af_err := True\<rparr>)
      else bufio_Write (drop n p) (bufio_Flush (a\<lparr>af_buf := af_buf a @ take n p\<rparr>)))"
  by pat_completeness auto

termination
  by (relation "measure (\<lambda>(p, a). if af_err a then 0 else Suc (length p + length (af_buf a)))")
    (auto simp: bufio_Flush_def intro: diff_less_add)

declare bufio_Write.simps [simp del]

definition file_Sync :: "AOF \<Rightarrow> AOF" where
  "file_Sync a = (if af_open a then a\<lparr>af_synced := af_synced a @ af_cached a, af_cached := []\<rparr> else a)"

text \<open>One round of the loop: the ticker fires, unless the file was closed.\<close>

definition fsyncLoop_tick :: "AOF \<Rightarrow> AOF" where
  "fsyncLoop_tick a = (if af_ticking a then file_Sync (bufio_Flush a) else a)"

text \<open>The reply is whether no error was returned.\<close>

definition WriteCommand :: "string list \<Rightarrow> AOF \<Rightarrow> bool \<times> AOF" where
  "WriteCommand args a =
     (let a1 = bufio_Write (SerializeCommand args) a in
      if af_err a1 then (False, a1)
      else if af_policy a1 = FsyncAlways then
        (let a2 = bufio_Flush a1 in if af_err a2 then (False, a2) else (af_open a2, file_Sync a2))
      else (True, a1))"

text \<open>Closing twice closes a closed channel and panics.\<close>

definition aof_Close :: "AOF \<Rightarrow> AOF option" where
  "aof_Close a =
     (if \<not> af_open a then None
      else Some ((file_Sync (bufio_Flush a))\<lparr>af_open := False, af_ticking := False\<rparr>))"

text \<open>The commands handed to the handler, and the error returned; a missing file has neither.\<close>

lemma ReadCommand_length: "ReadCommand s = Inr (cmd, rest) \<Longrightarrow> length rest < length s"
  by (auto simp: ReadCommand_def ReadValue_def dest: ReadValue_fuel_length(1) split: sum.splits if_splits)

function replay_loop :: "string \<Rightarrow> string list list \<times> rerr option" where
  "replay_loop s =
     (case ReadCommand s of
        Inl e \<Rightarrow> ([], if e = EOF then None else Some e)
      | Inr (cmd, rest) \<Rightarrow>
          (let (cmds, err) = replay_loop rest in (if cmd \<noteq> [] then cmd # cmds else cmds, err)))"
  by pat_completeness auto

termination by (relation "measure length") (auto dest: ReadCommand_length)

declare replay_loop.simps [simp del]

definition Replay :: "string option \<Rightarrow> string list list \<times> rerr option" where
  "Replay file = (case file of None \<Rightarrow> ([], None) | Some s \<Rightarrow> replay_loop s)"

text \<open>
  What a loss of power leaves of the file: the synced bytes and the first \<open>k\<close> of the others. This is an assumption on
  the file system and not code of the server: appended bytes reach the disk in their order, so that a file is never left with a hole or
  with bytes that were not written.
\<close>

definition after_power_loss :: "nat \<Rightarrow> AOF \<Rightarrow> string" where
  "after_power_loss k a = af_synced a @ take k (af_cached a)"

datatype aof_op = AWrite "string list" | ATick

fun aof_step :: "aof_op \<Rightarrow> AOF \<Rightarrow> AOF" where
  "aof_step (AWrite args) a = snd (WriteCommand args a)"
| "aof_step ATick a = fsyncLoop_tick a"

definition aof_run :: "aof_op list \<Rightarrow> AOF \<Rightarrow> AOF" where
  "aof_run ops a = fold aof_step ops a"

fun written :: "aof_op list \<Rightarrow> string list list" where
  "written [] = []"
| "written (AWrite args # ops) = args # written ops"
| "written (ATick # ops) = written ops"

section \<open>A cut command is not read\<close>

text \<open>What the reader returns does not depend on the bytes after it.\<close>

lemma IndexByte_more: "IndexByte s b = Some i \<Longrightarrow> IndexByte (s @ t) b = Some i"
  by (induction s arbitrary: i) (auto split: if_splits)

lemma ReadSlice_more:
  assumes "ReadSlice s = Inr (l, r)"
  shows "ReadSlice (s @ t) = Inr (l, r @ t)"
proof -
  obtain i where i: "IndexByte (take buf_size s) LF = Some i" "l = take (Suc i) s" "r = drop (Suc i) s"
    using assms by (auto simp: ReadSlice_def split: option.splits if_splits)
  then have "i < length s" using IndexByte_SomeD [OF i(1)] by simp
  then show ?thesis
    using IndexByte_more [OF i(1), of "take (buf_size - length s) t"] i(2,3) by (simp add: ReadSlice_def)
qed

lemma ReadFull_more: "ReadFull k s = Inr (b, r) \<Longrightarrow> ReadFull k (s @ t) = Inr (b, r @ t)"
  by (auto simp: ReadFull_def split: if_splits)

lemma readLine_more:
  assumes "readLine s = Inr (l, r)"
  shows "readLine (s @ t) = Inr (l, r @ t)"
proof (cases "ReadSlice s")
  case (Inr x)
  then have "ReadSlice (s @ t) = Inr (fst x, snd x @ t)" using ReadSlice_more [of s "fst x" "snd x" t] by simp
  then show ?thesis using assms Inr by (auto simp: readLine_def Let_def case_prod_unfold split: if_splits)
qed (use assms in \<open>simp add: readLine_def\<close>)

lemma readBulk_more:
  assumes "readBulk s = Inr (v, r)"
  shows "readBulk (s @ t) = Inr (v, r @ t)"
proof (cases "readLine s")
  case (Inr x)
  then have l: "readLine (s @ t) = Inr (fst x, snd x @ t)" using readLine_more [of s "fst x" "snd x" t] by simp
  have "ReadFull k (snd x @ t) = Inr (b, r @ t)" if "ReadFull k (snd x) = Inr (b, r)" for k b r
    by (rule ReadFull_more [OF that])
  then show ?thesis
    using assms Inr l by (auto simp: readBulk_def case_prod_unfold split: sum.splits option.splits if_splits)
qed (use assms in \<open>simp add: readBulk_def\<close>)

lemma readInline_more: "readInline b s = Inr (v, r) \<Longrightarrow> readInline b (s @ t) = Inr (v, r @ t)"
  using readLine_more [of s _ _ t] by (fastforce simp: readInline_def split: sum.splits)

lemma ReadValue_fuel_more:
  "ReadValue_fuel f s = Inr (v, r) \<Longrightarrow> f \<le> g \<Longrightarrow> ReadValue_fuel g (s @ t) = Inr (v, r @ t)"
  "readArray f s = Inr (v, r) \<Longrightarrow> f \<le> g \<Longrightarrow> readArray g (s @ t) = Inr (v, r @ t)"
  "readItems f n s = Inr (vs, r) \<Longrightarrow> f \<le> g \<Longrightarrow> readItems g n (s @ t) = Inr (vs, r @ t)"
proof (induction f s and f s and f n s arbitrary: v r g and v r g and vs r g
    rule: ReadValue_fuel_readArray_readItems.induct)
  case (3 f b s)
  then obtain h where g: "g = Suc h" "f \<le> h" by (cases g) auto
  show ?case
  proof (cases "readLine s")
    case (Inl e)
    then show ?thesis
      using 3 g(2) readBulk_more [of s v r t] readInline_more [of b s v r t] unfolding g(1)
      by (simp del: readArray.simps split: if_splits)
  next
    case (Inr x)
    then have "readLine (s @ t) = Inr (fst x, snd x @ t)" using readLine_more [of s "fst x" "snd x" t] by simp
    then show ?thesis
      using 3 g(2) Inr readBulk_more [of s v r t] readInline_more [of b s v r t] unfolding g(1)
      by (auto simp: case_prod_unfold simp del: readArray.simps split: if_splits option.splits)
  qed
next
  case (4 f s)
  show ?case
  proof (cases "readLine s")
    case (Inr x)
    obtain line rest where x: "x = (line, rest)" by (cases x)
    have "readLine (s @ t) = Inr (line, rest @ t)" using readLine_more Inr x by simp
    moreover have "readItems g (nat len) (rest @ t) = Inr (items, r' @ t)"
      if "ParseInt line = Some len" "len \<noteq> -1" "\<not> len < -1" "\<not> len > MaxArrayLength"
        "readItems f (nat len) rest = Inr (items, r')" for len items r'
      using 4(1) [OF Inr x [symmetric] that(1-5) 4(3)] by simp
    ultimately show ?thesis
      using 4(2) Inr x by (auto split: sum.splits option.splits if_splits)
  qed (use 4(2) in simp)
next
  case (6 f n s)
  then obtain x where x: "ReadValue_fuel f s = Inr x" by (auto split: sum.splits)
  then have "ReadValue_fuel g (s @ t) = Inr (fst x, snd x @ t)" using 6(1) [of "fst x" "snd x" g] 6(4) by simp
  moreover obtain ws where "readItems f n (snd x) = Inr (ws, r)" "vs = fst x # ws"
    using 6(3) x by (auto simp: case_prod_unfold split: sum.splits)
  ultimately show ?case using 6(2) [OF x, of "fst x" "snd x"] 6(4) by simp
qed auto

lemma ReadCommand_more:
  assumes "ReadCommand s = Inr (cmd, r)"
  shows "ReadCommand (s @ t) = Inr (cmd, r @ t)"
proof -
  obtain v r' where v: "ReadValue s = Inr (v, r')" using assms by (auto simp: ReadCommand_def split: sum.splits)
  have "ReadValue (s @ t) = Inr (v, r' @ t)"
    using ReadValue_fuel_more(1) [of "Suc (length s)" s v r' "Suc (length (s @ t))" t] v by (simp add: ReadValue_def)
  then show ?thesis using assms v by (auto simp: ReadCommand_def split: if_splits)
qed

lemma ReadCommand_cut:
  assumes "command_ok args" and "SerializeCommand args = p @ q" and "q \<noteq> []"
  obtains e where "ReadCommand p = Inl e"
proof (cases "ReadCommand p")
  case (Inr x)
  then obtain cmd r where "ReadCommand p = Inr (cmd, r)" by (cases x) auto
  from ReadCommand_more [OF this, of q] have "ReadCommand (SerializeCommand args @ []) = Inr (cmd, r @ q)"
    using assms(2) by simp
  then show ?thesis using command_codec.dec_enc [OF assms(1), of "[]"] assms(3) by simp
qed (use that in blast)

section \<open>What the steps keep\<close>

text \<open>The bytes of the file in the order they were written, wherever they are.\<close>

definition all_bytes :: "AOF \<Rightarrow> string" where
  "all_bytes a = af_synced a @ af_cached a @ af_buf a"

definition usable :: "AOF \<Rightarrow> bool" where
  "usable a \<longleftrightarrow> af_open a \<and> \<not> af_err a"

lemma Flush_usable:
  assumes "usable a"
  shows "usable (bufio_Flush a) \<and> all_bytes (bufio_Flush a) = all_bytes a \<and> af_buf (bufio_Flush a) = []
    \<and> af_synced (bufio_Flush a) = af_synced a \<and> af_policy (bufio_Flush a) = af_policy a
    \<and> af_ticking (bufio_Flush a) = af_ticking a"
  using assms by (auto simp: bufio_Flush_def usable_def all_bytes_def)

lemma Write_usable:
  "usable a \<Longrightarrow> usable (bufio_Write p a) \<and> all_bytes (bufio_Write p a) = all_bytes a @ p
    \<and> af_synced (bufio_Write p a) = af_synced a \<and> af_policy (bufio_Write p a) = af_policy a
    \<and> af_ticking (bufio_Write p a) = af_ticking a"
proof (induction p a rule: bufio_Write.induct)
  case (1 p a)
  let ?n = "writer_size - length (af_buf a)"
  let ?a = "a\<lparr>af_buf := af_buf a @ take ?n p\<rparr>"
  show ?case
  proof (cases "length p \<le> ?n \<or> af_buf a = []")
    case True
    then show ?thesis
      using 1(2) by (subst (1 2 3 4 5) bufio_Write.simps) (auto simp: Let_def usable_def all_bytes_def)
  next
    case False
    have u: "usable ?a" using 1(2) by (simp add: usable_def)
    have "bufio_Write p a = bufio_Write (drop ?n p) (bufio_Flush ?a)"
      using False 1(2) by (subst bufio_Write.simps) (simp add: Let_def usable_def)
    moreover have "all_bytes ?a = all_bytes a @ take ?n p" by (simp add: all_bytes_def)
    ultimately show ?thesis
      using 1(1) [OF refl] False 1(2) Flush_usable [OF u] by (simp add: usable_def)
  qed
qed

lemma Sync_usable:
  assumes "usable a"
  shows "usable (file_Sync a) \<and> all_bytes (file_Sync a) = all_bytes a \<and> af_synced (file_Sync a) = af_synced a @ af_cached a
    \<and> af_policy (file_Sync a) = af_policy a \<and> af_ticking (file_Sync a) = af_ticking a"
  using assms by (simp add: file_Sync_def usable_def all_bytes_def)

lemma Sync_Flush:
  assumes "usable a"
  shows "usable (file_Sync (bufio_Flush a)) \<and> all_bytes (file_Sync (bufio_Flush a)) = all_bytes a
    \<and> af_synced (file_Sync (bufio_Flush a)) = all_bytes a
    \<and> af_policy (file_Sync (bufio_Flush a)) = af_policy a \<and> af_ticking (file_Sync (bufio_Flush a)) = af_ticking a"
  using Flush_usable [OF assms] Sync_usable [of "bufio_Flush a"] by (auto simp: all_bytes_def)

text \<open>
  A step keeps the file usable, appends the command it writes, and never loses a synced byte; a tick
  of \<open>everysec\<close>, and every step of \<open>always\<close>, leaves all bytes synced.
\<close>

definition steady :: "AOF \<Rightarrow> bool" where
  "steady a \<longleftrightarrow> usable a \<and> af_ticking a = (af_policy a = FsyncEverySec)
     \<and> (af_policy a = FsyncAlways \<longrightarrow> af_synced a = all_bytes a)"

lemma steady_step:
  assumes "steady a"
  shows "steady (aof_step op a) \<and> all_bytes (aof_step op a) = all_bytes a @ concat (map SerializeCommand (written [op]))
    \<and> prefix (af_synced a) (af_synced (aof_step op a)) \<and> af_policy (aof_step op a) = af_policy a
    \<and> (op = ATick \<and> af_policy a = FsyncEverySec \<longrightarrow> af_synced (aof_step op a) = all_bytes a)"
proof (cases op)
  case (AWrite args)
  let ?a1 = "bufio_Write (SerializeCommand args) a"
  have u: "usable a" using assms by (simp add: steady_def)
  note W = Write_usable [OF u, of "SerializeCommand args"]
  show ?thesis
  proof (cases "af_policy a = FsyncAlways")
    case True
    have "aof_step op a = file_Sync (bufio_Flush ?a1)"
      using W True Flush_usable [of ?a1] by (auto simp: AWrite WriteCommand_def Let_def usable_def)
    then show ?thesis
      using assms W Sync_Flush [of ?a1] by (auto simp: AWrite steady_def all_bytes_def)
  next
    case False
    then have "aof_step op a = ?a1" using W by (simp add: AWrite WriteCommand_def Let_def usable_def)
    then show ?thesis using assms W False by (auto simp: AWrite steady_def)
  qed
next
  case ATick
  then show ?thesis
    using assms Sync_Flush [of a] by (auto simp: steady_def fsyncLoop_tick_def all_bytes_def)
qed

lemma steady_Open: "steady (OpenAOF file policy)"
  by (auto simp: steady_def OpenAOF_def usable_def all_bytes_def FsyncEverySec_def FsyncAlways_def)

lemma written_append: "written (xs @ ys) = written xs @ written ys"
  by (induction xs rule: written.induct) auto

lemma steady_run:
  "steady a \<Longrightarrow> steady (aof_run ops a) \<and> all_bytes (aof_run ops a) = all_bytes a @ concat (map SerializeCommand (written ops))
    \<and> prefix (af_synced a) (af_synced (aof_run ops a)) \<and> af_policy (aof_run ops a) = af_policy a"
proof (induction ops arbitrary: a)
  case (Cons op ops)
  note S = steady_step [OF Cons.prems, of op]
  have "written (op # ops) = written [op] @ written ops" using written_append [of "[op]" ops] by simp
  then show ?case
    using S Cons.IH [of "aof_step op a"] prefix_order.trans by (auto simp: aof_run_def)
qed (simp add: aof_run_def)

lemma run_synced:
  assumes "steady a" and "af_policy a = FsyncAlways \<or> af_policy a = FsyncEverySec \<and> ops \<noteq> [] \<and> last ops = ATick"
  shows "af_synced (aof_run ops a) = all_bytes (aof_run ops a)"
proof (cases "af_policy a = FsyncAlways")
  case True
  then show ?thesis using steady_run [OF assms(1), of ops] by (simp add: steady_def)
next
  case False
  then obtain xs where "ops = xs @ [ATick]" using assms(2) by (metis append_butlast_last_id)
  then have "aof_run ops a = aof_step ATick (aof_run xs a)" by (simp add: aof_run_def)
  then show ?thesis
    using steady_run [OF assms(1), of xs] steady_step [of "aof_run xs a" ATick] assms(2) False by auto
qed

section \<open>Replay\<close>

lemma replay_commands:
  "list_all command_ok cmds \<Longrightarrow>
   replay_loop (concat (map SerializeCommand cmds) @ s) = (filter (\<lambda>c. c \<noteq> []) cmds @ fst (replay_loop s), snd (replay_loop s))"
proof (induction cmds)
  case (Cons c cmds)
  then show ?case
    by (subst replay_loop.simps) (simp add: command_codec.dec_enc case_prod_unfold Let_def)
qed simp

lemma replay_Nil: "replay_loop [] = ([], None)"
  by (subst replay_loop.simps) (simp add: ReadCommand_def ReadValue_def)

lemma replay_prefix:
  "list_all command_ok cmds \<Longrightarrow> prefix f (concat (map SerializeCommand cmds)) \<Longrightarrow>
   \<exists>n. fst (replay_loop f) = filter (\<lambda>c. c \<noteq> []) (take n cmds)"
proof (induction cmds arbitrary: f)
  case Nil
  then show ?case by (simp add: replay_Nil)
next
  case (Cons c cmds)
  consider g where "f = SerializeCommand c @ g" "prefix g (concat (map SerializeCommand cmds))"
    | q where "SerializeCommand c = f @ q" "q \<noteq> []"
    using Cons.prems(2) by (auto simp: prefix_def append_eq_append_conv2) metis
  then show ?case
  proof cases
    case 1
    then obtain n where "fst (replay_loop g) = filter (\<lambda>c. c \<noteq> []) (take n cmds)" using Cons by auto
    then have "fst (replay_loop f) = filter (\<lambda>c. c \<noteq> []) (take (Suc n) (c # cmds))"
      using replay_commands [of "[c]" g] Cons.prems(1) 1(1) by simp
    then show ?thesis by blast
  next
    case 2
    then obtain e where "ReadCommand f = Inl e" using ReadCommand_cut [OF _ 2] Cons.prems(1) by auto
    then have "fst (replay_loop f) = []" by (subst replay_loop.simps) simp
    then show ?thesis by (intro exI [of _ 0]) simp
  qed
qed

lemma power_loss_keeps:
  assumes "list_all command_ok (old @ written ops @ written ops')"
    and "policy = FsyncAlways \<or> policy = FsyncEverySec \<and> ops \<noteq> [] \<and> last ops = ATick"
  shows "\<exists>n. fst (Replay (Some (after_power_loss k
      (aof_run (ops @ ops') (OpenAOF (concat (map SerializeCommand old)) policy)))))
    = filter (\<lambda>c. c \<noteq> []) (old @ written ops @ take n (written ops'))"
proof -
  let ?init = "OpenAOF (concat (map SerializeCommand old)) policy"
  let ?a = "aof_run ops ?init"
  let ?b = "aof_run ops' ?a"
  have a0: "all_bytes ?init = concat (map SerializeCommand old)" "af_policy ?init = policy" by (simp_all add: all_bytes_def OpenAOF_def)
  note A = steady_run [OF steady_Open, of ops "concat (map SerializeCommand old)" policy]
  note B = steady_run [of ?a ops']
  have "af_synced ?a = all_bytes ?a" using run_synced [OF steady_Open, of "concat (map SerializeCommand old)" policy ops] assms(2) unfolding a0(2) by blast
  then have "prefix (all_bytes ?a) (after_power_loss k ?b)"
    using A B unfolding after_power_loss_def by (metis prefix_prefix)
  moreover have "prefix (after_power_loss k ?b) (all_bytes ?b)"
    unfolding after_power_loss_def all_bytes_def by (metis append.assoc append_take_drop_id prefixI same_prefix_prefix)
  ultimately obtain f where f: "after_power_loss k ?b = concat (map SerializeCommand (old @ written ops)) @ f"
      "prefix f (concat (map SerializeCommand (written ops')))"
    using A B a0(1) by (auto simp: prefix_def)
  obtain n where "fst (replay_loop f) = filter (\<lambda>c. c \<noteq> []) (take n (written ops'))"
    using replay_prefix [OF _ f(2)] assms(1) by auto
  then show ?thesis
    using replay_commands [of "old @ written ops" f] assms(1) f(1) by (auto simp: Replay_def aof_run_def)
qed

section \<open>Properties\<close>

lemma Close_synced:
  "steady a \<Longrightarrow> \<exists>a'. aof_Close a = Some a' \<and> af_synced a' = all_bytes a"
  using Sync_Flush [of a] by (simp add: aof_Close_def steady_def usable_def)

lemma all_bytes_Open: "all_bytes (OpenAOF file policy) = file"
  by (simp add: all_bytes_def OpenAOF_def)

lemma written_all: "(\<And>i args. ops i = AWrite args \<Longrightarrow> P args) \<Longrightarrow> list_all P (written (map ops js))"
proof (induction js)
  case (Cons j js)
  then show ?case by (cases "ops j") auto
qed simp

text \<open>
  Property C18: the commands written to the append-only file are replayed. Under every policy, after any sequence of
  commands and ticks and a close, the replay hands over the commands already in the file and then those written, in order,
  and reports no error. An empty command is written and skipped.
\<close>

theorem AOF_replay:
  assumes "list_all command_ok (old @ written ops)"
  shows "\<exists>a. aof_Close (aof_run ops (OpenAOF (concat (map SerializeCommand old)) policy)) = Some a
    \<and> Replay (Some (af_synced a)) = (filter (\<lambda>c. c \<noteq> []) (old @ written ops), None)"
proof -
  let ?b = "aof_run ops (OpenAOF (concat (map SerializeCommand old)) policy)"
  have b: "steady ?b" "all_bytes ?b = concat (map SerializeCommand (old @ written ops))"
    using steady_run [OF steady_Open, of ops] by (simp_all add: all_bytes_Open)
  then show ?thesis
    using Close_synced [OF b(1)] replay_commands [OF assms, of "[]"] by (auto simp: Replay_def replay_Nil)
qed

theorem AOF_replay_witness:
  "\<exists>a. aof_Close (aof_run [AWrite [''SET'', ''k'', ''v''], ATick, AWrite [], AWrite [''DEL'', ''k'']]
       (OpenAOF (concat (map SerializeCommand [[''INCR'', ''n'']])) FsyncNo)) = Some a
    \<and> Replay (Some (af_synced a)) = ([[''INCR'', ''n''], [''SET'', ''k'', ''v''], [''DEL'', ''k'']], None)"
proof -
  have "list_all command_ok [[''INCR'', ''n''], [''SET'', ''k'', ''v''], [], [''DEL'', ''k'']]" by code_simp
  then show ?thesis
    using AOF_replay [of "[[''INCR'', ''n'']]" "[AWrite [''SET'', ''k'', ''v''], ATick, AWrite [], AWrite [''DEL'', ''k'']]" FsyncNo]
    by simp
qed

text \<open>
  Property C8: a loss of power loses only a tail of the commands. The file being intact when it was opened, and however many of the
  unsynced bytes, in the order they were appended, the disk keeps, the replay hands over a prefix of the commands; it has at least those written before the last tick under \<open>everysec\<close> and
  all of them under \<open>always\<close>. A command cut in the middle is never read as another.
\<close>

theorem AOF_power_loss:
  assumes "list_all command_ok (old @ written ops @ written ops')"
    and "policy = FsyncAlways \<or> policy = FsyncEverySec \<and> ops \<noteq> [] \<and> last ops = ATick"
  shows "\<exists>n. fst (Replay (Some (after_power_loss k
      (aof_run (ops @ ops') (OpenAOF (concat (map SerializeCommand old)) policy)))))
    = filter (\<lambda>c. c \<noteq> []) (old @ written ops @ take n (written ops'))"
  using assms by (rule power_loss_keeps)

theorem AOF_power_loss_witness:
  "\<exists>n. fst (Replay (Some (after_power_loss 7
      (aof_run ([AWrite [''SET'', ''k'', ''v''], ATick] @ [AWrite [''DEL'', ''k'']]) (OpenAOF (concat (map SerializeCommand [])) FsyncEverySec)))))
    = filter (\<lambda>c. c \<noteq> []) ([] @ written [AWrite [''SET'', ''k'', ''v''], ATick] @ take n (written [AWrite [''DEL'', ''k'']]))"
proof (rule AOF_power_loss)
  show "list_all command_ok ([] @ written [AWrite [''SET'', ''k'', ''v''], ATick] @ written [AWrite [''DEL'', ''k'']])" by code_simp
qed simp

text \<open>
  Property C13: under \<open>everysec\<close> every command becomes durable. In an infinite run in which the ticker keeps firing, there is
  for each point a later one from which on the commands written before the first are replayed after a loss of power at any
  time, however many of the unsynced bytes the disk keeps.
\<close>

theorem AOF_eventually_durable:
  assumes "\<forall>i args. ops i = AWrite args \<longrightarrow> command_ok args \<and> args \<noteq> []"
    and "\<forall>i. \<exists>j\<ge>i. ops j = ATick"
  shows "\<exists>m. \<forall>j\<ge>m. \<forall>k. prefix (written (map ops [0..<i]))
    (fst (Replay (Some (after_power_loss k (aof_run (map ops [0..<j]) (OpenAOF [] FsyncEverySec))))))"
proof -
  obtain m where m: "i \<le> m" "ops m = ATick" using assms(2) by blast
  let ?pre = "map ops [0..<Suc m]"
  have ok: "list_all command_ok (written (map ops js))" "[] \<notin> set (written (map ops js))" for js
    using written_all [of ops "\<lambda>c. command_ok c \<and> c \<noteq> []"] assms(1) by (auto simp: list_all_iff)
  have "prefix (written (map ops [0..<i]))
      (fst (Replay (Some (after_power_loss k (aof_run (map ops [0..<j]) (OpenAOF [] FsyncEverySec))))))" if "Suc m \<le> j" for j k
  proof -
    have "map ops [0..<j] = ?pre @ map ops [Suc m..<j]" using that upt_add_eq_append [of 0 "Suc m" "j - Suc m"] by simp
    moreover have "\<exists>n. fst (Replay (Some (after_power_loss k (aof_run (?pre @ map ops [Suc m..<j]) (OpenAOF [] FsyncEverySec)))))
        = filter (\<lambda>c. c \<noteq> []) (written ?pre @ take n (written (map ops [Suc m..<j])))"
      using power_loss_keeps [of "[]" ?pre "map ops [Suc m..<j]" FsyncEverySec k] ok(1) m(2) by (simp del: upt_Suc) (simp add: m(2))
    ultimately have "prefix (filter (\<lambda>c. c \<noteq> []) (written ?pre))
        (fst (Replay (Some (after_power_loss k (aof_run (map ops [0..<j]) (OpenAOF [] FsyncEverySec))))))" by (auto simp del: upt_Suc)
    moreover have "filter (\<lambda>c. c \<noteq> []) (written ?pre) = written ?pre" using ok(2) [of "[0..<Suc m]"] by (intro filter_True) auto
    moreover have "?pre = map ops [0..<i] @ map ops [i..<Suc m]" using m(1) upt_add_eq_append [of 0 i "Suc m - i"] by simp
    ultimately show ?thesis by (metis prefix_order.trans prefixI written_append)
  qed
  then show ?thesis by blast
qed

theorem AOF_eventually_durable_witness:
  "\<exists>m. \<forall>j\<ge>m. \<forall>k. prefix [[''INCR'', ''n'']]
    (fst (Replay (Some (after_power_loss k
      (aof_run (map (\<lambda>i. if i = 0 then AWrite [''INCR'', ''n''] else ATick) [0..<j]) (OpenAOF [] FsyncEverySec))))))"
proof -
  let ?ops = "\<lambda>i. if i = 0 then AWrite [''INCR'', ''n''] else ATick"
  have "command_ok [''INCR'', ''n'']" by code_simp
  then have 1: "\<forall>i args. ?ops i = AWrite args \<longrightarrow> command_ok args \<and> args \<noteq> []" by auto
  have 2: "\<forall>i::nat. \<exists>j\<ge>i. ?ops j = ATick" by (metis le_SucI nat.distinct(1) order_refl)
  from AOF_eventually_durable [OF 1 2, of 1] show ?thesis by simp
qed

text \<open>A command cut before its last argument, and what the reader makes of it when other bytes follow.\<close>

lemma readItems_torn:
  assumes "list_all (\<lambda>a. int (length a) \<le> MaxBulkLength) args" and "int k \<le> MaxBulkLength"
    and "k + 2 \<le> length new" and "\<not> (new ! k = CR \<and> new ! Suc k = LF)"
  shows "readItems (Suc f) (Suc (length args))
    (concat (map (\<lambda>arg. CHR ''$'' # Itoa (length arg) @ CRLF @ arg @ CRLF) args) @ CHR ''$'' # Itoa k @ CRLF @ new)
    = Inl ErrInvalidSyntax"
  using assms(1)
proof (induction args)
  case Nil
  have "ReadFull (k + 2) new = Inr (take (k + 2) new, drop (k + 2) new)" using assms(3) by (simp add: ReadFull_def)
  moreover have "k < 2 ^ 63" using assms(2) by (simp add: MaxBulkLength_def)
  ultimately show ?case
    using assms(2,4) by (auto simp: readBulk_def codec_simps)
next
  case (Cons a args)
  then show ?case by (simp add: readBulk_serialized)
qed

lemma SerializeCommand_torn:
  assumes "SerializeCommand (args @ [arg]) = t @ arg @ CRLF"
  shows "t = CHR ''*'' # Itoa (Suc (length args)) @ CRLF @ concat (map (\<lambda>arg. CHR ''$'' # Itoa (length arg) @ CRLF @ arg @ CRLF) args)
      @ CHR ''$'' # Itoa (length arg) @ CRLF"
  using assms by (simp add: SerializeCommand_def)

lemma ReadCommand_torn:
  assumes "command_ok (args @ [arg])" and "SerializeCommand (args @ [arg]) = t @ arg @ CRLF"
    and "length arg + 2 \<le> length new" and "\<not> (new ! length arg = CR \<and> new ! Suc (length arg) = LF)"
  shows "ReadCommand (t @ new) = Inl ErrInvalidSyntax"
proof -
  note t = SerializeCommand_torn [OF assms(2)]
  have n: "Suc (length args) < 2 ^ 63" "int (Suc (length args)) \<le> MaxArrayLength"
    and a: "list_all (\<lambda>a. int (length a) \<le> MaxBulkLength) args" "int (length arg) \<le> MaxBulkLength"
    using assms(1) by (auto simp: command_ok_def MaxArrayLength_def)
  have k: "nat (1 + int (length args)) = Suc (length args)" by simp
  obtain f where f: "length (t @ new) = Suc f" by (simp add: t)
  have "ReadValue (t @ new) = Inl ErrInvalidSyntax"
    unfolding ReadValue_def f unfolding t
    using n k readItems_torn [OF a assms(3,4), of f] by (simp add: readLine_Itoa ParseInt_Itoa del: readItems.simps)
  then show ?thesis by (simp add: ReadCommand_def)
qed

text \<open>
  Property C32: a torn tail makes the file swallow what follows. When the file ends in a command cut just before its last
  argument, opening it appends the commands of the new run behind the cut. At the next start, as soon as the appended bytes
  make up for the missing ones, there are two cases. If they happen to have a line end where the argument's would have been, the
  replay hands over the cut command with the first appended bytes for its argument, a command nobody sent; otherwise it stops at the
  cut with an error and hands over none of the appended commands. (\<open>NewEngine\<close> ignores the error.)
\<close>

theorem AOF_torn_tail:
  assumes "list_all command_ok old" and "command_ok (args @ [arg])" and "SerializeCommand (args @ [arg]) = t @ arg @ CRLF"
    and "new = concat (map SerializeCommand cmds)" and "length arg + 2 \<le> length new"
  shows "\<exists>a more err. aof_Close (aof_run (map AWrite cmds) (OpenAOF (concat (map SerializeCommand old) @ t) policy)) = Some a
    \<and> Replay (Some (af_synced a)) =
        (if new ! length arg = CR \<and> new ! Suc (length arg) = LF
         then (filter (\<lambda>c. c \<noteq> []) old @ (args @ [take (length arg) new]) # more, err)
         else (filter (\<lambda>c. c \<noteq> []) old, Some ErrInvalidSyntax))"
proof -
  let ?b = "aof_run (map AWrite cmds) (OpenAOF (concat (map SerializeCommand old) @ t) policy)"
  have "written (map AWrite cmds) = cmds" by (induction cmds) auto
  then have b: "steady ?b" "all_bytes ?b = concat (map SerializeCommand old) @ t @ new"
    using steady_run [OF steady_Open, of "map AWrite cmds"] by (simp_all add: all_bytes_Open assms(4))
  have "\<exists>more err. replay_loop (concat (map SerializeCommand old) @ t @ new) =
        (if new ! length arg = CR \<and> new ! Suc (length arg) = LF
         then (filter (\<lambda>c. c \<noteq> []) old @ (args @ [take (length arg) new]) # more, err)
         else (filter (\<lambda>c. c \<noteq> []) old, Some ErrInvalidSyntax))"
  proof (cases "new ! length arg = CR \<and> new ! Suc (length arg) = LF")
    case True
    let ?w = "take (length arg) new" and ?rest = "drop (length arg + 2) new"
    have "new = ?w @ CRLF @ ?rest"
      using True assms(5) id_take_nth_drop [of "length arg" new] id_take_nth_drop [of 0 "drop (Suc (length arg)) new"]
      by (simp add: CRLF_def)
    moreover have l: "length ?w = length arg" using assms(5) by simp
    ultimately have "t @ new = SerializeCommand (args @ [?w]) @ ?rest"
      using SerializeCommand_torn [OF assms(3)] by (simp add: SerializeCommand_def)
    then have "concat (map SerializeCommand old) @ t @ new = concat (map SerializeCommand (old @ [args @ [?w]])) @ ?rest" by simp
    moreover have "list_all command_ok (old @ [args @ [?w]])" using assms(1,2) l by (simp add: command_ok_def)
    ultimately show ?thesis using True replay_commands [of "old @ [args @ [?w]]" ?rest] by auto
  next
    case False
    then have "replay_loop (t @ new) = ([], Some ErrInvalidSyntax)"
      using ReadCommand_torn [OF assms(2,3,5)] by (subst replay_loop.simps) simp
    then show ?thesis using False replay_commands [OF assms(1), of "t @ new"] by simp
  qed
  then show ?thesis using Close_synced [OF b(1)] b(2) by (auto simp: Replay_def)
qed

text \<open>The file ends inside \<open>DEL v\<close> or inside \<open>DEL kk\<close>, and the server is started again for one \<open>PING\<close>.\<close>

theorem AOF_torn_tail_witness:
  "(\<exists>a. aof_Close (aof_run [AWrite [''PING'']] (OpenAOF (''*2'' @ CRLF @ ''$3'' @ CRLF @ ''DEL'' @ CRLF @ ''$1'' @ CRLF) FsyncAlways)) = Some a
     \<and> Replay (Some (af_synced a)) = ([], Some ErrInvalidSyntax)) \<and>
   (\<exists>a more err. aof_Close (aof_run [AWrite [''PING'']] (OpenAOF (''*2'' @ CRLF @ ''$3'' @ CRLF @ ''DEL'' @ CRLF @ ''$2'' @ CRLF) FsyncAlways)) = Some a
     \<and> Replay (Some (af_synced a)) = ([''DEL'', ''*1''] # more, err))"
proof
  let ?new = "concat (map SerializeCommand [[''PING'']])"
  have new: "?new = ''*1'' @ CRLF @ ''$4'' @ CRLF @ ''PING'' @ CRLF" by code_simp
  let ?t = "''*2'' @ CRLF @ ''$3'' @ CRLF @ ''DEL'' @ CRLF @ ''$1'' @ CRLF"
  have 1: "list_all command_ok []" "command_ok ([''DEL''] @ [''v''])" "SerializeCommand ([''DEL''] @ [''v'']) = ?t @ ''v'' @ CRLF"
    "length ''v'' + 2 \<le> length ?new" by code_simp+
  have 2: "\<not> (?new ! length ''v'' = CR \<and> ?new ! Suc (length ''v'') = LF)" by code_simp
  show "\<exists>a. aof_Close (aof_run [AWrite [''PING'']] (OpenAOF ?t FsyncAlways)) = Some a
     \<and> Replay (Some (af_synced a)) = ([], Some ErrInvalidSyntax)"
    using AOF_torn_tail [OF 1(1-3) refl 1(4), of FsyncAlways, unfolded if_not_P [OF 2]] by simp
  let ?t = "''*2'' @ CRLF @ ''$3'' @ CRLF @ ''DEL'' @ CRLF @ ''$2'' @ CRLF"
  have 3: "command_ok ([''DEL''] @ [''kk''])" "SerializeCommand ([''DEL''] @ [''kk'']) = ?t @ ''kk'' @ CRLF"
    "length ''kk'' + 2 \<le> length ?new" by code_simp+
  have 4: "?new ! length ''kk'' = CR \<and> ?new ! Suc (length ''kk'') = LF" "take (length ''kk'') ?new = ''*1''" by code_simp+
  show "\<exists>a more err. aof_Close (aof_run [AWrite [''PING'']] (OpenAOF ?t FsyncAlways)) = Some a
     \<and> Replay (Some (af_synced a)) = ([''DEL'', ''*1''] # more, err)"
    using AOF_torn_tail [OF 1(1) 3(1,2) refl 3(3), of FsyncAlways, unfolded if_P [OF 4(1)] 4(2)] by simp
qed

end
