(* ===== verification/Spec2Isabelle.thy ===== *)
theory Spec2Isabelle
  imports Resp Ring_Buffer Reactor_Parser Data_Structs Streams Skiplist Keyspace Commands Access Cluster_Slots Rebalancer
    Cluster_Gossip Rdb Aof
begin

text \<open>
  VortexKV is an in-memory key-value server that speaks the Redis protocol. A client's bytes reach a reactor, which parses
  commands out of a ring buffer; the engine checks permissions, runs the command on a sharded keyspace whose values are
  strings, lists, sets, hashes, sorted sets and streams, writes it to an append-only file and sends it to replicas; snapshots save
  the keyspace; a cluster of servers shares 16384 hash slots and agrees on their owners by gossip. These theories model
  the parts of src/internal listed below, as functions on explicit state, and prove what each promises.

  \<^bold>\<open>Conventions.\<close> A Go string or byte slice is a \<^typ>\<open>string\<close> of bytes; an \<open>int64\<close> is an \<^typ>\<open>int\<close> with the wrap-around written out
  (\<^const>\<open>wrap64\<close>), other fixed-width integers are words where bits matter and naturals below their bound elsewhere. A Go map is an
  association list, read through the locale \<open>go_map\<close>; ranging over a map visits it in the order of that list, and theorems
  quantify over every list, so over every order. A struct is a record, a method a function from the receiver to its result and the
  receiver after it. Errors and panics are values. The clock, random draws, the formatting and parsing of floats, \<open>path.Match\<close> and the
  order in which a walk meets the nodes are arguments. A lock makes a method one step; steps of different goroutines interleave as
  sequences of steps. Floats are their bit patterns, compared by the order of IEEE 754.

  \<^bold>\<open>Theories.\<close>

  \<^item> \<open>Go_Prelude\<close>: what the sources use of Go (strconv, strings, maps) and the shared lemmas; the locales \<open>go_map\<close> (a map's laws) and \<open>codec\<close>
    (a decoder that inverts an encoder and leaves the bytes after it). \<open>Binary\<close>: the integer encodings of encoding/binary.

  \<^item> \<open>Resp\<close> (resp/types.go, parser.go, writer.go): protocol values, the buffered reader with its limits, the writers. Reading inverts
    writing; reading always returns: its recursion has fuel one above the length of the input, which is enough because every nested
    value consumes a byte (\<open>ReadValue_total\<close>).

  \<^item> \<open>Ring_Buffer\<close>, \<open>Reactor_Parser\<close> (reactor/ring_buffer.go, parser.go, serializer.go, cmd_fast.go): the ring buffer refines a byte
    queue, stated as the locale \<open>byte_queue\<close>; the incremental parser never changes an answer when more bytes arrive and agrees with the
    buffered reader; the serializer writes the same bytes as \<open>Resp\<close>; an unchecked addition makes a short message panic.

  \<^item> \<open>Data_Structs\<close>, \<open>Streams\<close>, \<open>Skiplist\<close> (datastruct/list.go, set.go, hash.go, stream.go, skiplist.go): lists, sets and hashes; stream
    identifiers, ranges, consumer groups and pending lists; the skip list as a heap of nodes with forward pointers, spans and backward
    pointers. Streams stay ordered while identifiers increase, and groups then deliver each entry once; the skip list refines a sorted list, stated as the locale
    \<open>sorted_set\<close>, whatever levels are drawn.

  \<^item> \<open>Keyspace\<close> (engine/keyspace.go): shards, time limits, eviction, the reaper, the dump. Every sequence of operations refines a map from
    keys to entries with time limits; only the count a deletion replies also sees keys that have expired and are not yet removed.

  \<^item> \<open>Commands\<close> (engine/engine.go): the handlers of all commands on the keyspace, each with the flag by which it reports a write.
    They keep every value of its type, scores that are not numbers apart; a command that reports no write changed nothing, with three exceptions that are proved.

  \<^item> \<open>Access\<close> (engine/acl.go and from engine.go the keys of a command, the write commands and the \<open>ACL\<close> command): the keys extracted cover
    what a command changes, with four exceptions, so the permission check confines what a user changes (not what a user reads); the two lists of write commands miss some, and which is proved.

  \<^item> \<open>Cluster_Slots\<close>, \<open>Rebalancer\<close>, \<open>Cluster_Bus\<close>, \<open>Cluster_State\<close>, \<open>Cluster_Gossip\<close> (cluster/crc16.go, node.go, rebalancer.go, bus.go, cluster.go,
    gossip.go): key slots, the rebalancing plan, packets, the manager with its slot commands and configuration file, and the packet
    handler, heartbeat and election. Node descriptors live in a heap, because the map of nodes, the slot map and \<open>Self\<close> share them.
    The slot map and the descriptors agree through every run of the steps of \<open>cluster_step\<close> (which leave out \<open>Meet\<close> and \<open>AddNode\<close>), a node votes once per epoch while it runs, and the plan is balanced; the
    failure detector, the election and a restart have defects that are proved.

  \<^item> \<open>Crc64\<close>, \<open>Rdb\<close>, \<open>Aof\<close> (persistence/crc64.go, rdb.go, aof.go): the snapshot is read back exactly and a change within eight bytes is
    always found; the append-only file is replayed exactly, keeps all but a tail when the power fails, and under \<open>everysec\<close> every command
    becomes durable; a torn tail swallows later commands or the first
    bytes of them.

  \<^bold>\<open>Bounds.\<close> Fuel appears in \<open>ReadValue\<close>, where it is enough for every input, and in the walks along the pointers of the skip list, where the number of nodes is enough
    on every list with the shape the operations keep; every other loop is structural or has a termination proof. Limits of
    the source (bulk and array lengths, 64 KB buffers, 16384 slots, 32 levels) are the source's own.

  \<^bold>\<open>Not modelled.\<close> The vector index and its graph (datastruct/vector.go, hnsw.go), which are floating-point arithmetic; of vectors only the
  stored data appears, in snapshots. Scripting (engine/lua.go, wasm.go), which runs third-party interpreters. Sessions, transactions and
  the administration commands of engine.go. Sockets, event loops and their variants for other systems (reactor_*.go, factory_*.go,
  server/tcp.go, the connections of cluster/gossip.go and the key migration of rebalancer.go), replication over a connection
  (replication/replication.go), the publish-subscribe channels (pubsub/broker.go), the web console (web/), telemetry
  (telemetry/), the operator (operator/), whose effects are calls of the operating system, of HTTP or of Kubernetes, and the command-line
  programs. Failing disks are not modelled: a write to an open file succeeds, and a loss of power leaves the synced bytes and a
  prefix of the others.
\<close>

end
